(* ===== verification/Prelude.thy ===== *)
theory Prelude
  imports Main "HOL-Library.Word" "HOL-Library.Stream" "HOL-Library.Char_ord"
    "HOL-Library.List_Lexorder" "HOL-Library.Product_Lexorder"
begin

text \<open>
  Shared vocabulary of the development: bytes and machine integers at their width, Rust
  strings as their UTF-8 bytes, the small standard-library operations the components use
  (\<open>Iterator::position\<close>, \<open>iter_mut().find\<close> followed by a mutation, prefixes, suffixes,
  trimming, ASCII lower case, \<open>String::from_utf8\<close>), and the outside world a call can draw
  from: the random tape behind \<open>OsRng\<close> and the readings of the system clock.

  A Rust \<open>String\<close> is a HOL \<^typ>\<open>string\<close> whose characters are the UTF-8 bytes of the
  text, so that \<open>s.len()\<close> is \<^term>\<open>length s\<close>, \<open>==\<close> is equality and the order of
  \<open>sort\<close> is the lexicographic order of the bytes, as in Rust.
\<close>

section \<open>Collections of facts\<close>

named_theorems byte_simps "conversions between characters, bytes and strings"
named_theorems list_edit_simps "position, update of the first match, and their frame facts"

section \<open>Machine integers and bytes\<close>

type_synonym byte = "8 word"
type_synonym bytes = "byte list"
type_synonym u16 = "16 word"
type_synonym u32 = "32 word"
type_synonym u64 = "64 word"

text \<open>Rust's \<open>saturating_sub\<close> on \<open>u64\<close>.\<close>

definition saturating_sub :: "u64 \<Rightarrow> u64 \<Rightarrow> u64" where
  "saturating_sub a b = (if a < b then 0 else a - b)"

lemma unat_saturating_sub: "unat (saturating_sub a b) = unat a - unat b"
  by (auto simp: saturating_sub_def unat_sub_if' word_less_nat_alt)

text \<open>
  An \<open>i32\<close> is an \<^typ>\<open>int\<close> kept in range: \<open>as i32\<close> and \<open>i32\<close> addition reduce to
  the two's complement value at width 32.
\<close>

definition to_i32 :: "int \<Rightarrow> int" where
  "to_i32 i = sint (word_of_int i :: 32 word)"

lemma to_i32_id: "- (2 ^ 31) \<le> i \<Longrightarrow> i < 2 ^ 31 \<Longrightarrow> to_i32 i = i"
  by (simp add: to_i32_def signed_of_int signed_take_bit_int_eq_self)

section \<open>Strings as UTF-8 bytes\<close>

definition byte_of_char :: "char \<Rightarrow> byte" where
  "byte_of_char c = word_of_nat (of_char c)"

definition char_of_byte :: "byte \<Rightarrow> char" where
  "char_of_byte b = char_of (unat b)"

definition as_bytes :: "string \<Rightarrow> bytes" where
  "as_bytes s = map byte_of_char s"

definition of_bytes :: "bytes \<Rightarrow> string" where
  "of_bytes bs = map char_of_byte bs"

lemma char_of_byte_of_char [simp, byte_simps]: "char_of_byte (byte_of_char c) = c"
  by (simp add: char_of_byte_def byte_of_char_def unat_of_nat take_bit_eq_mod)

lemma byte_of_char_of_byte [simp, byte_simps]: "byte_of_char (char_of_byte b) = b"
proof -
  have "unat b < 256" using unsigned_less [of b, where ?'a = nat] by simp
  then show ?thesis by (simp add: char_of_byte_def byte_of_char_def)
qed

lemma of_bytes_as_bytes [simp, byte_simps]: "of_bytes (as_bytes s) = s"
  by (simp add: of_bytes_def as_bytes_def map_idI)

lemma as_bytes_of_bytes [simp, byte_simps]: "as_bytes (of_bytes bs) = bs"
  by (simp add: of_bytes_def as_bytes_def map_idI)

lemma length_as_bytes [simp, byte_simps]: "length (as_bytes s) = length s"
  by (simp add: as_bytes_def)

lemma length_of_bytes [simp, byte_simps]: "length (of_bytes bs) = length bs"
  by (simp add: of_bytes_def)

text \<open>
  Well-formed UTF-8, by the table of lead and continuation bytes that Rust's
  \<open>core::str::from_utf8\<close> and \<open>String::from_utf8\<close> accept (no overlong forms, no
  surrogates, nothing above U+10FFFF).
\<close>

definition cont_byte :: "byte \<Rightarrow> bool" where
  "cont_byte b \<longleftrightarrow> 0x80 \<le> b \<and> b \<le> 0xBF"

definition second_ok3 :: "byte \<Rightarrow> byte \<Rightarrow> bool" where
  "second_ok3 b c =
     (if b = 0xE0 then 0xA0 \<le> c \<and> c \<le> 0xBF
      else if b = 0xED then 0x80 \<le> c \<and> c \<le> 0x9F
      else cont_byte c)"

definition second_ok4 :: "byte \<Rightarrow> byte \<Rightarrow> bool" where
  "second_ok4 b c =
     (if b = 0xF0 then 0x90 \<le> c \<and> c \<le> 0xBF
      else if b = 0xF4 then 0x80 \<le> c \<and> c \<le> 0x8F
      else cont_byte c)"

fun utf8_valid :: "bytes \<Rightarrow> bool" where
  "utf8_valid [] = True"
| "utf8_valid (b # bs) =
     (if b < 0x80 then utf8_valid bs
      else if 0xC2 \<le> b \<and> b \<le> 0xDF then
        (case bs of c # r \<Rightarrow> cont_byte c \<and> utf8_valid r | _ \<Rightarrow> False)
      else if 0xE0 \<le> b \<and> b \<le> 0xEF then
        (case bs of c # d # r \<Rightarrow> second_ok3 b c \<and> cont_byte d \<and> utf8_valid r | _ \<Rightarrow> False)
      else if 0xF0 \<le> b \<and> b \<le> 0xF4 then
        (case bs of c # d # e # r \<Rightarrow>
           second_ok4 b c \<and> cont_byte d \<and> cont_byte e \<and> utf8_valid r | _ \<Rightarrow> False)
      else False)"

definition from_utf8 :: "bytes \<Rightarrow> string option" where
  "from_utf8 bs = (if utf8_valid bs then Some (of_bytes bs) else None)"

text \<open>A string is a Rust string when its bytes are well formed.\<close>

definition str_ok :: "string \<Rightarrow> bool" where
  "str_ok s \<longleftrightarrow> utf8_valid (as_bytes s)"

lemma from_utf8_as_bytes: "str_ok s \<Longrightarrow> from_utf8 (as_bytes s) = Some s"
  by (simp add: from_utf8_def str_ok_def)

text \<open>Plain ASCII text is well formed.\<close>

lemma utf8_valid_ascii: "\<forall>b \<in> set bs. b < 0x80 \<Longrightarrow> utf8_valid bs"
  by (induction bs) auto

section \<open>String operations of the standard library\<close>

definition starts_with :: "string \<Rightarrow> string \<Rightarrow> bool" where
  "starts_with p s \<longleftrightarrow> take (length p) s = p"

definition strip_prefix :: "string \<Rightarrow> string \<Rightarrow> string option" where
  "strip_prefix p s = (if starts_with p s then Some (drop (length p) s) else None)"

definition strip_suffix :: "string \<Rightarrow> string \<Rightarrow> string option" where
  "strip_suffix p s = map_option rev (strip_prefix (rev p) (rev s))"

lemma starts_with_iff: "starts_with p s \<longleftrightarrow> (\<exists>r. s = p @ r)"
proof
  assume "starts_with p s"
  then have "s = p @ drop (length p) s"
    unfolding starts_with_def by (metis append_take_drop_id)
  then show "\<exists>r. s = p @ r" ..
qed (auto simp: starts_with_def)

lemma strip_prefix_Some: "strip_prefix p s = Some r \<longleftrightarrow> s = p @ r"
  by (auto simp: strip_prefix_def starts_with_iff)

lemma strip_suffix_Some: "strip_suffix p s = Some r \<longleftrightarrow> s = r @ p"
proof -
  have "strip_suffix p s = Some r \<longleftrightarrow> strip_prefix (rev p) (rev s) = Some (rev r)"
    by (auto simp: strip_suffix_def)
  also have "\<dots> \<longleftrightarrow> rev s = rev (r @ p)" by (simp add: strip_prefix_Some)
  also have "\<dots> \<longleftrightarrow> s = r @ p" by (simp only: rev_is_rev_conv)
  finally show ?thesis .
qed

text \<open>\<open>str::contains\<close> with a string needle.\<close>

fun contains :: "string \<Rightarrow> string \<Rightarrow> bool" where
  "contains needle [] = (needle = [])"
| "contains needle (c # cs) = (starts_with needle (c # cs) \<or> contains needle cs)"

lemma contains_iff: "contains needle s \<longleftrightarrow> (\<exists>a b. s = a @ needle @ b)"
proof (induction s)
  case Nil
  then show ?case by auto
next
  case (Cons c cs)
  have "contains needle (c # cs) \<longleftrightarrow> (\<exists>b. c # cs = [] @ needle @ b) \<or> (\<exists>a b. c # cs = (c # a) @ needle @ b)"
    by (simp add: Cons.IH starts_with_iff)
  also have "\<dots> \<longleftrightarrow> (\<exists>a b. c # cs = a @ needle @ b)" (is "?l \<longleftrightarrow> ?r")
  proof
    assume ?r
    then obtain a b where "c # cs = a @ needle @ b" by blast
    then show ?l by (cases a) auto
  qed blast
  finally show ?case .
qed

text \<open>\<open>rsplit_once\<close>: the text before and after the last occurrence of a character.\<close>

definition rsplit_last :: "char \<Rightarrow> string \<Rightarrow> string" where
  "rsplit_last c s = rev (takeWhile (\<lambda>x. x \<noteq> c) (rev s))"

definition rsplit_once :: "char \<Rightarrow> string \<Rightarrow> (string \<times> string) option" where
  "rsplit_once c s =
     (if c \<in> set s
      then Some (take (length s - Suc (length (rsplit_last c s))) s, rsplit_last c s)
      else None)"

lemma rsplit_last_no_sep: "c \<notin> set (rsplit_last c s)"
  by (auto simp: rsplit_last_def dest: set_takeWhileD)

lemma rsplit_last_split:
  "c \<in> set s \<Longrightarrow> \<exists>a. s = a @ c # rsplit_last c s"
proof -
  assume "c \<in> set s"
  then have ne: "dropWhile (\<lambda>x. x \<noteq> c) (rev s) \<noteq> []"
    by (simp add: dropWhile_eq_Nil_conv)
  then obtain x r where xr: "dropWhile (\<lambda>x. x \<noteq> c) (rev s) = x # r"
    by (cases "dropWhile (\<lambda>x. x \<noteq> c) (rev s)") auto
  have "x = c" using hd_dropWhile [OF ne] by (simp add: xr)
  with xr have r: "dropWhile (\<lambda>x. x \<noteq> c) (rev s) = c # r" by simp
  have "rev s = takeWhile (\<lambda>x. x \<noteq> c) (rev s) @ c # r"
    using takeWhile_dropWhile_id [of "\<lambda>x. x \<noteq> c" "rev s"] r by simp
  then have "rev (rev s) = rev (takeWhile (\<lambda>x. x \<noteq> c) (rev s) @ c # r)"
    by (rule arg_cong)
  then have "s = rev r @ c # rev (takeWhile (\<lambda>x. x \<noteq> c) (rev s))"
    by simp
  then show ?thesis unfolding rsplit_last_def by blast
qed

lemma rsplit_once_Some:
  "rsplit_once c s = Some (a, b) \<Longrightarrow> s = a @ c # b \<and> c \<notin> set b"
proof -
  assume h: "rsplit_once c s = Some (a, b)"
  then have c: "c \<in> set s" and b: "b = rsplit_last c s"
    and a: "a = take (length s - Suc (length b)) s"
    by (auto simp: rsplit_once_def split: if_splits)
  from rsplit_last_split [OF c] obtain a' where s: "s = a' @ c # b" using b by blast
  then have "length s - Suc (length b) = length a'" by simp
  with a s have "a = a'" by (metis append_eq_conv_conj)
  with s b show ?thesis by (simp add: rsplit_last_no_sep)
qed

lemma rsplit_once_None: "rsplit_once c s = None \<longleftrightarrow> c \<notin> set s"
  by (simp add: rsplit_once_def)

text \<open>ASCII case mapping.\<close>

definition ascii_lower_char :: "char \<Rightarrow> char" where
  "ascii_lower_char c =
     (if CHR ''A'' \<le> c \<and> c \<le> CHR ''Z'' then char_of (of_char c + 32 :: nat) else c)"

definition to_ascii_lowercase :: "string \<Rightarrow> string" where
  "to_ascii_lowercase s = map ascii_lower_char s"

definition eq_ignore_ascii_case :: "string \<Rightarrow> string \<Rightarrow> bool" where
  "eq_ignore_ascii_case a b \<longleftrightarrow> to_ascii_lowercase a = to_ascii_lowercase b"

lemma length_to_ascii_lowercase [simp]: "length (to_ascii_lowercase s) = length s"
  by (simp add: to_ascii_lowercase_def)

text \<open>
  \<open>str::trim\<close> drops the code points with the Unicode \<open>White_Space\<close> property from both
  ends. Here they are written as their UTF-8 bytes: one byte, two bytes (U+0085, U+00A0)
  or three bytes (U+1680, U+2000 to U+200A, U+2028, U+2029, U+202F, U+205F, U+3000).
\<close>

definition ws1 :: "char \<Rightarrow> bool" where
  "ws1 c \<longleftrightarrow> c = CHR '' '' \<or> (CHR 0x09 \<le> c \<and> c \<le> CHR 0x0D)"

definition ws2 :: "char \<Rightarrow> char \<Rightarrow> bool" where
  "ws2 a b \<longleftrightarrow> a = CHR 0xC2 \<and> (b = CHR 0x85 \<or> b = CHR 0xA0)"

definition ws3 :: "char \<Rightarrow> char \<Rightarrow> char \<Rightarrow> bool" where
  "ws3 a b c \<longleftrightarrow>
     (a = CHR 0xE1 \<and> b = CHR 0x9A \<and> c = CHR 0x80) \<or>
     (a = CHR 0xE2 \<and> b = CHR 0x80 \<and>
        ((CHR 0x80 \<le> c \<and> c \<le> CHR 0x8A) \<or> c = CHR 0xA8 \<or> c = CHR 0xA9 \<or> c = CHR 0xAF)) \<or>
     (a = CHR 0xE2 \<and> b = CHR 0x81 \<and> c = CHR 0x9F) \<or>
     (a = CHR 0xE3 \<and> b = CHR 0x80 \<and> c = CHR 0x80)"

fun trim_with ::
  "(char \<Rightarrow> bool) \<Rightarrow> (char \<Rightarrow> char \<Rightarrow> bool) \<Rightarrow> (char \<Rightarrow> char \<Rightarrow> char \<Rightarrow> bool) \<Rightarrow> string \<Rightarrow> string"
where
  "trim_with p q r [] = []"
| "trim_with p q r [a] = (if p a then [] else [a])"
| "trim_with p q r [a, b] =
     (if p a then trim_with p q r [b] else if q a b then [] else [a, b])"
| "trim_with p q r (a # b # c # s) =
     (if p a then trim_with p q r (b # c # s)
      else if q a b then trim_with p q r (c # s)
      else if r a b c then trim_with p q r s
      else a # b # c # s)"

definition trim_start :: "string \<Rightarrow> string" where
  "trim_start s = trim_with ws1 ws2 ws3 s"

definition trim_end :: "string \<Rightarrow> string" where
  "trim_end s = rev (trim_with ws1 (\<lambda>a b. ws2 b a) (\<lambda>a b c. ws3 c b a) (rev s))"

definition trim :: "string \<Rightarrow> string" where
  "trim s = trim_end (trim_start s)"

lemma length_trim_with: "length (trim_with p q r s) \<le> length s"
  by (induction p q r s rule: trim_with.induct) auto

text \<open>\<open>trim_end_matches\<close> with a character.\<close>

definition trim_end_matches :: "char \<Rightarrow> string \<Rightarrow> string" where
  "trim_end_matches c s = rev (dropWhile (\<lambda>x. x = c) (rev s))"

text \<open>Decimal rendering of an unsigned integer (\<open>format!("{}")\<close>).\<close>

fun show_nat :: "nat \<Rightarrow> string" where
  "show_nat n =
     (if n < 10 then [char_of (48 + n)]
      else show_nat (n div 10) @ [char_of (48 + n mod 10 :: nat)])"

declare show_nat.simps [simp del]

section \<open>Lists with a first match\<close>

text \<open>\<open>iter().position(p)\<close> and \<open>iter_mut().find(p)\<close> followed by a mutation.\<close>

fun position :: "('a \<Rightarrow> bool) \<Rightarrow> 'a list \<Rightarrow> nat option" where
  "position p [] = None"
| "position p (x # xs) = (if p x then Some 0 else map_option Suc (position p xs))"

fun update_first :: "('a \<Rightarrow> bool) \<Rightarrow> ('a \<Rightarrow> 'a) \<Rightarrow> 'a list \<Rightarrow> 'a list" where
  "update_first p f [] = []"
| "update_first p f (x # xs) = (if p x then f x # xs else x # update_first p f xs)"

lemma position_None [list_edit_simps]: "position p xs = None \<longleftrightarrow> (\<forall>x \<in> set xs. \<not> p x)"
  by (induction xs) auto

lemma position_Some [list_edit_simps]:
  "position p xs = Some i \<Longrightarrow> i < length xs \<and> p (xs ! i) \<and> (\<forall>j < i. \<not> p (xs ! j))"
proof (induction xs arbitrary: i)
  case Nil
  then show ?case by simp
next
  case (Cons x xs)
  show ?case
  proof (cases "p x")
    case True
    with Cons.prems show ?thesis by simp
  next
    case False
    with Cons.prems obtain k where k: "position p xs = Some k" "i = Suc k" by auto
    with Cons.IH [OF k(1)] False show ?thesis
      by (auto simp: nth_Cons split: nat.splits)
  qed
qed

lemma find_position:
  "find p xs = (case position p xs of None \<Rightarrow> None | Some i \<Rightarrow> Some (xs ! i))"
  by (induction xs) (auto split: option.splits)

lemma update_first_nth:
  "position p xs = Some i \<Longrightarrow> update_first p f xs = xs[i := f (xs ! i)]"
  by (induction xs arbitrary: i) (auto split: if_splits)

lemma length_update_first [simp]: "length (update_first p f xs) = length xs"
  by (induction xs) auto

lemma map_update_same: "f x = f (xs ! i) \<Longrightarrow> map f (xs[i := x]) = map f xs"
  by (metis list_update_id map_update)

lemma map_update_first:
  "(\<And>x. p x \<Longrightarrow> g (f x) = g x) \<Longrightarrow> map g (update_first p f xs) = map g xs"
  by (induction xs) auto

lemma filter_update_first:
  "(\<And>x. p x \<Longrightarrow> \<not> q x) \<Longrightarrow> (\<And>x. p x \<Longrightarrow> \<not> q (f x)) \<Longrightarrow>
   filter q (update_first p f xs) = filter q xs"
  by (induction xs) auto

lemma find_update_first_hit:
  "\<exists>x \<in> set xs. p x \<Longrightarrow> (\<And>x. p x \<Longrightarrow> p (f x)) \<Longrightarrow>
   find p (update_first p f xs) = map_option f (find p xs)"
  by (induction xs) auto

lemma find_append: "find p (xs @ ys) = (case find p xs of Some x \<Rightarrow> Some x | None \<Rightarrow> find p ys)"
  by (induction xs) auto

lemma find_None: "find p xs = None \<longleftrightarrow> (\<forall>x \<in> set xs. \<not> p x)"
  by (auto simp: find_None_iff)

lemma find_Some_set: "find p xs = Some x \<Longrightarrow> x \<in> set xs \<and> p x"
  by (auto simp: find_Some_iff)

section \<open>The outside world\<close>

text \<open>
  \<open>OsRng\<close> is an endless tape of bytes; \<open>fill_bytes\<close> takes the next ones. The system
  clock is an endless list of readings in seconds relative to the Unix epoch, and
  \<open>duration_since(UNIX_EPOCH).map(as_secs).unwrap_or(0)\<close> reads the next one.
  The record is extended by components that also own files (\<open>Persist\<close>).
\<close>

record world =
  w_rng :: "byte stream"
  w_clock :: "int stream"

definition fill_bytes :: "nat \<Rightarrow> 'z world_scheme \<Rightarrow> bytes \<times> 'z world_scheme" where
  "fill_bytes n w = (stake n (w_rng w), w\<lparr>w_rng := sdrop n (w_rng w)\<rparr>)"

definition now_secs :: "'z world_scheme \<Rightarrow> u64 \<times> 'z world_scheme" where
  "now_secs w =
     (let t = shd (w_clock w)
      in (if t < 0 then 0 else word_of_int t, w\<lparr>w_clock := stl (w_clock w)\<rparr>))"

lemma length_fill_bytes: "fill_bytes n w = (bs, w') \<Longrightarrow> length bs = n"
  by (auto simp: fill_bytes_def)

end
