(* ===== verification/Approval.thy ===== *)
theory Approval
  imports Prelude
begin

text \<open>
  The approval channel: the types and helpers of
  \<open>logic/vaults-bridge-core/src/approval.rs\<close>, and the approver of the app
  (\<open>SlintApprover\<close>, the two card callbacks and the timeout worker of \<open>src/main.rs\<close>).

  A \<open>oneshot\<close> channel is a number that the model allocates; \<open>sa_sent\<close> maps it to the value
  sent. \<open>request\<close> runs to its \<open>await\<close> and returns a ticket: a decision, or the channel it
  waits on. Closures given to \<open>invoke_from_event_loop\<close> are tasks of a queue which the UI
  thread runs later, so every interleaving of requests, taps, time outs and UI turns is a
  sequence of the operations below.
\<close>

section \<open>Types\<close>

datatype approval_action =
    Release | Save | Update | RestoreAndUpdate | Generate | GenerateAndUpdate | GenerateAndRestore
  | Import

fun title :: "approval_action \<Rightarrow> string" where
  "title Release = ''Release password?''"
| "title Save = ''Save password?''"
| "title Update = ''Update password?''"
| "title RestoreAndUpdate = ''Restore and update?''"
| "title Generate = ''Generate password?''"
| "title GenerateAndUpdate = ''Generate new password?''"
| "title GenerateAndRestore = ''Restore and generate?''"
| "title Import = ''Import passwords?''"

fun action_label :: "approval_action \<Rightarrow> string" where
  "action_label Release = ''Release password''"
| "action_label Save = ''Save password''"
| "action_label Update = ''Update password''"
| "action_label RestoreAndUpdate = ''Restore and update''"
| "action_label Generate = ''Generate password''"
| "action_label GenerateAndUpdate = ''Generate new password''"
| "action_label GenerateAndRestore = ''Restore and generate''"
| "action_label Import = ''Import passwords''"

record approval_request =
  ar_action :: approval_action
  ar_origin :: string
  ar_username :: string
  ar_request_nonce :: u64

datatype approval_decision = Approve | Reject | Timeout

datatype ticket = Decided approval_decision | Waiting nat

section \<open>The trait\<close>

text \<open>
  What every approver promises its caller: a new ticket is undecided, a decision is final,
  and neither a request nor a cancellation decides a waiting ticket with \<open>Approve\<close>: only
  the user's side of an approver can.
\<close>

datatype 'e host_call = CallRequest approval_request 'e | CallCancel 'e

locale approver =
  fixes request :: "approval_request \<Rightarrow> 'e \<Rightarrow> 'a \<Rightarrow> ticket \<times> 'a"
    and cancel :: "'e \<Rightarrow> 'a \<Rightarrow> bool \<times> 'a"
    and poll :: "'a \<Rightarrow> nat \<Rightarrow> approval_decision option"
    and valid :: "'a \<Rightarrow> bool"
  assumes request_inv: "valid a \<Longrightarrow> request r e a = (t, a') \<Longrightarrow> valid a'"
    and cancel_inv: "valid a \<Longrightarrow> cancel e a = (b, a') \<Longrightarrow> valid a'"
    and request_fresh:
      "valid a \<Longrightarrow> request r e a = (Waiting c, a') \<Longrightarrow> poll a c = None \<and> poll a' c = None"
    and request_final: "valid a \<Longrightarrow> request r e a = (t, a') \<Longrightarrow> poll a c = Some d \<Longrightarrow> poll a' c = Some d"
    and cancel_final: "valid a \<Longrightarrow> cancel e a = (b, a') \<Longrightarrow> poll a c = Some d \<Longrightarrow> poll a' c = Some d"
    and request_no_approve:
      "valid a \<Longrightarrow> request r e a = (t, a') \<Longrightarrow> poll a' c = Some Approve \<Longrightarrow> poll a c = Some Approve"
    and cancel_no_approve:
      "valid a \<Longrightarrow> cancel e a = (b, a') \<Longrightarrow> poll a' c = Some Approve \<Longrightarrow> poll a c = Some Approve"
begin

fun host_calls :: "'e host_call list \<Rightarrow> 'a \<Rightarrow> 'a" where
  "host_calls [] a = a"
| "host_calls (CallRequest r e # cs) a = host_calls cs (snd (request r e a))"
| "host_calls (CallCancel e # cs) a = host_calls cs (snd (cancel e a))"

lemma host_calls_inv: "valid a \<Longrightarrow> valid (host_calls cs a)"
proof (induction cs a rule: host_calls.induct)
  case (2 r e cs a)
  then show ?case using request_inv by (metis host_calls.simps(2) prod.collapse)
next
  case (3 e cs a)
  then show ?case using cancel_inv by (metis host_calls.simps(3) prod.collapse)
qed simp

lemma host_calls_final: "valid a \<Longrightarrow> poll a c = Some d \<Longrightarrow> poll (host_calls cs a) c = Some d"
proof (induction cs a rule: host_calls.induct)
  case (2 r e cs a)
  then show ?case using request_inv request_final by (metis host_calls.simps(2) prod.collapse)
next
  case (3 e cs a)
  then show ?case using cancel_inv cancel_final by (metis host_calls.simps(3) prod.collapse)
qed simp

lemma host_calls_no_approve:
  "valid a \<Longrightarrow> poll (host_calls cs a) c = Some Approve \<Longrightarrow> poll a c = Some Approve"
proof (induction cs a rule: host_calls.induct)
  case (2 r e cs a)
  then show ?case using request_inv request_no_approve by (metis host_calls.simps(2) prod.collapse)
next
  case (3 e cs a)
  then show ?case using cancel_inv cancel_no_approve by (metis host_calls.simps(3) prod.collapse)
qed simp

end

text \<open>The two stateless approvers; \<open>cancel_pending\<close> is the trait's default.\<close>

definition auto_approve_request :: "approval_request \<Rightarrow> unit \<Rightarrow> unit \<Rightarrow> ticket \<times> unit" where
  "auto_approve_request r e a = (Decided Approve, a)"

definition auto_reject_request :: "approval_request \<Rightarrow> unit \<Rightarrow> unit \<Rightarrow> ticket \<times> unit" where
  "auto_reject_request r e a = (Decided Reject, a)"

definition default_cancel_pending :: "unit \<Rightarrow> unit \<Rightarrow> bool \<times> unit" where
  "default_cancel_pending e a = (False, a)"

interpretation auto_approve: approver auto_approve_request default_cancel_pending "\<lambda>_ _. None" "\<lambda>_. True"
  by unfold_locales (auto simp: auto_approve_request_def)

interpretation auto_reject: approver auto_reject_request default_cancel_pending "\<lambda>_ _. None" "\<lambda>_. True"
  by unfold_locales (auto simp: auto_reject_request_def)

section \<open>The approver of the app\<close>

definition APPROVAL_TIMEOUT :: nat where
  "APPROVAL_TIMEOUT = 60 * 1000"     \<comment> \<open>milliseconds\<close>

record pending_approval =
  pa_id :: u64
  pa_tx :: nat
  pa_deadline :: nat

record approval_card =
  card_active :: bool
  card_title :: string
  card_action_label :: string
  card_origin :: string
  card_username :: string

datatype ui_task = ShowCard approval_request | DismissCard

datatype nav_call = InvokeApproval | InvokeBackward

record slint_approver =
  sa_pending :: "pending_approval option"
  sa_next_id :: u64
  sa_channels :: nat                               \<comment> \<open>channels made so far\<close>
  sa_sent :: "nat \<Rightarrow> approval_decision option"
  sa_closed :: "nat set"                           \<comment> \<open>receivers dropped\<close>
  sa_queue :: "ui_task list"
  sa_card :: approval_card
  sa_nav :: "nav_call list"                        \<comment> \<open>newest first\<close>

text \<open>The time and whether \<open>invoke_from_event_loop\<close> accepts a task.\<close>

record ui_env =
  ue_now :: nat
  ue_loop_ok :: bool

definition slint_approver_new :: slint_approver where
  "slint_approver_new =
     \<lparr>sa_pending = None, sa_next_id = 1, sa_channels = 0, sa_sent = (\<lambda>_. None), sa_closed = {},
      sa_queue = [], sa_card = \<lparr>card_active = False, card_title = [], card_action_label = [],
      card_origin = [], card_username = []\<rparr>, sa_nav = []\<rparr>"

text \<open>\<open>tx.send(d)\<close>: fails when the receiver is gone.\<close>

definition send_decision :: "nat \<Rightarrow> approval_decision \<Rightarrow> slint_approver \<Rightarrow> bool \<times> slint_approver" where
  "send_decision c d a =
     (if c \<in> sa_closed a then (False, a) else (True, a\<lparr>sa_sent := (sa_sent a)(c := Some d)\<rparr>))"

definition enqueue_task :: "ui_env \<Rightarrow> ui_task \<Rightarrow> slint_approver \<Rightarrow> slint_approver" where
  "enqueue_task e t a = (if ue_loop_ok e then a\<lparr>sa_queue := sa_queue a @ [t]\<rparr> else a)"

text \<open>\<open>request\<close> up to the scheduling of the card: the new slot, the old sender rejected.\<close>

definition register_request :: "ui_env \<Rightarrow> slint_approver \<Rightarrow> (u64 \<times> nat) \<times> slint_approver" where
  "register_request e a =
     (let c = sa_channels a; i = sa_next_id a;
          a1 = a\<lparr>sa_channels := Suc c, sa_next_id := i + 1,
                 sa_pending := Some \<lparr>pa_id = i, pa_tx = c, pa_deadline = ue_now e + APPROVAL_TIMEOUT\<rparr>\<rparr>
      in ((i, c),
          case sa_pending a of
            None \<Rightarrow> a1
          | Some old \<Rightarrow> snd (send_decision (pa_tx old) Reject a1)))"

text \<open>The rest of \<open>request\<close> up to the \<open>await\<close>.\<close>

definition schedule_card ::
  "approval_request \<Rightarrow> u64 \<times> nat \<Rightarrow> ui_env \<Rightarrow> slint_approver \<Rightarrow> ticket \<times> slint_approver"
where
  "schedule_card req ic e a =
     (if ue_loop_ok e then (Waiting (snd ic), enqueue_task e (ShowCard req) a)
      else (Decided Reject,
            (if map_option pa_id (sa_pending a) = Some (fst ic) then a\<lparr>sa_pending := None\<rparr> else a)
              \<lparr>sa_closed := insert (snd ic) (sa_closed a)\<rparr>))"

definition slint_request :: "approval_request \<Rightarrow> ui_env \<Rightarrow> slint_approver \<Rightarrow> ticket \<times> slint_approver" where
  "slint_request req e a =
     (case register_request e a of (ic, a1) \<Rightarrow> schedule_card req ic e a1)"

definition cancel_pending :: "ui_env \<Rightarrow> slint_approver \<Rightarrow> bool \<times> slint_approver" where
  "cancel_pending e a =
     (case sa_pending a of
        None \<Rightarrow> (False, a)
      | Some p \<Rightarrow>
          (case send_decision (pa_tx p) Reject (a\<lparr>sa_pending := None\<rparr>) of
             (ok, a1) \<Rightarrow> (ok, if ok then enqueue_task e DismissCard a1 else a1)))"

definition clear_approval :: "slint_approver \<Rightarrow> slint_approver" where
  "clear_approval a = a\<lparr>sa_card := (sa_card a)\<lparr>card_active := False\<rparr>\<rparr>"

text \<open>The closures of \<open>on_approve\<close> and \<open>on_reject\<close>: the same but for the decision.\<close>

definition on_tap :: "approval_decision \<Rightarrow> slint_approver \<Rightarrow> slint_approver" where
  "on_tap d a =
     (let a1 = (case sa_pending a of
                  None \<Rightarrow> a
                | Some p \<Rightarrow> snd (send_decision (pa_tx p) d (a\<lparr>sa_pending := None\<rparr>)));
          a2 = clear_approval a1
      in a2\<lparr>sa_nav := InvokeBackward # sa_nav a2\<rparr>)"

definition on_approve :: "slint_approver \<Rightarrow> slint_approver" where
  "on_approve = on_tap Approve"

definition on_reject :: "slint_approver \<Rightarrow> slint_approver" where
  "on_reject = on_tap Reject"

text \<open>One turn of the timeout worker.\<close>

definition timeout_tick :: "ui_env \<Rightarrow> slint_approver \<Rightarrow> slint_approver" where
  "timeout_tick e a =
     (case sa_pending a of
        None \<Rightarrow> a
      | Some p \<Rightarrow>
          (if ue_now e \<ge> pa_deadline p
           then enqueue_task e DismissCard
                  (snd (send_decision (pa_tx p) Timeout (a\<lparr>sa_pending := None\<rparr>)))
           else a))"

text \<open>The UI thread runs the oldest task of its queue.\<close>

fun run_task :: "ui_task \<Rightarrow> slint_approver \<Rightarrow> slint_approver" where
  "run_task (ShowCard r) a =
     a\<lparr>sa_card := \<lparr>card_active = True, card_title = title (ar_action r),
                   card_action_label = action_label (ar_action r), card_origin = ar_origin r,
                   card_username = ar_username r\<rparr>,
       sa_nav := InvokeApproval # sa_nav a\<rparr>"
| "run_task DismissCard a =
     (let a1 = clear_approval a in a1\<lparr>sa_nav := InvokeBackward # sa_nav a1\<rparr>)"

definition ui_turn :: "slint_approver \<Rightarrow> slint_approver" where
  "ui_turn a = (case sa_queue a of [] \<Rightarrow> a | t # ts \<Rightarrow> run_task t (a\<lparr>sa_queue := ts\<rparr>))"

lemmas approver_op_defs =
  slint_request_def register_request_def schedule_card_def cancel_pending_def on_tap_def
  timeout_tick_def ui_turn_def send_decision_def enqueue_task_def clear_approval_def


section \<open>Invariant\<close>

text \<open>
  Channels not made yet are undecided; the slot holds an open, undecided channel; and a
  made channel is decided, dropped by its caller, or the one in the slot: a request waits
  only while it holds the slot.
\<close>

definition slint_inv :: "slint_approver \<Rightarrow> bool" where
  "slint_inv a \<longleftrightarrow>
     (\<forall>c \<ge> sa_channels a. sa_sent a c = None \<and> c \<notin> sa_closed a) \<and>
     (\<forall>p. sa_pending a = Some p \<longrightarrow>
        pa_tx p < sa_channels a \<and> sa_sent a (pa_tx p) = None \<and> pa_tx p \<notin> sa_closed a) \<and>
     (\<forall>c < sa_channels a. sa_sent a c = None \<longrightarrow>
        c \<in> sa_closed a \<or> (\<exists>p. sa_pending a = Some p \<and> pa_tx p = c))"

lemma slint_inv_new: "slint_inv slint_approver_new"
  by (simp add: slint_inv_def slint_approver_new_def)

lemma slint_inv_pending:
  "slint_inv a \<Longrightarrow> sa_pending a = Some p \<Longrightarrow>
   pa_tx p < sa_channels a \<and> sa_sent a (pa_tx p) = None \<and> pa_tx p \<notin> sa_closed a"
  by (simp add: slint_inv_def)

lemma slint_inv_fresh: "slint_inv a \<Longrightarrow> sa_sent a (sa_channels a) = None"
  by (simp add: slint_inv_def)

text \<open>What an operation does to the channels: the view the proofs below work with.\<close>

definition decide_pending :: "approval_decision \<Rightarrow> slint_approver \<Rightarrow> nat \<Rightarrow> approval_decision option" where
  "decide_pending d a =
     (case sa_pending a of None \<Rightarrow> sa_sent a | Some p \<Rightarrow> (sa_sent a)(pa_tx p := Some d))"

lemma slint_request_view:
  assumes "slint_inv a" and "slint_request r e a = (t, a')"
  shows "sa_sent a' = decide_pending Reject a" and "sa_channels a' = Suc (sa_channels a)"
    and "ue_loop_ok e \<Longrightarrow> t = Waiting (sa_channels a) \<and> sa_closed a' = sa_closed a \<and>
           sa_pending a' = Some \<lparr>pa_id = sa_next_id a, pa_tx = sa_channels a,
                                 pa_deadline = ue_now e + APPROVAL_TIMEOUT\<rparr>"
    and "\<not> ue_loop_ok e \<Longrightarrow> t = Decided Reject \<and> sa_pending a' = None \<and>
           sa_closed a' = insert (sa_channels a) (sa_closed a)"
  using assms slint_inv_pending [OF assms(1)]
  by (auto simp: approver_op_defs decide_pending_def Let_def split: option.splits if_splits)

lemma on_tap_view:
  assumes "slint_inv a"
  shows "sa_sent (on_tap d a) = decide_pending d a" "sa_channels (on_tap d a) = sa_channels a"
    "sa_closed (on_tap d a) = sa_closed a" "sa_pending (on_tap d a) = None"
  using slint_inv_pending [OF assms]
  by (auto simp: approver_op_defs decide_pending_def Let_def split: option.splits)

lemma cancel_pending_view:
  assumes "slint_inv a" and "cancel_pending e a = (b, a')"
  shows "sa_sent a' = decide_pending Reject a" "sa_channels a' = sa_channels a"
    "sa_closed a' = sa_closed a" "sa_pending a' = None" "b \<longleftrightarrow> sa_pending a \<noteq> None"
  using assms slint_inv_pending [OF assms(1)]
  by (auto simp: approver_op_defs decide_pending_def split: option.splits if_splits)

lemma timeout_tick_view:
  assumes "slint_inv a"
  shows "timeout_tick e a = a \<or>
     (\<exists>p. sa_pending a = Some p \<and> pa_deadline p \<le> ue_now e \<and> sa_pending (timeout_tick e a) = None \<and>
          sa_sent (timeout_tick e a) = decide_pending Timeout a \<and>
          sa_channels (timeout_tick e a) = sa_channels a \<and> sa_closed (timeout_tick e a) = sa_closed a)"
  using slint_inv_pending [OF assms]
  by (auto simp: approver_op_defs decide_pending_def split: option.splits)

lemma ui_turn_view:
  "sa_sent (ui_turn a) = sa_sent a" "sa_channels (ui_turn a) = sa_channels a"
  "sa_closed (ui_turn a) = sa_closed a" "sa_pending (ui_turn a) = sa_pending a"
proof -
  have "sa_sent (run_task t b) = sa_sent b \<and> sa_channels (run_task t b) = sa_channels b \<and>
        sa_closed (run_task t b) = sa_closed b \<and> sa_pending (run_task t b) = sa_pending b" for t b
    by (cases t) (simp_all add: clear_approval_def Let_def)
  then show "sa_sent (ui_turn a) = sa_sent a" "sa_channels (ui_turn a) = sa_channels a"
    "sa_closed (ui_turn a) = sa_closed a" "sa_pending (ui_turn a) = sa_pending a"
    by (simp_all add: ui_turn_def split: list.split)
qed

lemma slint_inv_decided:
  assumes "slint_inv a" and "sa_sent a' = decide_pending d a" and "sa_channels a' = sa_channels a"
    and "sa_closed a' = sa_closed a" and "sa_pending a' = None"
  shows "slint_inv a'"
  using assms by (auto simp: slint_inv_def decide_pending_def split: option.splits)

lemma slint_request_inv:
  assumes "slint_inv a" and "slint_request r e a = (t, a')"
  shows "slint_inv a'"
proof (cases "ue_loop_ok e")
  case True
  from slint_request_view(1,2) [OF assms] slint_request_view(3) [OF assms True] assms(1) show ?thesis
    by (auto simp: slint_inv_def decide_pending_def less_Suc_eq split: option.splits)
next
  case False
  from slint_request_view(1,2) [OF assms] slint_request_view(4) [OF assms False] assms(1) show ?thesis
    by (auto simp: slint_inv_def decide_pending_def less_Suc_eq split: option.splits)
qed

lemma cancel_pending_inv: "slint_inv a \<Longrightarrow> cancel_pending e a = (b, a') \<Longrightarrow> slint_inv a'"
  using slint_inv_decided [of a a' Reject] cancel_pending_view [of a e b a'] by simp

lemma on_tap_inv: "slint_inv a \<Longrightarrow> slint_inv (on_tap d a)"
  using slint_inv_decided [of a "on_tap d a" d] on_tap_view [of a d] by simp

lemma timeout_tick_inv: "slint_inv a \<Longrightarrow> slint_inv (timeout_tick e a)"
  using timeout_tick_view [of a e] slint_inv_decided [of a "timeout_tick e a" Timeout] by auto

lemma ui_turn_inv: "slint_inv a \<Longrightarrow> slint_inv (ui_turn a)"
  by (simp add: slint_inv_def ui_turn_view)

lemma decide_pending_final: "slint_inv a \<Longrightarrow> sa_sent a c = Some d \<Longrightarrow> decide_pending d' a c = Some d"
  by (auto simp: decide_pending_def slint_inv_def split: option.splits)

lemma decide_pending_only:
  "decide_pending d' a c = Some d \<Longrightarrow>
   sa_sent a c = Some d \<or> (d = d' \<and> (\<exists>p. sa_pending a = Some p \<and> pa_tx p = c))"
  by (auto simp: decide_pending_def split: option.splits if_splits)

lemma decide_pending_denied:
  "decide_pending d a c = Some Approve \<Longrightarrow> d \<noteq> Approve \<Longrightarrow> sa_sent a c = Some Approve"
  using decide_pending_only by blast

interpretation slint: approver slint_request cancel_pending sa_sent slint_inv
proof unfold_locales
  fix a a' :: slint_approver and r e c and t :: ticket
  assume i: "slint_inv a" and r: "slint_request r e a = (Waiting c, a')"
  have "ue_loop_ok e" using slint_request_view(4) [OF i r] by fastforce
  then have c: "c = sa_channels a" using slint_request_view(3) [OF i r] by simp
  then have "decide_pending Reject a c = None"
    using i by (auto simp: decide_pending_def slint_inv_def split: option.splits)
  with c slint_request_view(1) [OF i r] slint_inv_fresh [OF i]
  show "sa_sent a c = None \<and> sa_sent a' c = None" by simp
next
  fix a a' :: slint_approver and r e c d and t :: ticket
  assume i: "slint_inv a" and r: "slint_request r e a = (t, a')"
  show "sa_sent a c = Some d \<Longrightarrow> sa_sent a' c = Some d"
    using slint_request_view(1) [OF i r] decide_pending_final [OF i] by simp
next
  fix a a' :: slint_approver and r e c and t :: ticket
  assume i: "slint_inv a" and r: "slint_request r e a = (t, a')"
  show "sa_sent a' c = Some Approve \<Longrightarrow> sa_sent a c = Some Approve"
    using slint_request_view(1) [OF i r] decide_pending_only [of Reject a c Approve] by simp
next
  fix a a' :: slint_approver and e b c d
  assume i: "slint_inv a" and r: "cancel_pending e a = (b, a')"
  show "sa_sent a c = Some d \<Longrightarrow> sa_sent a' c = Some d"
    using cancel_pending_view(1) [OF i r] decide_pending_final [OF i] by simp
next
  fix a a' :: slint_approver and e b c
  assume i: "slint_inv a" and r: "cancel_pending e a = (b, a')"
  show "sa_sent a' c = Some Approve \<Longrightarrow> sa_sent a c = Some Approve"
    using cancel_pending_view(1) [OF i r] decide_pending_only [of Reject a c Approve] by simp
qed (rule slint_request_inv cancel_pending_inv, assumption+)+

end
