(* ===== verification/Message.thy ===== *)
theory Message
  imports Prelude
begin

text \<open>
  The request and response types of the wire protocol
  (\<open>logic/vaults-bridge-protocol/src/message.rs\<close>), with the fields the source gives them.
  The JSON text itself is made by code that \<open>serde\<close> derives; the transports take the
  reader as a parameter.
\<close>

section \<open>Requests\<close>

record charset_hint =
  ch_letters :: bool
  ch_digits :: bool
  ch_symbols :: bool

definition charset_hint_default :: charset_hint where
  "charset_hint_default = \<lparr>ch_letters = True, ch_digits = True, ch_symbols = True\<rparr>"

record release_params =
  rp_origin :: string
  rp_username_hint :: "string option"
  rp_request_nonce :: u64

record store_params =
  sp_origin :: string
  sp_username :: string
  sp_label :: "string option"
  sp_password_sealed :: string
  sp_request_nonce :: u64

record generate_params =
  gp_origin :: string
  gp_username :: string
  gp_label :: "string option"
  gp_length :: "u32 option"
  gp_charset :: "charset_hint option"
  gp_request_nonce :: u64

datatype wire_method =
    Ping
  | EstablishSession string      \<comment> \<open>\<open>host_pubkey\<close>, hex\<close>
  | ListOrigins
  | ListCredentials string       \<comment> \<open>\<open>origin\<close>\<close>
  | ReleaseCredential release_params
  | StoreCredential store_params
  | GeneratePassword generate_params
  | Cancel

record request =
  rq_id :: string
  rq_method :: wire_method

section \<open>Responses\<close>

datatype store_action = Saved | Updated | RestoredAndUpdated

record wire_summary =
  ws_username :: string
  ws_label :: string
  ws_last_used_at :: u64

datatype response_body =
    Pong bool
  | SessionEstablished string                   \<comment> \<open>\<open>device_pubkey\<close>, hex\<close>
  | OriginsListed "string list"
  | CredentialsListed "wire_summary list"
  | CredentialReleased string string            \<comment> \<open>\<open>username\<close>, \<open>password_sealed\<close>\<close>
  | CredentialStored store_action
  | PasswordGenerated string store_action       \<comment> \<open>\<open>password_sealed\<close>, \<open>action\<close>\<close>
  | Empty

datatype error_code =
    InvalidRequest | UnknownMethod | UnknownOrigin | UserRejected | TimedOut | NotUnlocked
  | SessionExpired | NonceReused | BadPolicy | MultipleMatches | Internal

fun error_code_i32 :: "error_code \<Rightarrow> int" where
  "error_code_i32 InvalidRequest = 1"
| "error_code_i32 UnknownMethod = 2"
| "error_code_i32 UnknownOrigin = 3"
| "error_code_i32 UserRejected = 4"
| "error_code_i32 TimedOut = 5"
| "error_code_i32 NotUnlocked = 6"
| "error_code_i32 SessionExpired = 7"
| "error_code_i32 NonceReused = 8"
| "error_code_i32 BadPolicy = 9"
| "error_code_i32 MultipleMatches = 10"
| "error_code_i32 Internal = 99"

lemma error_code_i32_inj: "error_code_i32 a = error_code_i32 b \<Longrightarrow> a = b"
  by (cases a; cases b) simp_all

datatype response =
    RespOk string response_body
  | RespErr string int string     \<comment> \<open>\<open>id\<close>, \<open>error.code\<close>, \<open>error.message\<close>\<close>

fun response_id :: "response \<Rightarrow> string" where
  "response_id (RespOk i _) = i"
| "response_id (RespErr i _ _) = i"

text \<open>An engine failure: the code and the fixed public message.\<close>

type_synonym engine_error = "error_code \<times> string"

end
