(* ===== verification/Externals.thy ===== *)
theory Externals
  imports Prelude
begin

text \<open>
  The third-party crates the program calls are not part of its source, so they are a
  parameter of the model: a record of functions, passed to every definition that uses
  them. Below the record stand the laws the code relies on, as named predicates over it
  (they are documented behaviour of the crates), and one sample instance that satisfies
  them all, used to show that each theorem with such a hypothesis has instances.

  \<^item> \<open>url\<close>: \<open>Url::parse\<close> and its accessors (\<open>scheme\<close>, \<open>username\<close>, \<open>password\<close>,
    \<open>host_str\<close>, \<open>port\<close>).
  \<^item> \<open>hex\<close>: \<open>encode\<close>, \<open>decode\<close>.
  \<^item> \<open>aes_gcm\<close>: \<open>encrypt\<close> and \<open>decrypt\<close> of \<open>Aes256Gcm\<close> (key, nonce, text); the tag
    is the last 16 bytes of the ciphertext.
  \<^item> \<open>hkdf\<close>: extract without salt and expand to 32 bytes (input key material, info).
  \<^item> \<open>hmac\<close>: HMAC-SHA256 (key, data); \<open>None\<close> where \<open>new_from_slice\<close> fails.
  \<^item> \<open>x25519_dalek\<close>: public key of a secret and the shared secret; a fresh
    \<open>EphemeralSecret\<close> is 32 bytes of the random tape.
  \<^item> \<open>uuid\<close>: \<open>Uuid::new_v4\<close> makes an identifier of 16 bytes of the random tape.
\<close>

type_synonym uuid = "128 word"

record url =
  u_scheme :: string
  u_username :: string
  u_password :: "string option"
  u_host_str :: "string option"
  u_port :: "u16 option"

record libs =
  url_parse :: "string \<Rightarrow> string + url"
  hex_encode :: "bytes \<Rightarrow> string"
  hex_decode :: "string \<Rightarrow> bytes option"
  aes_gcm_encrypt :: "bytes \<Rightarrow> bytes \<Rightarrow> bytes \<Rightarrow> bytes option"
  aes_gcm_decrypt :: "bytes \<Rightarrow> bytes \<Rightarrow> bytes \<Rightarrow> bytes option"
  hkdf_expand32 :: "bytes \<Rightarrow> bytes \<Rightarrow> bytes"
  hmac_mac :: "bytes \<Rightarrow> bytes \<Rightarrow> bytes option"
  x25519_public :: "bytes \<Rightarrow> bytes"
  x25519_shared :: "bytes \<Rightarrow> bytes \<Rightarrow> bytes"
  uuid_from_random :: "bytes \<Rightarrow> uuid"

section \<open>Documented laws\<close>

text \<open>Decryption inverts encryption and the tag adds 16 bytes.\<close>

definition aead_ok :: "'z libs_scheme \<Rightarrow> bool" where
  "aead_ok L \<longleftrightarrow>
     (\<forall>k n p c. length k = 32 \<longrightarrow> length n = 12 \<longrightarrow> aes_gcm_encrypt L k n p = Some c \<longrightarrow>
        aes_gcm_decrypt L k n c = Some p \<and> length c = length p + 16)"

text \<open>Encryption of a text within the (very large) AES-GCM limit succeeds.\<close>

definition aead_total :: "'z libs_scheme \<Rightarrow> bool" where
  "aead_total L \<longleftrightarrow>
     (\<forall>k n p. length k = 32 \<longrightarrow> length n = 12 \<longrightarrow> length p < 2 ^ 32 \<longrightarrow>
        aes_gcm_encrypt L k n p \<noteq> None)"

definition hex_ok :: "'z libs_scheme \<Rightarrow> bool" where
  "hex_ok L \<longleftrightarrow> (\<forall>bs. hex_decode L (hex_encode L bs) = Some bs)"

definition hkdf_ok :: "'z libs_scheme \<Rightarrow> bool" where
  "hkdf_ok L \<longleftrightarrow> (\<forall>ikm info. length (hkdf_expand32 L ikm info) = 32)"

definition dh_ok :: "'z libs_scheme \<Rightarrow> bool" where
  "dh_ok L \<longleftrightarrow>
     (\<forall>a. length (x25519_public L a) = 32) \<and>
     (\<forall>a b. x25519_shared L a (x25519_public L b) = x25519_shared L b (x25519_public L a))"

text \<open>HMAC accepts a key of any length and yields 32 bytes.\<close>

definition hmac_ok :: "'z libs_scheme \<Rightarrow> bool" where
  "hmac_ok L \<longleftrightarrow> (\<forall>k d. \<exists>m. hmac_mac L k d = Some m \<and> length m = 32)"

text \<open>
  The accessors of a parsed URL with an \<open>http\<close> or \<open>https\<close> scheme: reading the
  serialisation of scheme, host and port back gives the same three and no user info,
  hosts are already lower case, and a colon occurs only in a bracketed IPv6 host.
\<close>

definition port_suffix :: "u16 option \<Rightarrow> string" where
  "port_suffix p = (case p of None \<Rightarrow> [] | Some n \<Rightarrow> CHR '':'' # show_nat (unat n))"

definition url_ok :: "'z libs_scheme \<Rightarrow> bool" where
  "url_ok L \<longleftrightarrow>
     (\<forall>s u h. url_parse L s = Inr u \<longrightarrow> u_scheme u \<in> {''http'', ''https''} \<longrightarrow>
        u_host_str u = Some h \<longrightarrow>
        (CHR '':'' \<in> set h \<longrightarrow> h \<noteq> [] \<and> last h = CHR '']'') \<and>
        url_parse L (u_scheme u @ ''://'' @ to_ascii_lowercase h @ port_suffix (u_port u)) =
          Inr (u\<lparr>u_username := [], u_password := None, u_host_str := Some (to_ascii_lowercase h)\<rparr>))"

lemma aead_okD:
  "aead_ok L \<Longrightarrow> length k = 32 \<Longrightarrow> length n = 12 \<Longrightarrow> aes_gcm_encrypt L k n p = Some c \<Longrightarrow>
   aes_gcm_decrypt L k n c = Some p \<and> length c = length p + 16"
  unfolding aead_ok_def by blast

lemma hex_okD [simp]: "hex_ok L \<Longrightarrow> hex_decode L (hex_encode L bs) = Some bs"
  by (simp add: hex_ok_def)

lemma hkdf_okD [simp]: "hkdf_ok L \<Longrightarrow> length (hkdf_expand32 L ikm info) = 32"
  by (simp add: hkdf_ok_def)

section \<open>A sample instance\<close>

text \<open>
  Simple functions that satisfy the laws: a cipher that appends a tag made of the first
  key byte, a byte-for-byte text encoding, and a URL reader for \<open>https://host/path\<close>.
\<close>

definition pad32 :: "bytes \<Rightarrow> bytes" where
  "pad32 bs = take 32 (bs @ replicate 32 0)"

lemma length_pad32 [simp]: "length (pad32 bs) = 32"
  by (simp add: pad32_def)

definition sample_encrypt :: "bytes \<Rightarrow> bytes \<Rightarrow> bytes \<Rightarrow> bytes option" where
  "sample_encrypt k n p = Some (p @ replicate 16 (hd k))"

definition sample_decrypt :: "bytes \<Rightarrow> bytes \<Rightarrow> bytes \<Rightarrow> bytes option" where
  "sample_decrypt k n c =
     (if 16 \<le> length c \<and> drop (length c - 16) c = replicate 16 (hd k)
      then Some (take (length c - 16) c) else None)"

definition sample_host :: "string \<Rightarrow> string" where
  "sample_host r = to_ascii_lowercase (filter (\<lambda>c. c \<noteq> CHR '':'') (takeWhile (\<lambda>c. c \<noteq> CHR ''/'') r))"

definition sample_url :: "string \<Rightarrow> string + url" where
  "sample_url s =
     (case strip_prefix ''https://'' s of
        None \<Rightarrow> Inl ''relative URL without a base''
      | Some r \<Rightarrow>
          Inr \<lparr>u_scheme = ''https'', u_username = [], u_password = None,
               u_host_str = Some (sample_host r), u_port = None\<rparr>)"

definition sample_libs :: libs where
  "sample_libs =
     \<lparr>url_parse = sample_url,
      hex_encode = of_bytes,
      hex_decode = (\<lambda>s. Some (as_bytes s)),
      aes_gcm_encrypt = sample_encrypt,
      aes_gcm_decrypt = sample_decrypt,
      hkdf_expand32 = (\<lambda>ikm info. pad32 ikm),
      hmac_mac = (\<lambda>k d. Some (pad32 (k @ d))),
      x25519_public = pad32,
      x25519_shared = (\<lambda>a b. map2 (+) (pad32 a) (pad32 b)),
      uuid_from_random = (\<lambda>bs. word_of_int (horner_sum uint 256 bs))\<rparr>"

lemma sample_aead: "aead_ok sample_libs" "aead_total sample_libs"
  by (auto simp: aead_ok_def aead_total_def sample_libs_def sample_encrypt_def sample_decrypt_def)

lemma sample_hex: "hex_ok sample_libs"
  by (simp add: hex_ok_def sample_libs_def)

lemma sample_hkdf: "hkdf_ok sample_libs"
  by (simp add: hkdf_ok_def sample_libs_def)

lemma sample_hmac: "hmac_ok sample_libs"
  by (simp add: hmac_ok_def sample_libs_def)

lemma map2_plus_commute: "map2 (+) (xs :: byte list) ys = map2 (+) ys xs"
proof (induction xs arbitrary: ys)
  case (Cons x xs)
  then show ?case by (cases ys) (auto simp: add.commute)
qed simp

lemma pad32_idem [simp]: "pad32 (pad32 bs) = pad32 bs"
  by (simp add: pad32_def)

lemma sample_dh: "dh_ok sample_libs"
proof -
  have "map2 (+) (pad32 a) (pad32 b) = map2 (+) (pad32 b) (pad32 a)" for a b
    by (rule map2_plus_commute)
  then show ?thesis by (simp add: dh_ok_def sample_libs_def)
qed

lemma of_char_ascii_lower:
  "(of_char (ascii_lower_char c) :: nat) =
     (if 65 \<le> (of_char c :: nat) \<and> (of_char c :: nat) \<le> 90 then of_char c + 32 else of_char c)"
  by (simp add: ascii_lower_char_def less_eq_char_def of_char_of)

lemma char_eq_nat: "c = d \<longleftrightarrow> (of_char c :: nat) = of_char d"
  by simp

lemma ascii_lower_char_idem: "ascii_lower_char (ascii_lower_char c) = ascii_lower_char c"
  unfolding char_eq_nat of_char_ascii_lower by auto

lemma to_ascii_lowercase_idem [simp]:
  "to_ascii_lowercase (to_ascii_lowercase s) = to_ascii_lowercase s"
  by (simp add: to_ascii_lowercase_def ascii_lower_char_idem)

lemma ascii_lower_char_eq:
  "(of_char d :: nat) < 65 \<Longrightarrow> ascii_lower_char c = d \<longleftrightarrow> c = d"
  unfolding char_eq_nat of_char_ascii_lower by auto

lemma in_to_ascii_lowercase:
  "(of_char d :: nat) < 65 \<Longrightarrow> d \<in> set (to_ascii_lowercase s) \<longleftrightarrow> d \<in> set s"
proof (induction s)
  case (Cons c s)
  from ascii_lower_char_eq [OF Cons.prems, of c] Cons.IH [OF Cons.prems] show ?case
    by (auto simp: to_ascii_lowercase_def)
qed (simp add: to_ascii_lowercase_def)

lemma sample_host_chars:
  "CHR '':'' \<notin> set (sample_host r)" "CHR ''/'' \<notin> set (sample_host r)"
  by (simp_all add: sample_host_def in_to_ascii_lowercase) (blast dest: set_takeWhileD)

lemma sample_host_fixed:
  assumes "CHR '':'' \<notin> set h" and "CHR ''/'' \<notin> set h"
  shows "sample_host h = to_ascii_lowercase h"
proof -
  have "takeWhile (\<lambda>c. c \<noteq> CHR ''/'') h = h"
    using assms(2) by (subst takeWhile_eq_all_conv) blast
  moreover have "filter (\<lambda>c. c \<noteq> CHR '':'') h = h"
    using assms(1) by (subst filter_id_conv) blast
  ultimately show ?thesis by (simp only: sample_host_def)
qed

lemma sample_host_lower: "to_ascii_lowercase (sample_host r) = sample_host r"
  by (simp add: sample_host_def)

lemma sample_url_https: "sample_url (''https://'' @ r) =
  Inr \<lparr>u_scheme = ''https'', u_username = [], u_password = None,
       u_host_str = Some (sample_host r), u_port = None\<rparr>"
proof -
  have "strip_prefix ''https://'' (''https://'' @ r) = Some r"
    by (simp only: strip_prefix_Some)
  then show ?thesis by (simp only: sample_url_def option.case)
qed

lemma sample_url_Inr:
  "sample_url s = Inr u \<Longrightarrow> \<exists>r. s = ''https://'' @ r \<and>
     u = \<lparr>u_scheme = ''https'', u_username = [], u_password = None,
          u_host_str = Some (sample_host r), u_port = None\<rparr>"
  by (auto simp only: sample_url_def strip_prefix_Some sum.inject split: option.splits)

lemma sample_url_ok: "url_ok sample_libs"
proof -
  have "(CHR '':'' \<in> set h \<longrightarrow> h \<noteq> [] \<and> last h = CHR '']'') \<and>
        sample_url (u_scheme u @ ''://'' @ to_ascii_lowercase h @ port_suffix (u_port u)) =
          Inr (u\<lparr>u_username := [], u_password := None, u_host_str := Some (to_ascii_lowercase h)\<rparr>)"
    if s: "sample_url s = Inr u" and h: "u_host_str u = Some h" for s u h
  proof -
    from sample_url_Inr [OF s] h obtain r where
      u: "u = \<lparr>u_scheme = ''https'', u_username = [], u_password = None,
          u_host_str = Some (sample_host r), u_port = None\<rparr>" and hr: "h = sample_host r" by auto
    have low: "to_ascii_lowercase h = h" by (simp add: hr sample_host_lower)
    have "sample_url (''https://'' @ h) =
            Inr \<lparr>u_scheme = ''https'', u_username = [], u_password = None,
                 u_host_str = Some h, u_port = None\<rparr>"
      unfolding hr sample_url_https
      by (simp only: sample_host_fixed [OF sample_host_chars] sample_host_lower)
    then show ?thesis using sample_host_chars(1) [of r] low
      by (simp add: u hr port_suffix_def sample_host_lower)
  qed
  then show ?thesis by (simp add: url_ok_def sample_libs_def)
qed

lemmas sample_laws =
  sample_aead sample_hex sample_hkdf sample_hmac sample_dh sample_url_ok

end
