(* ===== verification/Origin.thy ===== *)
theory Origin
  imports Externals
begin

text \<open>
  Strict origins (\<open>logic/vaults-bridge-core/src/origin.rs\<close>): \<open>Origin::parse\<close>, the
  registrable domain of a host with its table of multi-label public suffixes, and
  \<open>origin_match_key\<close>. The URL parser is the parameter \<open>url_parse\<close>. The address parser
  of the standard library (\<open>host.parse::<IpAddr>()\<close>) is modelled as it is written there.
\<close>

section \<open>IP address literals (standard library)\<close>

text \<open>
  \<open>read_number radix max_digits allow_zero_prefix\<close>: digits are consumed while there are
  any; too many digits, no digit, a value above the type's maximum or a leading zero
  (where it is not allowed) fail.
\<close>

definition digit_value :: "nat \<Rightarrow> char \<Rightarrow> nat option" where
  "digit_value radix c =
     (let n = of_char c :: nat;
          d = (if 48 \<le> n \<and> n \<le> 57 then n - 48
               else if 65 \<le> n \<and> n \<le> 70 then n - 55
               else if 97 \<le> n \<and> n \<le> 102 then n - 87
               else radix)
      in if d < radix then Some d else None)"

fun read_digits :: "nat \<Rightarrow> nat \<Rightarrow> nat \<Rightarrow> nat \<Rightarrow> nat \<Rightarrow> string \<Rightarrow> (nat \<times> nat \<times> string) option" where
  "read_digits radix maxd maxv count acc [] = Some (count, acc, [])"
| "read_digits radix maxd maxv count acc (c # cs) =
     (case digit_value radix c of
        None \<Rightarrow> Some (count, acc, c # cs)
      | Some d \<Rightarrow>
          (if maxv < acc * radix + d then None
           else if maxd < Suc count then None
           else read_digits radix maxd maxv (Suc count) (acc * radix + d) cs))"

definition read_number :: "nat \<Rightarrow> nat \<Rightarrow> nat \<Rightarrow> bool \<Rightarrow> string \<Rightarrow> (nat \<times> string) option" where
  "read_number radix maxd maxv zero_prefix s =
     (case read_digits radix maxd maxv 0 0 s of
        None \<Rightarrow> None
      | Some (count, v, r) \<Rightarrow>
          (if count = 0 then None
           else if \<not> zero_prefix \<and> take 1 s = ''0'' \<and> 1 < count then None
           else Some (v, r)))"

definition read_given_char :: "char \<Rightarrow> string \<Rightarrow> string option" where
  "read_given_char c s = (case s of [] \<Rightarrow> None | x # xs \<Rightarrow> if x = c then Some xs else None)"

text \<open>\<open>read_separator sep i\<close>: from the second element on, a separator comes first.\<close>

definition read_separator :: "char \<Rightarrow> nat \<Rightarrow> (string \<Rightarrow> string option) \<Rightarrow> string \<Rightarrow> string option" where
  "read_separator sep i p s =
     (if i = 0 then p s else case read_given_char sep s of None \<Rightarrow> None | Some r \<Rightarrow> p r)"

definition read_octet :: "string \<Rightarrow> string option" where
  "read_octet s = map_option snd (read_number 10 3 255 False s)"

definition read_ipv4_addr :: "string \<Rightarrow> string option" where
  "read_ipv4_addr s =
     Option.bind (read_octet s) (\<lambda>s1.
     Option.bind (read_separator CHR ''.'' 1 read_octet s1) (\<lambda>s2.
     Option.bind (read_separator CHR ''.'' 2 read_octet s2) (\<lambda>s3.
     read_separator CHR ''.'' 3 read_octet s3)))"

definition read_hextet :: "string \<Rightarrow> string option" where
  "read_hextet s = map_option snd (read_number 16 4 65535 True s)"

text \<open>\<open>read_groups\<close>: groups read so far, whether an embedded IPv4 address was read, rest.\<close>

function read_groups :: "nat \<Rightarrow> nat \<Rightarrow> string \<Rightarrow> nat \<times> bool \<times> string" where
  "read_groups limit i s =
     (if limit \<le> i then (limit, False, s)
      else case (if i + 1 < limit then read_separator CHR '':'' i read_ipv4_addr s else None) of
             Some r \<Rightarrow> (i + 2, True, r)
           | None \<Rightarrow>
               (case read_separator CHR '':'' i read_hextet s of
                  Some r \<Rightarrow> read_groups limit (Suc i) r
                | None \<Rightarrow> (i, False, s)))"
  by pat_completeness auto
termination by (relation "measure (\<lambda>(limit, i, s). limit - i)") auto

declare read_groups.simps [simp del]

definition read_ipv6_addr :: "string \<Rightarrow> string option" where
  "read_ipv6_addr s =
     (case read_groups 8 0 s of (head_size, head_ipv4, s1) \<Rightarrow>
        if head_size = 8 then Some s1
        else if head_ipv4 then None
        else Option.bind (read_given_char CHR '':'' s1) (\<lambda>s2.
             Option.bind (read_given_char CHR '':'' s2) (\<lambda>s3.
               case read_groups (8 - (head_size + 1)) 0 s3 of (_, _, s4) \<Rightarrow> Some s4)))"

definition is_ip_addr :: "string \<Rightarrow> bool" where
  "is_ip_addr s =
     (case (case read_ipv4_addr s of Some r \<Rightarrow> Some r | None \<Rightarrow> read_ipv6_addr s) of
        Some r \<Rightarrow> r = [] | None \<Rightarrow> False)"

section \<open>Origin::parse\<close>

datatype origin_error =
    InvalidUrl string
  | UnsupportedScheme string
  | MissingHost
  | UserInfoNotAllowed

text \<open>An \<open>Origin\<close> is a newtype over the canonical string; \<open>as_str\<close> reads it.\<close>

datatype origin = Origin (as_str: string)

definition origin_parse :: "'z libs_scheme \<Rightarrow> string \<Rightarrow> origin_error + origin" where
  "origin_parse L input =
     (case url_parse L input of
        Inl e \<Rightarrow> Inl (InvalidUrl e)
      | Inr url \<Rightarrow>
          (let scheme = u_scheme url in
           if scheme \<noteq> ''http'' \<and> scheme \<noteq> ''https'' then Inl (UnsupportedScheme scheme)
           else if u_username url \<noteq> [] \<or> u_password url \<noteq> None then Inl UserInfoNotAllowed
           else case u_host_str url of
                  None \<Rightarrow> Inl MissingHost
                | Some host \<Rightarrow>
                    Inr (Origin (scheme @ ''://'' @ to_ascii_lowercase host @
                                 (case u_port url of
                                    None \<Rightarrow> []
                                  | Some port \<Rightarrow> '':'' @ show_nat (unat port))))))"

section \<open>Registrable domains\<close>

definition MULTI_LABEL_SUFFIXES :: "string list" where
  "MULTI_LABEL_SUFFIXES =
    [''co.uk'', ''org.uk'', ''net.uk'', ''ac.uk'', ''gov.uk'', ''me.uk'', ''ltd.uk'',
    ''plc.uk'', ''nhs.uk'', ''sch.uk'', ''com.au'', ''net.au'', ''org.au'', ''edu.au'',
    ''gov.au'', ''id.au'', ''asn.au'', ''co.nz'', ''net.nz'', ''org.nz'', ''govt.nz'',
    ''ac.nz'', ''co.jp'', ''ne.jp'', ''or.jp'', ''ac.jp'', ''ad.jp'', ''go.jp'',
    ''lg.jp'', ''co.kr'', ''ne.kr'', ''or.kr'', ''go.kr'', ''ac.kr'', ''com.cn'',
    ''net.cn'', ''org.cn'', ''gov.cn'', ''edu.cn'', ''com.hk'', ''net.hk'', ''org.hk'',
    ''edu.hk'', ''gov.hk'', ''com.tw'', ''com.sg'', ''com.ph'', ''com.my'', ''com.vn'',
    ''co.th'', ''co.id'', ''co.in'', ''net.in'', ''org.in'', ''ac.in'', ''gov.in'',
    ''com.br'', ''net.br'', ''org.br'', ''gov.br'', ''edu.br'', ''com.mx'', ''co.za'',
    ''co.il'', ''com.tr'', ''com.ar'', ''com.eg'', ''com.sa'', ''github.io'',
    ''gitlab.io'', ''pages.dev'', ''vercel.app'', ''netlify.app'']"

text \<open>
  The \<open>for\<close> over the suffixes: \<open>Some r\<close> is an early \<open>return r\<close>, \<open>None\<close> means that no
  suffix decided. The slice \<open>&host[start..]\<close> is the text from the last label on.
\<close>

fun suffix_loop :: "string list \<Rightarrow> string \<Rightarrow> string option option" where
  "suffix_loop [] host = None"
| "suffix_loop (suffix # rest) host =
     (case strip_suffix suffix host of
        None \<Rightarrow> suffix_loop rest host
      | Some pre \<Rightarrow>
          (if pre = [] then Some None
           else case strip_suffix ''.'' pre of
                  None \<Rightarrow> suffix_loop rest host
                | Some r \<Rightarrow>
                    (let last = rsplit_last CHR ''.'' r in
                     if last \<noteq> []
                     then Some (Some (drop (length host - length last - 1 - length suffix) host))
                     else suffix_loop rest host)))"

text \<open>\<open>rsplitn(3, '.')\<close>: the last label, the one before it, the remaining text.\<close>

definition rsplitn3 :: "string \<Rightarrow> string list" where
  "rsplitn3 s =
     (case rsplit_once CHR ''.'' s of
        None \<Rightarrow> [s]
      | Some (a, b) \<Rightarrow>
          b # (case rsplit_once CHR ''.'' a of None \<Rightarrow> [a] | Some (c, d) \<Rightarrow> [d, c]))"

definition registrable_domain :: "string \<Rightarrow> string option" where
  "registrable_domain host =
     (if host = [] \<or> starts_with ''['' host \<or> is_ip_addr host then None
      else case suffix_loop MULTI_LABEL_SUFFIXES host of
             Some r \<Rightarrow> r
           | None \<Rightarrow>
               (case rsplitn3 host of
                  tld # sld # _ \<Rightarrow>
                    (if tld = [] \<or> sld = [] then None
                     else Some (drop (length host - length tld - 1 - length sld) host))
                | _ \<Rightarrow> None))"

definition origin_match_key :: "'z libs_scheme \<Rightarrow> string \<Rightarrow> string" where
  "origin_match_key L canonical =
     (case url_parse L canonical of
        Inl _ \<Rightarrow> canonical
      | Inr url \<Rightarrow>
          (case registrable_domain (case u_host_str url of None \<Rightarrow> [] | Some h \<Rightarrow> h) of
             Some rd \<Rightarrow> u_scheme url @ ''://'' @ rd
           | None \<Rightarrow> canonical))"

section \<open>Facts about Origin::parse\<close>

lemma origin_parse_Inr:
  "origin_parse L s = Inr ori \<Longrightarrow>
   \<exists>u h. url_parse L s = Inr u \<and> u_scheme u \<in> {''http'', ''https''} \<and> u_username u = [] \<and>
         u_password u = None \<and> u_host_str u = Some h \<and>
         as_str ori = u_scheme u @ ''://'' @ to_ascii_lowercase h @ port_suffix (u_port u)"
  by (auto simp: origin_parse_def Let_def port_suffix_def split: sum.splits if_splits option.splits)

lemma origin_parse_intro:
  "url_parse L s = Inr u \<Longrightarrow> u_scheme u \<in> {''http'', ''https''} \<Longrightarrow> u_username u = [] \<Longrightarrow>
   u_password u = None \<Longrightarrow> u_host_str u = Some h \<Longrightarrow>
   origin_parse L s = Inr (Origin (u_scheme u @ ''://'' @ to_ascii_lowercase h @ port_suffix (u_port u)))"
  by (auto simp: origin_parse_def Let_def port_suffix_def split: option.splits)

text \<open>The canonical form is a fixed point: parsing it again yields the same origin.\<close>

lemma origin_parse_fixed:
  assumes "url_ok L" and "origin_parse L s = Inr ori"
  shows "origin_parse L (as_str ori) = Inr ori"
proof -
  from origin_parse_Inr [OF assms(2)] obtain u h where u: "url_parse L s = Inr u"
    "u_scheme u \<in> {''http'', ''https''}" "u_username u = []" "u_password u = None" "u_host_str u = Some h"
    and o: "as_str ori = u_scheme u @ ''://'' @ to_ascii_lowercase h @ port_suffix (u_port u)" by blast
  let ?u = "u\<lparr>u_username := [], u_password := None, u_host_str := Some (to_ascii_lowercase h)\<rparr>"
  have p: "url_parse L (as_str ori) = Inr ?u"
    unfolding o using assms(1) u(1,2,5) unfolding url_ok_def by blast
  have "origin_parse L (as_str ori) =
      Inr (Origin (u_scheme u @ ''://'' @ to_ascii_lowercase h @ port_suffix (u_port u)))"
    using origin_parse_intro [OF p, of "to_ascii_lowercase h"] u(2) by simp
  then show ?thesis by (simp only: o [symmetric] origin.collapse)
qed

section \<open>Canonical strings determine scheme, host and port\<close>

lemma show_nat_digits: "c \<in> set (show_nat n) \<Longrightarrow> 48 \<le> (of_char c :: nat) \<and> (of_char c :: nat) \<le> 57"
proof (induction n rule: show_nat.induct)
  case (1 n)
  show ?case
  proof (cases "n < 10")
    case True
    with "1.prems" show ?thesis by (auto simp: show_nat.simps [of n])
  next
    case False
    have "n mod 10 < 10" by simp
    then have "(48 + n mod 10) mod 256 = 48 + n mod 10" by (intro mod_less) linarith
    with False "1" show ?thesis by (auto simp: show_nat.simps [of n])
  qed
qed

lemma show_nat_nonempty [simp]: "show_nat n \<noteq> []"
  by (subst show_nat.simps) simp

lemma digit_char_inj: "m < 10 \<Longrightarrow> n < 10 \<Longrightarrow> char_of (48 + m :: nat) = char_of (48 + n :: nat) \<Longrightarrow> m = n"
proof -
  assume h: "m < 10" "n < 10" "char_of (48 + m :: nat) = char_of (48 + n :: nat)"
  then have "(of_char (char_of (48 + m :: nat)) :: nat) = of_char (char_of (48 + n :: nat))" by simp
  with h show "m = n" by simp
qed

lemma show_nat_inj: "show_nat m = show_nat n \<Longrightarrow> m = n"
proof (induction m arbitrary: n rule: less_induct)
  case (less m)
  have big: "\<not> k < 10 \<Longrightarrow> show_nat k = show_nat (k div 10) @ [char_of (48 + k mod 10 :: nat)]" for k
    by (simp add: show_nat.simps [of k])
  have small: "k < 10 \<Longrightarrow> show_nat k = [char_of (48 + k)]" for k
    by (simp add: show_nat.simps [of k])
  consider "m < 10" "n < 10" | "m < 10" "\<not> n < 10" | "\<not> m < 10" "n < 10" | "\<not> m < 10" "\<not> n < 10"
    by blast
  then show ?case
  proof cases
    case 1
    with less.prems show ?thesis by (simp add: small digit_char_inj)
  next
    case 4
    have "show_nat (m div 10) @ [char_of (48 + m mod 10 :: nat)] =
          show_nat (n div 10) @ [char_of (48 + n mod 10 :: nat)]"
      using less.prems by (simp only: big [OF 4(1), symmetric] big [OF 4(2), symmetric])
    then have "show_nat (m div 10) = show_nat (n div 10)"
      and "char_of (48 + m mod 10 :: nat) = char_of (48 + n mod 10 :: nat)"
      by (simp_all only: append1_eq_conv)
    moreover have "m div 10 < m" using 4 by simp
    ultimately have "m div 10 = n div 10" and "m mod 10 = n mod 10"
      using less.IH by (auto intro: digit_char_inj)
    then show ?thesis by (metis div_mult_mod_eq)
  next
    case 2
    with less.prems have "[char_of (48 + m)] = show_nat (n div 10) @ [char_of (48 + n mod 10 :: nat)]"
      using big small by simp
    then show ?thesis using show_nat_nonempty [of "n div 10"] by simp
  next
    case 3
    with less.prems have "show_nat (m div 10) @ [char_of (48 + m mod 10 :: nat)] = [char_of (48 + n)]"
      using big small by simp
    then show ?thesis using show_nat_nonempty [of "m div 10"] by simp
  qed
qed

lemma last_sep_unique:
  "c \<notin> set b \<Longrightarrow> c \<notin> set b' \<Longrightarrow> a @ c # b = a' @ c # b' \<Longrightarrow> a = a' \<and> b = b'"
proof (induction a arbitrary: a')
  case Nil
  then show ?case by (cases a') auto
next
  case (Cons x a)
  then show ?case by (cases a') (auto simp: Cons_eq_append_conv)
qed

definition host_form :: "string \<Rightarrow> bool" where
  "host_form h \<longleftrightarrow> (CHR '':'' \<in> set h \<longrightarrow> h \<noteq> [] \<and> last h = CHR '']'')"

lemma colon_not_digit: "CHR '':'' \<notin> set (show_nat n)" "CHR '']'' \<notin> set (show_nat n)"
  using show_nat_digits by fastforce+

lemma host_port_inj:
  assumes "host_form h1" and "host_form h2"
    and "h1 @ port_suffix p1 = h2 @ port_suffix p2"
  shows "h1 = h2 \<and> p1 = p2"
proof -
  have some_vs_none: False
    if "host_form h" and "h @ [] = h' @ CHR '':'' # show_nat n" for h h' n
  proof -
    from that(2) have "CHR '':'' \<in> set h" and "last h = last (show_nat n)" by auto
    with that(1) have "CHR '']'' = last (show_nat n)" by (simp add: host_form_def)
    then show False using colon_not_digit(2) [of n] last_in_set [OF show_nat_nonempty] by metis
  qed
  show ?thesis
  proof (cases p1; cases p2)
    fix a b assume p: "p1 = Some a" "p2 = Some b"
    then have "h1 = h2 \<and> show_nat (unat a) = show_nat (unat b)"
      using assms(3) by (intro last_sep_unique [of "CHR '':''"]) (simp_all add: port_suffix_def colon_not_digit)
    then show ?thesis using p show_nat_inj by (auto dest: show_nat_inj simp: unsigned_word_eqI)
  qed (use assms some_vs_none in \<open>auto simp: port_suffix_def\<close>)
qed

lemma canonical_text_inj:
  assumes "s1 \<in> {''http'', ''https''}" and "s2 \<in> {''http'', ''https''}"
    and "host_form h1" and "host_form h2"
    and "s1 @ ''://'' @ h1 @ port_suffix p1 = s2 @ ''://'' @ h2 @ port_suffix p2"
  shows "s1 = s2 \<and> h1 = h2 \<and> p1 = p2"
  using assms host_port_inj [of h1 h2 p1 p2] by auto

lemma host_form_lower: "host_form h \<Longrightarrow> host_form (to_ascii_lowercase h)"
proof -
  assume h: "host_form h"
  show ?thesis
  proof (cases "CHR '':'' \<in> set h")
    case True
    with h have "h \<noteq> []" "last h = CHR '']''" by (auto simp: host_form_def)
    then show ?thesis
      by (simp add: host_form_def to_ascii_lowercase_def last_map ascii_lower_char_def less_eq_char_def)
  next
    case False
    then show ?thesis by (simp add: host_form_def in_to_ascii_lowercase)
  qed
qed

section \<open>Facts about registrable domains\<close>

lemma rsplit_last_decomp: "\<exists>p. s = p @ rsplit_last c s \<and> (p = [] \<or> last p = c)"
proof (cases "c \<in> set s")
  case True
  from rsplit_last_split [OF this] obtain a where "s = a @ c # rsplit_last c s" by blast
  then have "s = (a @ [c]) @ rsplit_last c s \<and> last (a @ [c]) = c" by simp
  then show ?thesis by blast
next
  case False
  then have "takeWhile (\<lambda>x. x \<noteq> c) (rev s) = rev s" by (subst takeWhile_eq_all_conv) auto
  then have "rsplit_last c s = s" by (simp only: rsplit_last_def rev_rev_ident)
  then show ?thesis by auto
qed

text \<open>\<open>at_label d host\<close>: \<open>d\<close> is the host from the start of one of its labels on.\<close>

definition at_label :: "string \<Rightarrow> string \<Rightarrow> bool" where
  "at_label d host \<longleftrightarrow> (\<exists>p. host = p @ d \<and> (p = [] \<or> last p = CHR ''.''))"

lemma suffix_loop_found:
  "suffix_loop S host = Some (Some d) \<Longrightarrow>
   \<exists>suffix \<in> set S. \<exists>l. l \<noteq> [] \<and> CHR ''.'' \<notin> set l \<and> d = l @ ''.'' @ suffix \<and> at_label d host"
proof (induction S)
  case Nil
  then show ?case by simp
next
  case (Cons suf S)
  show ?case
  proof (cases "\<exists>r. strip_suffix suf host = Some (r @ ''.'') \<and> rsplit_last CHR ''.'' r \<noteq> []")
    case True
    then obtain r where r: "host = r @ ''.'' @ suf" and l: "rsplit_last CHR ''.'' r \<noteq> []"
      and s: "strip_suffix suf host = Some (r @ ''.'')" by (auto simp: strip_suffix_Some)
    let ?l = "rsplit_last CHR ''.'' r"
    obtain p where p: "r = p @ ?l" "p = [] \<or> last p = CHR ''.''" using rsplit_last_decomp by blast
    have host: "host = p @ (?l @ ''.'' @ suf)" using r p(1) by (metis append.assoc)
    have dot: "strip_suffix ''.'' (r @ ''.'') = Some r" by (simp add: strip_suffix_Some)
    have "d = drop (length host - length ?l - 1 - length suf) host"
      using Cons.prems s l dot by (simp add: Let_def)
    also have "length host - length ?l - 1 - length suf = length p"
      by (subst host) simp
    also have "drop (length p) host = ?l @ ''.'' @ suf" by (subst host) simp
    finally have d: "d = ?l @ ''.'' @ suf" .
    then show ?thesis using host p(2) l rsplit_last_no_sep by (fastforce simp: at_label_def)
  next
    case False
    then have "suffix_loop S host = Some (Some d)"
      using Cons.prems by (auto simp: Let_def strip_suffix_Some split: option.splits if_splits)
    with Cons.IH show ?thesis by auto
  qed
qed

lemma suffix_loop_none:
  "suffix_loop S host = None \<Longrightarrow> suffix \<in> set S \<Longrightarrow>
   host \<noteq> suffix \<and> (\<forall>r. host = r @ ''.'' @ suffix \<longrightarrow> rsplit_last CHR ''.'' r = [])"
proof (induction S)
  case Nil
  then show ?case by simp
next
  case (Cons suf S)
  have rest: "suffix_loop S host = None"
    using Cons.prems(1) by (auto simp: Let_def split: option.splits if_splits)
  show ?case
  proof (cases "suffix = suf")
    case True
    have "host \<noteq> suf"
    proof
      assume "host = suf"
      then have "strip_suffix suf host = Some []" by (simp add: strip_suffix_Some)
      with Cons.prems(1) show False by simp
    qed
    moreover have "rsplit_last CHR ''.'' r = []" if "host = r @ ''.'' @ suf" for r
    proof -
      have "strip_suffix suf host = Some (r @ ''.'')" using that by (simp add: strip_suffix_Some)
      moreover have "strip_suffix ''.'' (r @ ''.'') = Some r" by (simp add: strip_suffix_Some)
      ultimately show ?thesis using Cons.prems(1) by (auto simp: Let_def split: if_splits)
    qed
    ultimately show ?thesis using True by blast
  next
    case False
    with Cons.prems(2) Cons.IH [OF rest] show ?thesis by simp
  qed
qed

text \<open>What the last two labels give when no suffix decided.\<close>

lemma rsplitn3_two:
  "rsplitn3 host = tld # sld # r \<Longrightarrow>
   CHR ''.'' \<notin> set tld \<and> CHR ''.'' \<notin> set sld \<and> at_label (sld @ ''.'' @ tld) host"
proof -
  assume "rsplitn3 host = tld # sld # r"
  then obtain a where a: "rsplit_once CHR ''.'' host = Some (a, tld)"
    and rest: "(case rsplit_once CHR ''.'' a of None \<Rightarrow> [a] | Some (c, d) \<Rightarrow> [d, c]) = sld # r"
    by (auto simp: rsplitn3_def split: option.splits)
  note h = rsplit_once_Some [OF a]
  show ?thesis
  proof (cases "rsplit_once CHR ''.'' a")
    case None
    with rest h show ?thesis by (auto simp: rsplit_once_None at_label_def)
  next
    case (Some cd)
    then obtain c where "rsplit_once CHR ''.'' a = Some (c, sld)" using rest by (cases cd) auto
    note g = rsplit_once_Some [OF this]
    have "host = (c @ ''.'') @ (sld @ ''.'' @ tld)" using h g by simp
    then have "at_label (sld @ ''.'' @ tld) host"
      unfolding at_label_def by (intro exI [of _ "c @ ''.''"]) simp
    with h g show ?thesis by simp
  qed
qed

lemma registrable_domain_cases:
  assumes "registrable_domain host = Some d"
  shows "(\<exists>suffix \<in> set MULTI_LABEL_SUFFIXES. \<exists>l. l \<noteq> [] \<and> CHR ''.'' \<notin> set l \<and>
            d = l @ ''.'' @ suffix \<and> at_label d host) \<or>
         (suffix_loop MULTI_LABEL_SUFFIXES host = None \<and>
            (\<exists>sld tld. sld \<noteq> [] \<and> tld \<noteq> [] \<and> CHR ''.'' \<notin> set sld \<and> CHR ''.'' \<notin> set tld \<and>
               d = sld @ ''.'' @ tld \<and> at_label d host))"
proof (cases "suffix_loop MULTI_LABEL_SUFFIXES host")
  case None
  with assms obtain tld sld r where r: "rsplitn3 host = tld # sld # r" "tld \<noteq> []" "sld \<noteq> []"
    "d = drop (length host - length tld - 1 - length sld) host"
    by (auto simp: registrable_domain_def split: if_splits list.splits)
  from rsplitn3_two [OF r(1)] obtain p where p: "CHR ''.'' \<notin> set tld" "CHR ''.'' \<notin> set sld"
    "host = p @ sld @ ''.'' @ tld" "p = [] \<or> last p = CHR ''.''" by (auto simp: at_label_def)
  have "d = sld @ ''.'' @ tld" using r(4) by (simp add: p(3))
  then show ?thesis using None r(2,3) p by (auto simp: at_label_def)
next
  case (Some x)
  with assms have "suffix_loop MULTI_LABEL_SUFFIXES host = Some (Some d)"
    by (auto simp: registrable_domain_def split: if_splits)
  from suffix_loop_found [OF this] show ?thesis by blast
qed

lemma suffixes_one_dot:
  "list_all (\<lambda>s. length (filter (\<lambda>c. c = CHR ''.'') s) = 1) MULTI_LABEL_SUFFIXES"
  by (simp add: MULTI_LABEL_SUFFIXES_def)

lemma at_label_no_empty:
  assumes "host = r @ ''.'' @ d" and "\<not> starts_with ''.'' host" and "\<not> contains ''..'' host"
  shows "rsplit_last CHR ''.'' r \<noteq> []"
proof
  assume e: "rsplit_last CHR ''.'' r = []"
  obtain p where p: "r = p @ rsplit_last CHR ''.'' r" "p = [] \<or> last p = CHR ''.''"
    using rsplit_last_decomp by blast
  with e have "r = [] \<or> (\<exists>q. r = q @ ''.'')" by (metis append.right_neutral append_butlast_last_id)
  then show False
  proof
    assume "r = []"
    with assms(1,2) show False by (simp add: starts_with_def)
  next
    assume "\<exists>q. r = q @ ''.''"
    then obtain q where "host = q @ ''..'' @ d" using assms(1) by auto
    with assms(3) show False unfolding contains_iff by blast
  qed
qed

lemma registrable_not_suffix:
  assumes d: "registrable_domain host = Some d"
    and "\<not> starts_with ''.'' host" and "\<not> contains ''..'' host"
  shows "d \<notin> set MULTI_LABEL_SUFFIXES"
proof
  assume mem: "d \<in> set MULTI_LABEL_SUFFIXES"
  let ?dots = "\<lambda>s :: string. length (filter (\<lambda>c. c = CHR ''.'') s)"
  have one: "s \<in> set MULTI_LABEL_SUFFIXES \<Longrightarrow> ?dots s = 1" for s
    using suffixes_one_dot by (simp add: list_all_iff)
  from registrable_domain_cases [OF d] show False
  proof (elim disjE bexE exE conjE)
    fix suffix l
    assume "suffix \<in> set MULTI_LABEL_SUFFIXES" and "d = l @ ''.'' @ suffix"
    then have "?dots d \<ge> 2" using one [of suffix] by simp
    with one [OF mem] show False by simp
  next
    fix sld tld
    assume n: "suffix_loop MULTI_LABEL_SUFFIXES host = None" and "at_label d host"
    then obtain p where p: "host = p @ d" "p = [] \<or> last p = CHR ''.''" by (auto simp: at_label_def)
    note no = suffix_loop_none [OF n mem]
    from p(2) no p(1) obtain r where "host = r @ ''.'' @ d"
      by (metis append.assoc append_Nil append_butlast_last_id)
    with no at_label_no_empty [OF this assms(2,3)] show False by blast
  qed
qed

end
