(* ===== verification/Session.thy ===== *)
theory Session
  imports Externals
begin

text \<open>
  Session establishment and payload sealing
  (\<open>logic/vaults-bridge-core/src/session.rs\<close>): the state machine Idle, Handshaking,
  Active, Expired, the replay check on request nonces, the idle timer, and sealing under
  the key derived from the X25519 shared secret. Every method of \<open>Session\<close> is a function
  that returns its result, the new session and, where it draws random bytes, the world.
\<close>

datatype session_error =
    NotActive
  | InvalidPubkey
  | SealFailed
  | OpenFailed
  | BadHex
  | NonceReusedErr u64 u64     \<comment> \<open>\<open>got\<close>, \<open>last\<close>\<close>
  | ExpiredErr

datatype session_state = Idle | Handshaking | Active | Expired

record session =
  ss_state :: session_state
  ss_key :: "bytes option"
  ss_last_nonce :: u64
  ss_last_activity :: u64

definition session_new :: session where
  "session_new = \<lparr>ss_state = Idle, ss_key = None, ss_last_nonce = 0, ss_last_activity = 0\<rparr>"

definition is_active :: "session \<Rightarrow> bool" where
  "is_active s \<longleftrightarrow> ss_state s = Active"

section \<open>Operations\<close>

definition parse_pubkey :: "'l libs_scheme \<Rightarrow> string \<Rightarrow> session_error + bytes" where
  "parse_pubkey L h =
     (case hex_decode L h of
        None \<Rightarrow> Inl BadHex
      | Some bs \<Rightarrow> if length bs = 32 then Inr bs else Inl InvalidPubkey)"

text \<open>What \<open>accept\<close> and \<open>complete_host\<close> do once the key is derived.\<close>

definition activate :: "bytes \<Rightarrow> u64 \<Rightarrow> session \<Rightarrow> session" where
  "activate key now_ms s =
     s\<lparr>ss_key := Some key, ss_last_nonce := 0, ss_last_activity := now_ms, ss_state := Active\<rparr>"

definition all_zero :: "bytes \<Rightarrow> bool" where
  "all_zero bs \<longleftrightarrow> list_all (\<lambda>b. b = 0) bs"

definition accept ::
  "'l libs_scheme \<Rightarrow> string \<Rightarrow> bytes \<Rightarrow> u64 \<Rightarrow> session \<Rightarrow> 'z world_scheme \<Rightarrow>
   (session_error + string) \<times> session \<times> 'z world_scheme"
where
  "accept L host_pubkey_hex info now_ms s w =
     (let s1 = s\<lparr>ss_state := Handshaking\<rparr> in
      case parse_pubkey L host_pubkey_hex of
        Inl e \<Rightarrow> (Inl e, s1, w)
      | Inr host_pk \<Rightarrow>
          (case fill_bytes 32 w of (device_secret, w') \<Rightarrow>
             let device_public = x25519_public L device_secret;
                 shared = x25519_shared L device_secret host_pk
             in if all_zero shared
                then (Inl InvalidPubkey, s1\<lparr>ss_state := Idle\<rparr>, w')
                else (Inr (hex_encode L device_public),
                      activate (hkdf_expand32 L shared info) now_ms s1, w')))"

definition begin_host ::
  "'l libs_scheme \<Rightarrow> session \<Rightarrow> 'z world_scheme \<Rightarrow> (bytes \<times> bytes) \<times> session \<times> 'z world_scheme"
where
  "begin_host L s w =
     (case fill_bytes 32 w of (secret, w') \<Rightarrow>
        ((x25519_public L secret, secret), s\<lparr>ss_state := Handshaking\<rparr>, w'))"

definition complete_host ::
  "'l libs_scheme \<Rightarrow> bytes \<Rightarrow> string \<Rightarrow> bytes \<Rightarrow> u64 \<Rightarrow> session \<Rightarrow> (session_error + unit) \<times> session"
where
  "complete_host L secret device_pubkey_hex info now_ms s =
     (case parse_pubkey L device_pubkey_hex of
        Inl e \<Rightarrow> (Inl e, s)
      | Inr device_pk \<Rightarrow>
          (let shared = x25519_shared L secret device_pk in
           if all_zero shared then (Inl InvalidPubkey, s\<lparr>ss_state := Idle\<rparr>)
           else (Inr (), activate (hkdf_expand32 L shared info) now_ms s)))"

definition accept_nonce :: "u64 \<Rightarrow> u64 \<Rightarrow> session \<Rightarrow> (session_error + unit) \<times> session" where
  "accept_nonce nonce now_ms s =
     (if ss_state s \<noteq> Active then (Inl NotActive, s)
      else if nonce \<le> ss_last_nonce s then (Inl (NonceReusedErr nonce (ss_last_nonce s)), s)
      else (Inr (), s\<lparr>ss_last_nonce := nonce, ss_last_activity := now_ms\<rparr>))"

definition expire :: "session \<Rightarrow> session" where
  "expire s = s\<lparr>ss_key := None, ss_state := Expired\<rparr>"

definition check_idle :: "u64 \<Rightarrow> u64 \<Rightarrow> session \<Rightarrow> bool \<times> session" where
  "check_idle now_ms idle_threshold_ms s =
     (if ss_state s \<noteq> Active then (False, s)
      else if saturating_sub now_ms (ss_last_activity s) \<ge> idle_threshold_ms
      then (True, expire s)
      else (False, s))"

definition seal ::
  "'l libs_scheme \<Rightarrow> bytes \<Rightarrow> u64 \<Rightarrow> session \<Rightarrow> 'z world_scheme \<Rightarrow>
   (session_error + string) \<times> session \<times> 'z world_scheme"
where
  "seal L plaintext now_ms s w =
     (if ss_state s \<noteq> Active then (Inl NotActive, s, w)
      else case ss_key s of
             None \<Rightarrow> (Inl NotActive, s, w)
           | Some key \<Rightarrow>
               (case fill_bytes 12 w of (nonce, w') \<Rightarrow>
                  (case aes_gcm_encrypt L key nonce plaintext of
                     None \<Rightarrow> (Inl SealFailed, s, w')
                   | Some ct \<Rightarrow>
                       (Inr (hex_encode L (nonce @ ct)), s\<lparr>ss_last_activity := now_ms\<rparr>, w'))))"

definition open_sealed ::
  "'l libs_scheme \<Rightarrow> string \<Rightarrow> u64 \<Rightarrow> session \<Rightarrow> (session_error + bytes) \<times> session"
where
  "open_sealed L sealed_hex now_ms s =
     (if ss_state s \<noteq> Active then (Inl NotActive, s)
      else case ss_key s of
             None \<Rightarrow> (Inl NotActive, s)
           | Some key \<Rightarrow>
               (case hex_decode L sealed_hex of
                  None \<Rightarrow> (Inl BadHex, s)
                | Some raw \<Rightarrow>
                    (if length raw < 12 + 16 then (Inl OpenFailed, s)
                     else case aes_gcm_decrypt L key (take 12 raw) (drop 12 raw) of
                            None \<Rightarrow> (Inl OpenFailed, s)
                          | Some pt \<Rightarrow> (Inr pt, s\<lparr>ss_last_activity := now_ms\<rparr>))))"

section \<open>Invariant\<close>

text \<open>An active session has a 32-byte key; an expired one has wiped it.\<close>

definition session_inv :: "session \<Rightarrow> bool" where
  "session_inv s \<longleftrightarrow>
     (ss_state s = Active \<longrightarrow> (\<exists>k. ss_key s = Some k \<and> length k = 32)) \<and>
     (ss_state s = Expired \<longrightarrow> ss_key s = None)"

lemma session_inv_new: "session_inv session_new"
  by (simp add: session_inv_def session_new_def)

lemma accept_inv:
  "hkdf_ok L \<Longrightarrow> accept L h info now s w = (r, s', w') \<Longrightarrow> session_inv s'"
  by (auto simp: accept_def activate_def session_inv_def Let_def
      split: sum.splits prod.splits if_splits)

lemma begin_host_inv: "session_inv s \<Longrightarrow> begin_host L s w = (p, s', w') \<Longrightarrow> session_inv s'"
  by (auto simp: begin_host_def session_inv_def split: prod.splits)

lemma complete_host_inv:
  "hkdf_ok L \<Longrightarrow> session_inv s \<Longrightarrow> complete_host L secret h info now s = (r, s') \<Longrightarrow> session_inv s'"
  by (auto simp: complete_host_def activate_def session_inv_def Let_def split: sum.splits if_splits)

lemma accept_nonce_inv: "session_inv s \<Longrightarrow> accept_nonce n now s = (r, s') \<Longrightarrow> session_inv s'"
  by (auto simp: accept_nonce_def session_inv_def split: if_splits)

lemma check_idle_inv: "session_inv s \<Longrightarrow> check_idle now th s = (b, s') \<Longrightarrow> session_inv s'"
  by (auto simp: check_idle_def expire_def session_inv_def split: if_splits)

lemma seal_inv: "session_inv s \<Longrightarrow> seal L p now s w = (r, s', w') \<Longrightarrow> session_inv s'"
  by (auto simp: seal_def session_inv_def split: if_splits option.splits prod.splits)

lemma open_inv: "session_inv s \<Longrightarrow> open_sealed L h now s = (r, s') \<Longrightarrow> session_inv s'"
  by (auto simp: open_sealed_def session_inv_def split: if_splits option.splits)

lemma expire_inv: "session_inv (expire s)"
  by (simp add: session_inv_def expire_def)

section \<open>What each operation leaves unchanged\<close>

lemma accept_nonce_Inr:
  "accept_nonce n now s = (Inr (), s') \<longleftrightarrow>
   ss_state s = Active \<and> ss_last_nonce s < n \<and>
   s' = s\<lparr>ss_last_nonce := n, ss_last_activity := now\<rparr>"
  by (auto simp: accept_nonce_def)

lemma accept_nonce_Inl: "accept_nonce n now s = (Inl e, s') \<Longrightarrow> s' = s"
  by (auto simp: accept_nonce_def split: if_splits)

lemma seal_frame:
  "seal L p now s w = (r, s', w') \<Longrightarrow>
   ss_state s' = ss_state s \<and> ss_key s' = ss_key s \<and> ss_last_nonce s' = ss_last_nonce s"
  by (auto simp: seal_def split: if_splits option.splits prod.splits)

lemma open_frame:
  "open_sealed L h now s = (r, s') \<Longrightarrow>
   ss_state s' = ss_state s \<and> ss_key s' = ss_key s \<and> ss_last_nonce s' = ss_last_nonce s"
  by (auto simp: open_sealed_def split: if_splits option.splits)

lemma check_idle_nonce: "check_idle now th s = (b, s') \<Longrightarrow> ss_last_nonce s' = ss_last_nonce s"
  by (auto simp: check_idle_def expire_def split: if_splits)

lemma check_idle_false: "check_idle now th s = (False, s') \<Longrightarrow> s' = s"
  by (auto simp: check_idle_def split: if_splits)

lemma check_idle_iff:
  "fst (check_idle now th s) \<longleftrightarrow>
   ss_state s = Active \<and> unat th \<le> unat now - unat (ss_last_activity s)"
  by (auto simp: check_idle_def word_le_nat_alt unat_saturating_sub)

section \<open>Sealing and opening\<close>

lemma seal_Inr:
  assumes "seal L p now s w = (Inr h, s', w')"
  obtains k n c where "ss_state s = Active" "ss_key s = Some k" "length n = 12"
    "aes_gcm_encrypt L k n p = Some c" "h = hex_encode L (n @ c)"
    "s' = s\<lparr>ss_last_activity := now\<rparr>"
  using assms length_fill_bytes [of 12 w]
  by (auto simp: seal_def split: if_splits option.splits prod.splits)

text \<open>A text sealed by one end opens at any active end that holds the same key.\<close>

lemma open_of_seal:
  assumes "aead_ok L" and "hex_ok L" and "session_inv s"
    and "seal L p now s w = (Inr h, s', w')"
    and "ss_state t = Active" and "ss_key t = ss_key s"
  shows "open_sealed L h now' t = (Inr p, t\<lparr>ss_last_activity := now'\<rparr>)"
proof -
  from assms(4) obtain k n c where k: "ss_key s = Some k" and "ss_state s = Active"
    and n: "length n = 12" and c: "aes_gcm_encrypt L k n p = Some c"
    and h: "h = hex_encode L (n @ c)" by (rule seal_Inr)
  with assms(3) have "length k = 32" by (simp add: session_inv_def)
  from aead_okD [OF assms(1) this n c] have "aes_gcm_decrypt L k n c = Some p" "length c = length p + 16"
    by simp_all
  then show ?thesis
    using assms(2,5,6) k n by (simp add: open_sealed_def h)
qed

section \<open>The handshake\<close>

text \<open>Both ends derive the same key from the exchanged public keys.\<close>

lemma handshake_same_key:
  assumes laws: "dh_ok L" "hex_ok L"
    and b: "begin_host L h0 w0 = ((host_pub, host_secret), h1, w1)"
    and a: "accept L (hex_encode L host_pub) info now d0 w1 = (Inr dev_hex, d1, w2)"
    and c: "complete_host L host_secret dev_hex info now' h1 = (r, h2)"
  shows "r = Inr () \<and> ss_state h2 = Active \<and> ss_state d1 = Active \<and> ss_key h2 = ss_key d1 \<and>
         ss_last_nonce d1 = 0"
proof -
  have hp: "host_pub = x25519_public L host_secret"
    using b by (auto simp: begin_host_def split: prod.splits)
  obtain sec w' where f: "fill_bytes 32 w1 = (sec, w')" by force
  have lens: "length (x25519_public L x) = 32" for x using laws(1) by (simp add: dh_ok_def)
  have sym: "x25519_shared L sec host_pub = x25519_shared L host_secret (x25519_public L sec)"
    unfolding hp using laws(1) by (simp add: dh_ok_def)
  from a f lens laws(2) have nz: "\<not> all_zero (x25519_shared L sec host_pub)"
    and d: "dev_hex = hex_encode L (x25519_public L sec)"
    and d1: "d1 = activate (hkdf_expand32 L (x25519_shared L sec host_pub) info) now (d0\<lparr>ss_state := Handshaking\<rparr>)"
    by (auto simp: accept_def parse_pubkey_def hp Let_def split: if_splits)
  show ?thesis
    using c lens laws(2) nz by (auto simp: complete_host_def parse_pubkey_def d d1 sym activate_def Let_def)
qed

section \<open>Runs of a session\<close>

text \<open>
  The calls on one session, of the device's end and of the host's, each with its time, as a
  sequence. A step reports the nonce it accepted, if any. \<open>complete_host\<close> is given any
  secret, whether or not \<open>begin_host\<close> drew it.
\<close>

datatype session_op =
    OpAccept string bytes u64
  | OpBegin
  | OpComplete bytes string bytes u64
  | OpNonce u64 u64
  | OpIdle u64 u64
  | OpSeal bytes u64
  | OpOpen string u64
  | OpExpire

fun session_step ::
  "'l libs_scheme \<Rightarrow> session_op \<Rightarrow> session \<Rightarrow> 'z world_scheme \<Rightarrow> u64 option \<times> session \<times> 'z world_scheme"
where
  "session_step L (OpAccept h info now) s w =
     (case accept L h info now s w of (_, s', w') \<Rightarrow> (None, s', w'))"
| "session_step L OpBegin s w = (case begin_host L s w of (_, s', w') \<Rightarrow> (None, s', w'))"
| "session_step L (OpComplete secret h info now) s w =
     (case complete_host L secret h info now s of (_, s') \<Rightarrow> (None, s', w))"
| "session_step L (OpNonce n now) s w =
     (case accept_nonce n now s of
        (Inr _, s') \<Rightarrow> (Some n, s', w)
      | (Inl _, s') \<Rightarrow> (None, s', w))"
| "session_step L (OpIdle now th) s w = (case check_idle now th s of (_, s') \<Rightarrow> (None, s', w))"
| "session_step L (OpSeal p now) s w = (case seal L p now s w of (_, s', w') \<Rightarrow> (None, s', w'))"
| "session_step L (OpOpen h now) s w = (case open_sealed L h now s of (_, s') \<Rightarrow> (None, s', w))"
| "session_step L OpExpire s w = (None, expire s, w)"

fun session_run ::
  "'l libs_scheme \<Rightarrow> session_op list \<Rightarrow> session \<Rightarrow> 'z world_scheme \<Rightarrow> u64 list \<times> session \<times> 'z world_scheme"
where
  "session_run L [] s w = ([], s, w)"
| "session_run L (op # ops) s w =
     (case session_step L op s w of (n, s1, w1) \<Rightarrow>
        (case session_run L ops s1 w1 of (ns, s2, w2) \<Rightarrow>
           (case n of None \<Rightarrow> ns | Some k \<Rightarrow> k # ns, s2, w2)))"

text \<open>The HKDF info strings of the calls that install a key.\<close>

fun key_infos :: "session_op \<Rightarrow> bytes list" where
  "key_infos (OpAccept h info now) = [info]"
| "key_infos (OpComplete secret h info now) = [info]"
| "key_infos _ = []"

text \<open>The key, when there is one, was derived by one of these calls from a shared secret that is not zero.\<close>

definition derived_key :: "'l libs_scheme \<Rightarrow> bytes set \<Rightarrow> session \<Rightarrow> bool" where
  "derived_key L infos s \<longleftrightarrow>
     (\<forall>k. ss_key s = Some k \<longrightarrow>
        (\<exists>shared info. info \<in> infos \<and> \<not> all_zero shared \<and> k = hkdf_expand32 L shared info))"

lemma session_step_inv:
  "hkdf_ok L \<Longrightarrow> session_inv s \<Longrightarrow> session_step L op s w = (n, s', w') \<Longrightarrow> session_inv s'"
  by (cases op)
    (auto split: prod.splits sum.splits
      intro: accept_inv begin_host_inv complete_host_inv accept_nonce_inv check_idle_inv seal_inv open_inv expire_inv)

lemma session_run_inv:
  "hkdf_ok L \<Longrightarrow> session_inv s \<Longrightarrow> session_run L ops s w = (ns, s', w') \<Longrightarrow> session_inv s'"
proof (induction ops arbitrary: s w ns)
  case (Cons op ops)
  obtain n s1 w1 where st: "session_step L op s w = (n, s1, w1)" using prod_cases3 by blast
  obtain ms where "session_run L ops s1 w1 = (ms, s', w')"
    using Cons.prems(3) st by (auto split: prod.splits)
  then show ?case
    using Cons.IH session_step_inv [OF Cons.prems(1,2) st] Cons.prems(1) by blast
qed simp

text \<open>Where keys come from, along a run.\<close>

lemma session_step_key:
  "derived_key L infos s \<Longrightarrow> session_step L op s w = (n, s', w') \<Longrightarrow> derived_key L (infos \<union> set (key_infos op)) s'"
proof (cases op)
  case (OpAccept h info now)
  then show "derived_key L infos s \<Longrightarrow> session_step L op s w = (n, s', w') \<Longrightarrow> ?thesis"
    by (auto simp: derived_key_def accept_def activate_def Let_def split: sum.splits prod.splits if_splits) blast+
next
  case (OpComplete secret h info now)
  then show "derived_key L infos s \<Longrightarrow> session_step L op s w = (n, s', w') \<Longrightarrow> ?thesis"
    by (auto simp: derived_key_def complete_host_def activate_def Let_def split: sum.splits prod.splits if_splits) blast+
next
  case (OpNonce m now)
  then show "derived_key L infos s \<Longrightarrow> session_step L op s w = (n, s', w') \<Longrightarrow> ?thesis"
    by (auto simp: derived_key_def accept_nonce_def split: if_splits)
next
  case (OpIdle now th)
  then show "derived_key L infos s \<Longrightarrow> session_step L op s w = (n, s', w') \<Longrightarrow> ?thesis"
    by (auto simp: derived_key_def check_idle_def expire_def split: if_splits)
qed (auto simp: derived_key_def begin_host_def expire_def split: prod.splits dest!: seal_frame open_frame)

lemma session_run_key:
  "derived_key L infos s \<Longrightarrow> session_run L ops s w = (ns, s', w') \<Longrightarrow>
   derived_key L (infos \<union> set (concat (map key_infos ops))) s'"
proof (induction ops arbitrary: infos s w ns)
  case (Cons op ops)
  obtain n s1 w1 where st: "session_step L op s w = (n, s1, w1)" using prod_cases3 by blast
  obtain ms where "session_run L ops s1 w1 = (ms, s', w')" using Cons.prems(2) st by (auto split: prod.splits)
  from Cons.IH [OF session_step_key [OF Cons.prems(1) st] this] show ?case by (simp add: Un_assoc)
qed simp

text \<open>What a session run counts: outside a handshake the accepted nonces strictly increase.\<close>

lemma session_step_nonce:
  assumes "session_step L op s w = (n, s', w')" and "key_infos op = []"
  shows "case n of None \<Rightarrow> ss_last_nonce s' = ss_last_nonce s
                 | Some k \<Rightarrow> ss_last_nonce s < k \<and> ss_last_nonce s' = k"
proof (cases op)
  case (OpNonce k now)
  then show ?thesis
    using assms(1) by (auto simp: accept_nonce_def split: if_splits)
qed (use assms in \<open>auto simp: expire_def begin_host_def split: prod.splits
        dest: check_idle_nonce seal_frame open_frame\<close>)

lemma session_run_nonces:
  "session_run L ops s w = (ns, s', w') \<Longrightarrow> \<forall>op \<in> set ops. key_infos op = [] \<Longrightarrow>
   sorted_wrt (<) ns \<and> (\<forall>n \<in> set ns. ss_last_nonce s < n \<and> n \<le> ss_last_nonce s') \<and>
   ss_last_nonce s \<le> ss_last_nonce s'"
proof (induction ops arbitrary: s w ns)
  case Nil
  then show ?case by simp
next
  case (Cons op ops)
  obtain n s1 w1 where st: "session_step L op s w = (n, s1, w1)" using prod_cases3 by blast
  obtain ms where r: "session_run L ops s1 w1 = (ms, s', w')"
    and ns: "ns = (case n of None \<Rightarrow> ms | Some k \<Rightarrow> k # ms)"
    using Cons.prems(1) st by (auto split: prod.splits)
  from Cons.IH [OF r] Cons.prems(2) have ih:
    "sorted_wrt (<) ms" "\<forall>m \<in> set ms. ss_last_nonce s1 < m \<and> m \<le> ss_last_nonce s'"
    "ss_last_nonce s1 \<le> ss_last_nonce s'" by auto
  from session_step_nonce [OF st] Cons.prems(2) ih ns show ?case
    by (cases n) auto
qed

end
