(* ===== verification/Password.thy ===== *)
theory Password
  imports Message "HOL-Library.Multiset"
begin

text \<open>
  The password generator (\<open>generate_password\<close>, \<open>pick_byte\<close>, \<open>shuffle\<close>,
  \<open>random_index\<close> in \<open>logic/vaults-bridge-core/src/engine.rs\<close>). The two rejection
  loops may in principle draw for ever, so they are \<open>partial_function (option)\<close> over the
  random tape: \<open>None\<close> is "never returns". On a fair tape they do return, and every
  index is hit by the same number of accepted samples.
\<close>

definition LETTERS :: bytes where
  "LETTERS = as_bytes ''abcdefghijklmnopqrstuvwxyzABCDEFGHIJKLMNOPQRSTUVWXYZ''"

definition DIGITS :: bytes where
  "DIGITS = as_bytes ''0123456789''"

definition SYMBOLS :: bytes where
  "SYMBOLS = as_bytes ''!@#$%^&*()-_=+[]{};:,.<>/?''"

text \<open>\<open>classes\<close> and \<open>alphabet\<close> as the three \<open>if\<close>s build them.\<close>

definition charset_classes :: "charset_hint \<Rightarrow> bytes list" where
  "charset_classes hint =
     (if ch_letters hint then [LETTERS] else []) @
     (if ch_digits hint then [DIGITS] else []) @
     (if ch_symbols hint then [SYMBOLS] else [])"

definition charset_alphabet :: "charset_hint \<Rightarrow> bytes" where
  "charset_alphabet hint = concat (charset_classes hint)"

section \<open>Rejection sampling\<close>

definition byte_limit :: "nat \<Rightarrow> nat" where
  "byte_limit n = 256 - 256 mod n"

partial_function (option) pick_byte :: "bytes \<Rightarrow> 'z world_scheme \<Rightarrow> (byte \<times> 'z world_scheme) option"
where
  "pick_byte alphabet w =
     (case fill_bytes 1 w of (b, w') \<Rightarrow>
        if unat (b ! 0) < byte_limit (length alphabet)
        then Some (alphabet ! (unat (b ! 0) mod length alphabet), w')
        else pick_byte alphabet w')"

definition from_le_bytes :: "bytes \<Rightarrow> u32" where
  "from_le_bytes bs = word_of_nat (foldr (\<lambda>b acc. unat b + 256 * acc) bs 0)"

text \<open>\<open>u32::MAX - (u32::MAX % n)\<close>; the largest word is \<open>- 1\<close>.\<close>

definition index_limit :: "u32 \<Rightarrow> u32" where
  "index_limit n = - 1 - (- 1) mod n"

partial_function (option) random_index :: "nat \<Rightarrow> 'z world_scheme \<Rightarrow> (nat \<times> 'z world_scheme) option"
where
  "random_index upper_exclusive w =
     (case fill_bytes 4 w of (b, w') \<Rightarrow>
        if from_le_bytes b < index_limit (word_of_nat upper_exclusive)
        then Some (unat (from_le_bytes b mod word_of_nat upper_exclusive), w')
        else random_index upper_exclusive w')"

section \<open>Shuffle and generate\<close>

definition swap_at :: "bytes \<Rightarrow> nat \<Rightarrow> nat \<Rightarrow> bytes" where
  "swap_at bs i j = bs[i := bs ! j, j := bs ! i]"

text \<open>\<open>for i in (1..len).rev()\<close>, from the last index down to 1.\<close>

fun shuffle_loop :: "nat \<Rightarrow> bytes \<Rightarrow> 'z world_scheme \<Rightarrow> (bytes \<times> 'z world_scheme) option" where
  "shuffle_loop 0 bs w = Some (bs, w)"
| "shuffle_loop (Suc i) bs w =
     Option.bind (random_index (Suc i + 1) w)
       (\<lambda>(j, w'). shuffle_loop i (swap_at bs (Suc i) j) w')"

definition shuffle :: "bytes \<Rightarrow> 'z world_scheme \<Rightarrow> (bytes \<times> 'z world_scheme) option" where
  "shuffle bs w = (if length bs < 2 then Some (bs, w) else shuffle_loop (length bs - 1) bs w)"

text \<open>Push one byte from each given alphabet, in order.\<close>

fun pick_each :: "bytes list \<Rightarrow> 'z world_scheme \<Rightarrow> (bytes \<times> 'z world_scheme) option" where
  "pick_each [] w = Some ([], w)"
| "pick_each (a # as) w =
     Option.bind (pick_byte a w) (\<lambda>(b, w').
       map_option (\<lambda>(bs, w''). (b # bs, w'')) (pick_each as w'))"

text \<open>
  One byte per enabled class (at most \<open>len\<close> of them), then bytes of the whole alphabet
  until the length is reached, then the shuffle.
\<close>

definition generate_password ::
  "nat \<Rightarrow> charset_hint \<Rightarrow> 'z world_scheme \<Rightarrow> (string \<times> 'z world_scheme) option"
where
  "generate_password len hint w =
     (let classes = charset_classes hint; alphabet = charset_alphabet hint in
      if len = 0 \<or> alphabet = [] then Some ([], w)
      else Option.bind (pick_each (take len classes) w) (\<lambda>(bs, w1).
           Option.bind (pick_each (replicate (len - length bs) alphabet) w1) (\<lambda>(more, w2).
           map_option (\<lambda>(cs, w3). (of_bytes cs, w3)) (shuffle (bs @ more) w2))))"

section \<open>What the loops return\<close>

lemma pick_byte_in:
  assumes "alphabet \<noteq> []" and "pick_byte alphabet w = Some (b, w')"
  shows "b \<in> set alphabet"
proof -
  have "alphabet \<noteq> [] \<longrightarrow> fst r \<in> set alphabet" if "pick_byte alphabet w = Some r" for r
  proof (rule pick_byte.raw_induct [where P = "\<lambda>a w r. a \<noteq> [] \<longrightarrow> fst r \<in> set a", OF _ that])
    fix f :: "bytes \<Rightarrow> 'a world_scheme \<Rightarrow> (byte \<times> 'a world_scheme) option" and a v r
    assume ih: "\<And>a w r. f a w = Some r \<Longrightarrow> a \<noteq> [] \<longrightarrow> fst r \<in> set a"
      and eq: "(case fill_bytes 1 v of (b, w') \<Rightarrow>
        if unat (b ! 0) < byte_limit (length a)
        then Some (a ! (unat (b ! 0) mod length a), w') else f a w') = Some r"
    then show "a \<noteq> [] \<longrightarrow> fst r \<in> set a"
      by (auto split: prod.splits if_splits)
  qed
  with assms show ?thesis by fastforce
qed

lemma word_of_nat_u32: "n < 2 ^ 32 \<Longrightarrow> unat (word_of_nat n :: u32) = n"
  by (simp add: unat_of_nat take_bit_eq_mod)

lemma random_index_bound:
  assumes "0 < n" and "n < 2 ^ 32" and "random_index n w = Some (j, w')"
  shows "j < n"
proof -
  have "0 < n \<and> n < 2 ^ 32 \<longrightarrow> fst r < n" if "random_index n w = Some r" for r
  proof (rule random_index.raw_induct [where P = "\<lambda>n w r. 0 < n \<and> n < 2 ^ 32 \<longrightarrow> fst r < n", OF _ that])
    fix f :: "nat \<Rightarrow> 'a world_scheme \<Rightarrow> (nat \<times> 'a world_scheme) option" and m v r
    assume ih: "\<And>n w r. f n w = Some r \<Longrightarrow> 0 < n \<and> n < 2 ^ 32 \<longrightarrow> fst r < n"
      and eq: "(case fill_bytes 4 v of (b, w') \<Rightarrow>
        if from_le_bytes b < index_limit (word_of_nat m)
        then Some (unat (from_le_bytes b mod word_of_nat m), w') else f m w') = Some r"
    have "unat (x mod word_of_nat m :: u32) < m" if "0 < m" "m < 2 ^ 32" for x
      using that word_of_nat_u32 [of m] by (simp add: unat_mod_distrib)
    with ih eq show "0 < m \<and> m < 2 ^ 32 \<longrightarrow> fst r < m"
      by (auto split: prod.splits if_splits)
  qed
  with assms show ?thesis by fastforce
qed

lemma pick_each_spec:
  "pick_each as w = Some (bs, w') \<Longrightarrow> list_all (\<lambda>a. a \<noteq> []) as \<Longrightarrow>
   list_all2 (\<lambda>b a. b \<in> set a) bs as"
proof (induction as arbitrary: w bs)
  case (Cons a as)
  then show ?case by (auto simp: bind_eq_Some_conv dest: pick_byte_in)
qed simp

lemma mset_swap_at: "i < length bs \<Longrightarrow> j < length bs \<Longrightarrow> mset (swap_at bs i j) = mset bs"
  unfolding swap_at_def by (rule mset_swap)

lemma shuffle_loop_mset:
  "shuffle_loop i bs w = Some (cs, w') \<Longrightarrow> i < length bs \<Longrightarrow> length bs < 2 ^ 32 \<Longrightarrow>
   mset cs = mset bs"
proof (induction i arbitrary: bs w)
  case (Suc i)
  from Suc.prems(1) obtain j w1 where j: "random_index (Suc i + 1) w = Some (j, w1)"
    and rest: "shuffle_loop i (swap_at bs (Suc i) j) w1 = Some (cs, w')"
    by (auto simp: bind_eq_Some_conv)
  have "j < Suc i + 1" using random_index_bound [OF _ _ j] Suc.prems(2,3) by simp
  then have "mset (swap_at bs (Suc i) j) = mset bs" using Suc.prems(2) by (intro mset_swap_at) simp_all
  moreover have "mset cs = mset (swap_at bs (Suc i) j)"
    using Suc.IH [OF rest] Suc.prems(2,3) by (simp add: swap_at_def)
  ultimately show ?case by simp
qed simp

lemma shuffle_mset:
  "shuffle bs w = Some (cs, w') \<Longrightarrow> length bs < 2 ^ 32 \<Longrightarrow> mset cs = mset bs"
  by (auto simp: shuffle_def dest: shuffle_loop_mset split: if_splits)

lemma classes_nonempty: "list_all (\<lambda>a. a \<noteq> []) (charset_classes hint)"
  by (simp add: charset_classes_def LETTERS_def DIGITS_def SYMBOLS_def as_bytes_def)

lemma alphabet_empty_iff:
  "charset_alphabet hint = [] \<longleftrightarrow> \<not> (ch_letters hint \<or> ch_digits hint \<or> ch_symbols hint)"
  by (simp add: charset_alphabet_def charset_classes_def LETTERS_def DIGITS_def SYMBOLS_def as_bytes_def)

lemma length_alphabet: "length (charset_alphabet hint) \<le> 88"
  by (simp add: charset_alphabet_def charset_classes_def LETTERS_def DIGITS_def SYMBOLS_def)

text \<open>
  The result: the requested length, characters of the alphabet only, and (when the length
  leaves room) at least one character of every enabled class.
\<close>

lemma generate_password_spec:
  assumes g: "generate_password len hint w = Some (pw, w')"
    and len: "0 < len" "len < 2 ^ 32" and ne: "charset_alphabet hint \<noteq> []"
  shows "length pw = len \<and> set (as_bytes pw) \<subseteq> set (charset_alphabet hint) \<and>
         (length (charset_classes hint) \<le> len \<longrightarrow>
            (\<forall>cl \<in> set (charset_classes hint). set (as_bytes pw) \<inter> set cl \<noteq> {}))"
proof -
  let ?cl = "charset_classes hint" and ?al = "charset_alphabet hint"
  from g len ne obtain bs w1 more w2 cs where
    bs: "pick_each (take len ?cl) w = Some (bs, w1)" and
    more: "pick_each (replicate (len - length bs) ?al) w1 = Some (more, w2)" and
    cs: "shuffle (bs @ more) w2 = Some (cs, w')" and pw: "pw = of_bytes cs"
    by (auto simp: generate_password_def Let_def bind_eq_Some_conv)
  have nb: "list_all2 (\<lambda>b a. b \<in> set a) bs (take len ?cl)"
    using pick_each_spec [OF bs] classes_nonempty [of hint]
    by (auto simp: list_all_iff dest: in_set_takeD)
  have nm: "list_all2 (\<lambda>b a. b \<in> set a) more (replicate (len - length bs) ?al)"
    using pick_each_spec [OF more] ne by (simp add: list_all_iff)
  have lb: "length bs = length (take len ?cl)" using nb list_all2_lengthD by blast
  have lm: "length more = len - length bs" using nm list_all2_lengthD by fastforce
  have l: "length (bs @ more) = len" using lb lm by simp
  have ms: "mset cs = mset (bs @ more)" using shuffle_mset [OF cs] l len by simp
  have set: "set cs = set bs \<union> set more" using ms by (metis set_append set_mset_mset)
  have "set bs \<subseteq> set ?al"
    using nb unfolding charset_alphabet_def list_all2_conv_all_nth
    by (force simp: in_set_conv_nth dest: in_set_takeD)
  moreover have "set more \<subseteq> set ?al"
    using nm by (auto simp: list_all2_conv_all_nth in_set_conv_nth)
  moreover have "set cs \<inter> set c \<noteq> {}" if "length ?cl \<le> len" "c \<in> set ?cl" for c
  proof -
    from that(2) obtain i where i: "i < length ?cl" "?cl ! i = c" by (auto simp: in_set_conv_nth)
    with that(1) nb have "i < length bs" "bs ! i \<in> set c" by (auto simp: list_all2_conv_all_nth)
    then have "bs ! i \<in> set cs \<inter> set c" using set by auto
    then show ?thesis by blast
  qed
  moreover have "length cs = len" using ms l by (metis size_mset)
  ultimately show ?thesis by (auto simp: pw set)
qed

section \<open>The loops return on a fair tape\<close>

text \<open>
  A tape is fair when, at any offset, some later block of four bytes on that alignment is
  zero. A random tape is fair with probability one; zero is accepted by both loops.
\<close>

definition fair :: "byte stream \<Rightarrow> bool" where
  "fair s \<longleftrightarrow> (\<forall>m. \<exists>k. stake 4 (sdrop (m + 4 * k) s) = [0, 0, 0, 0])"

lemma fair_sdrop: "fair s \<Longrightarrow> fair (sdrop n s)"
  unfolding fair_def by (simp add: add.assoc) (metis add.assoc)

lemma fair_sconst: "fair (sconst 0)"
proof -
  have "sdrop n (sconst (0 :: byte)) = sconst 0" for n
    by (simp add: sconst_alt sset_range sdrop_snth)
  then show ?thesis by (simp add: fair_def eval_nat_numeral)
qed

lemma fair_zero: "fair s \<Longrightarrow> \<exists>k. s !! k = 0"
proof -
  assume "fair s"
  then obtain k where "stake 4 (sdrop (0 + 4 * k) s) = [0, 0, 0, 0]" unfolding fair_def by blast
  then have "sdrop (4 * k) s !! 0 = 0" by (simp add: eval_nat_numeral)
  then show ?thesis by (auto simp: sdrop_snth)
qed

lemma byte_limit_pos: "0 < n \<Longrightarrow> n \<le> 256 \<Longrightarrow> 0 < byte_limit n"
proof -
  assume "0 < n" "n \<le> 256"
  then have "256 mod n < n" by simp
  with \<open>n \<le> 256\<close> show ?thesis by (simp add: byte_limit_def)
qed

lemma pick_byte_returns_aux:
  "w_rng w !! k = 0 \<Longrightarrow> 0 < length a \<Longrightarrow> length a \<le> 256 \<Longrightarrow>
   \<exists>b w' n. pick_byte a w = Some (b, w') \<and> w_rng w' = sdrop n (w_rng w)"
proof (induction k arbitrary: w)
  case 0
  then have "unat (shd (w_rng w)) < byte_limit (length a)" using byte_limit_pos by simp
  then show ?case
    by (subst pick_byte.simps) (auto simp: fill_bytes_def intro!: exI [of _ "Suc 0"])
next
  case (Suc k)
  obtain w1 where w1: "fill_bytes 1 w = ([shd (w_rng w)], w1)" "w_rng w1 = stl (w_rng w)"
    by (simp add: fill_bytes_def)
  have "w_rng w1 !! k = 0" using Suc.prems(1) w1(2) by simp
  from Suc.IH [OF this Suc.prems(2,3)] obtain b w' n
    where ih: "pick_byte a w1 = Some (b, w')" "w_rng w' = sdrop n (stl (w_rng w))" using w1(2) by auto
  show ?case
  proof (cases "unat (shd (w_rng w)) < byte_limit (length a)")
    case True
    then show ?thesis using w1 by (subst pick_byte.simps) (auto intro!: exI [of _ "Suc 0"])
  next
    case False
    then show ?thesis using w1 ih by (subst pick_byte.simps) (auto intro!: exI [of _ "Suc n"])
  qed
qed

lemma pick_byte_returns:
  assumes "fair (w_rng w)" and "a \<noteq> []" and "length a \<le> 256"
  shows "\<exists>b w'. pick_byte a w = Some (b, w') \<and> fair (w_rng w')"
proof -
  from fair_zero [OF assms(1)] obtain k where "w_rng w !! k = 0" by blast
  from pick_byte_returns_aux [OF this] assms fair_sdrop show ?thesis by fastforce
qed

lemma unat_max_u32: "unat (- 1 :: u32) = 2 ^ 32 - 1"
  by (simp add: unsigned_minus_1_eq_mask mask_eq_exp_minus_1)

lemma index_limit_pos: "0 < n \<Longrightarrow> n < 2 ^ 32 \<Longrightarrow> 0 < index_limit (word_of_nat n)"
proof -
  assume n: "0 < n" "n < 2 ^ 32"
  let ?n = "word_of_nat n :: u32"
  have un: "unat ?n = n" using n by (simp add: word_of_nat_u32)
  have m: "unat ((- 1 :: u32) mod ?n) = (2 ^ 32 - 1) mod n"
    by (simp add: unat_mod_distrib un unat_max_u32)
  have "(2 ^ 32 - 1) mod n < (2 ^ 32 - 1 :: nat)"
  proof (cases "n = 2 ^ 32 - 1")
    case False
    have "(2 ^ 32 - 1) mod n < n" using n by simp
    with False n show ?thesis by linarith
  qed simp
  then have "unat ((- 1 :: u32) mod ?n) < unat (- 1 :: u32)" by (simp add: m unat_max_u32)
  then have "(- 1 :: u32) mod ?n \<noteq> - 1" by auto
  then show ?thesis by (simp add: index_limit_def word_gt_0)
qed

lemma random_index_returns_aux:
  "stake 4 (sdrop (4 * k) (w_rng w)) = [0, 0, 0, 0] \<Longrightarrow> 0 < n \<Longrightarrow> n < 2 ^ 32 \<Longrightarrow>
   \<exists>j w' m. random_index n w = Some (j, w') \<and> w_rng w' = sdrop m (w_rng w)"
proof (induction k arbitrary: w)
  case 0
  then have "from_le_bytes (stake 4 (w_rng w)) < index_limit (word_of_nat n)"
    using index_limit_pos by (simp add: from_le_bytes_def)
  then show ?case
    by (subst random_index.simps) (auto simp: fill_bytes_def intro!: exI [of _ 4])
next
  case (Suc k)
  obtain w1 where w1: "fill_bytes 4 w = (stake 4 (w_rng w), w1)" "w_rng w1 = sdrop 4 (w_rng w)"
    by (simp add: fill_bytes_def)
  have "stake 4 (sdrop (4 * k) (w_rng w1)) = [0, 0, 0, 0]"
    using Suc.prems(1) w1(2) by (simp add: add.commute)
  from Suc.IH [OF this Suc.prems(2,3)] obtain j w' m
    where ih: "random_index n w1 = Some (j, w')" "w_rng w' = sdrop (4 + m) (w_rng w)"
    using w1(2) by auto
  show ?case
  proof (cases "from_le_bytes (stake 4 (w_rng w)) < index_limit (word_of_nat n)")
    case True
    then show ?thesis using w1 by (subst random_index.simps) (auto intro!: exI [of _ 4])
  next
    case False
    then show ?thesis using w1 ih by (subst random_index.simps) (auto intro!: exI [of _ "4 + m"])
  qed
qed

lemma random_index_returns:
  assumes "fair (w_rng w)" and "0 < n" and "n < 2 ^ 32"
  shows "\<exists>j w'. random_index n w = Some (j, w') \<and> fair (w_rng w')"
proof -
  from assms(1) obtain k where "stake 4 (sdrop (0 + 4 * k) (w_rng w)) = [0, 0, 0, 0]"
    unfolding fair_def by blast
  from random_index_returns_aux [of k w n] this assms fair_sdrop show ?thesis by fastforce
qed

lemma pick_each_returns:
  "fair (w_rng w) \<Longrightarrow> list_all (\<lambda>a. a \<noteq> [] \<and> length a \<le> 256) as \<Longrightarrow>
   \<exists>bs w'. pick_each as w = Some (bs, w') \<and> fair (w_rng w')"
proof (induction as arbitrary: w)
  case (Cons a as)
  from pick_byte_returns [of w a] Cons.prems obtain b w1
    where b: "pick_byte a w = Some (b, w1)" "fair (w_rng w1)" by auto
  from Cons.IH [OF b(2)] Cons.prems(2) b(1) show ?case by auto
qed simp

lemma shuffle_loop_returns:
  "fair (w_rng w) \<Longrightarrow> i + 1 < 2 ^ 32 \<Longrightarrow>
   \<exists>cs w'. shuffle_loop i bs w = Some (cs, w') \<and> fair (w_rng w')"
proof (induction i arbitrary: bs w)
  case (Suc i)
  from random_index_returns [OF Suc.prems(1), of "Suc i + 1"] Suc.prems(2) obtain j w1
    where "random_index (Suc i + 1) w = Some (j, w1)" "fair (w_rng w1)" by auto
  with Suc.IH [of w1 "swap_at bs (Suc i) j"] Suc.prems(2) show ?case by simp
qed simp

lemma shuffle_returns:
  "fair (w_rng w) \<Longrightarrow> length bs < 2 ^ 32 \<Longrightarrow>
   \<exists>cs w'. shuffle bs w = Some (cs, w') \<and> fair (w_rng w')"
  using shuffle_loop_returns [of w "length bs - 1" bs] by (auto simp: shuffle_def)

lemma classes_bounds: "list_all (\<lambda>a. a \<noteq> [] \<and> length a \<le> 256) (charset_classes hint)"
  by (simp add: charset_classes_def LETTERS_def DIGITS_def SYMBOLS_def as_bytes_def)

lemma generate_password_returns:
  assumes "fair (w_rng w)" and "len < 2 ^ 32"
  shows "\<exists>pw w'. generate_password len hint w = Some (pw, w') \<and> fair (w_rng w')"
proof (cases "len = 0 \<or> charset_alphabet hint = []")
  case True
  then show ?thesis using assms(1) by (auto simp: generate_password_def)
next
  case False
  have "list_all (\<lambda>a. a \<noteq> [] \<and> length a \<le> 256) (take len (charset_classes hint))"
    using classes_bounds [of hint] by (auto simp: list_all_iff dest: in_set_takeD)
  from pick_each_returns [OF assms(1) this] obtain bs w1
    where bs: "pick_each (take len (charset_classes hint)) w = Some (bs, w1)" "fair (w_rng w1)" by blast
  have "list_all (\<lambda>a. a \<noteq> [] \<and> length a \<le> 256) (replicate (len - length bs) (charset_alphabet hint))"
    using False length_alphabet [of hint] by (simp add: list_all_iff)
  from pick_each_returns [OF bs(2) this] obtain more w2
    where more: "pick_each (replicate (len - length bs) (charset_alphabet hint)) w1 = Some (more, w2)"
      "fair (w_rng w2)" by blast
  have "list_all (\<lambda>a. a \<noteq> []) (take len (charset_classes hint))"
    using classes_nonempty [of hint] by (auto simp: list_all_iff dest: in_set_takeD)
  from list_all2_lengthD [OF pick_each_spec [OF bs(1) this]]
  have "length bs = length (take len (charset_classes hint))" .
  moreover have "length more = len - length bs"
    using pick_each_spec [OF more(1)] False by (auto simp: list_all_iff dest: list_all2_lengthD)
  ultimately have "length (bs @ more) < 2 ^ 32" using assms(2) by simp
  from shuffle_returns [OF more(2) this] bs more False show ?thesis
    by (auto simp: generate_password_def Let_def)
qed

section \<open>No index is favoured\<close>

lemma card_residues: "0 < n \<Longrightarrow> i < n \<Longrightarrow> card {v. v < n * q \<and> v mod n = i} = (q :: nat)"
proof -
  assume n: "0 < n" "i < n"
  have "{v. v < n * q \<and> v mod n = i} = (\<lambda>k. n * k + i) ` {..<q}"
  proof (intro set_eqI iffI)
    fix v assume "v \<in> {v. v < n * q \<and> v mod n = i}"
    then have "v = n * (v div n) + i" "v div n < q"
      using n by (auto simp: less_mult_imp_div_less mult.commute)
    then show "v \<in> (\<lambda>k. n * k + i) ` {..<q}" by blast
  next
    fix v assume "v \<in> (\<lambda>k. n * k + i) ` {..<q}"
    then obtain k where k: "k < q" "v = n * k + i" by blast
    have "n * k + i < n * Suc k" using n by simp
    also have "\<dots> \<le> n * q" using k(1) by (intro mult_le_mono2) simp
    finally show "v \<in> {v. v < n * q \<and> v mod n = i}" using k n by simp
  qed
  moreover have "inj_on (\<lambda>k. n * k + i) {..<q}" using n by (auto simp: inj_on_def)
  ultimately show ?thesis by (simp add: card_image)
qed

lemma card_words:
  "m \<le> 2 ^ LENGTH('a) \<Longrightarrow>
   card {x :: 'a :: len word. unat x < m \<and> P (unat x)} = card {v. v < m \<and> P v}"
proof -
  assume m: "m \<le> 2 ^ LENGTH('a)"
  have "{v. v < m \<and> P v} = unat ` {x :: 'a word. unat x < m \<and> P (unat x)}"
  proof (intro set_eqI iffI)
    fix v assume v: "v \<in> {v. v < m \<and> P v}"
    then have "unat (word_of_nat v :: 'a word) = v"
      using m by (simp add: unat_of_nat take_bit_eq_mod)
    with v show "v \<in> unat ` {x :: 'a word. unat x < m \<and> P (unat x)}" by (intro image_eqI [of _ _ "word_of_nat v"]) auto
  qed auto
  moreover have "inj_on unat {x :: 'a word. unat x < m \<and> P (unat x)}"
    by (auto simp: inj_on_def unsigned_word_eqI)
  ultimately show ?thesis by (simp add: card_image)
qed

lemma byte_limit_mult: "0 < n \<Longrightarrow> byte_limit n = n * (256 div n)"
  by (simp add: byte_limit_def minus_mod_eq_mult_div)

lemma pick_byte_uniform:
  assumes "0 < n" and "n \<le> 256" and "i < n"
  shows "card {b :: byte. unat b < byte_limit n \<and> unat b mod n = i} = 256 div n"
proof -
  have "card {b :: byte. unat b < byte_limit n \<and> unat b mod n = i} =
        card {v. v < byte_limit n \<and> v mod n = i}"
    by (rule card_words) (simp add: byte_limit_def)
  also have "\<dots> = 256 div n" using assms by (simp add: byte_limit_mult card_residues)
  finally show ?thesis .
qed

lemma unat_index_limit:
  "0 < n \<Longrightarrow> n < 2 ^ 32 \<Longrightarrow> unat (index_limit (word_of_nat n)) = n * ((2 ^ 32 - 1) div n)"
proof -
  assume n: "0 < n" "n < 2 ^ 32"
  let ?n = "word_of_nat n :: u32"
  have m: "unat ((- 1 :: u32) mod ?n) = (2 ^ 32 - 1) mod n"
    using n by (simp add: unat_mod_distrib word_of_nat_u32 unat_max_u32)
  have "(- 1 :: u32) mod ?n \<le> - 1" by simp
  then have "unat (index_limit ?n) = (2 ^ 32 - 1) - (2 ^ 32 - 1) mod n"
    by (simp add: index_limit_def unat_sub m unat_max_u32)
  then show ?thesis by (simp add: minus_mod_eq_mult_div)
qed

lemma random_index_uniform:
  assumes "0 < n" and "n < 2 ^ 32" and "i < n"
  shows "card {v :: u32. v < index_limit (word_of_nat n) \<and> unat (v mod word_of_nat n) = i} =
         (2 ^ 32 - 1) div n"
proof -
  let ?m = "n * ((2 ^ 32 - 1) div n)"
  have "{v :: u32. v < index_limit (word_of_nat n) \<and> unat (v mod word_of_nat n) = i} =
        {v :: u32. unat v < ?m \<and> unat v mod n = i}"
    using assms by (simp add: word_less_nat_alt unat_index_limit unat_mod_distrib word_of_nat_u32)
  moreover have "card {v :: u32. unat v < ?m \<and> unat v mod n = i} = card {v. v < ?m \<and> v mod n = i}"
  proof (rule card_words)
    have "?m \<le> 2 ^ 32 - 1" by (rule times_div_less_eq_dividend)
    also have "\<dots> \<le> (2 :: nat) ^ LENGTH(32)" by simp
    finally show "?m \<le> 2 ^ LENGTH(32)" .
  qed
  ultimately show ?thesis using assms by (simp add: card_residues)
qed

end
