(* ===== verification/CredentialStore.thy ===== *)
theory CredentialStore
  imports Externals
begin

text \<open>
  The credential record (\<open>logic/vaults-bridge-core/src/record.rs\<close>) and the trait through
  which the engine reads and writes credentials (\<open>.../store.rs\<close>). The trait is a record
  of functions (its dictionary); the contract written in its comments is the locale
  \<open>credential_store\<close>, which the keystore interprets.
\<close>

section \<open>CredentialRecord\<close>

record credential_record =
  cr_id :: uuid
  cr_origin :: string
  cr_username :: string
  cr_password :: string
  cr_label :: string
  cr_color :: int
  cr_archived :: bool
  cr_notes :: "string option"
  cr_created_at :: u64
  cr_last_used_at :: u64

definition default_color :: int where
  "default_color = 5"

definition uuid_new_v4 :: "'l libs_scheme \<Rightarrow> 'z world_scheme \<Rightarrow> uuid \<times> 'z world_scheme" where
  "uuid_new_v4 L w = (case fill_bytes 16 w of (bs, w') \<Rightarrow> (uuid_from_random L bs, w'))"

definition credential_record_new ::
  "'l libs_scheme \<Rightarrow> string \<Rightarrow> string \<Rightarrow> string \<Rightarrow> 'z world_scheme \<Rightarrow>
   credential_record \<times> 'z world_scheme"
where
  "credential_record_new L origin username password w =
     (case now_secs w of (now, w1) \<Rightarrow>
      case uuid_new_v4 L w1 of (i, w2) \<Rightarrow>
        (\<lparr>cr_id = i, cr_origin = origin, cr_username = username, cr_password = password,
          cr_label = [], cr_color = default_color, cr_archived = False, cr_notes = None,
          cr_created_at = now, cr_last_used_at = now\<rparr>, w2))"

definition display_label :: "credential_record \<Rightarrow> string" where
  "display_label r = (if cr_label r \<noteq> [] then cr_label r else cr_origin r)"

lemma credential_record_new_fields:
  "credential_record_new L ori user pw w = (r, w') \<Longrightarrow>
   cr_origin r = ori \<and> cr_username r = user \<and> cr_password r = pw \<and> cr_label r = [] \<and>
   \<not> cr_archived r \<and> cr_notes r = None \<and> cr_color r = default_color"
  by (auto simp: credential_record_new_def split: prod.splits)

section \<open>The CredentialStore trait\<close>

record credential_match =
  cm_username :: string
  cm_password :: string

record credential_summary =
  cs_username :: string
  cs_label :: string
  cs_last_used_at :: u64

datatype existing_credential = NoCredential | Live | Archived

datatype store_error = Backend string

record ('s, 'p, 'w) store_ops =
  so_list_origins :: "'s \<Rightarrow> string list"
  so_list_credentials :: "'s \<Rightarrow> string \<Rightarrow> credential_summary list"
  so_find_by_origin :: "'s \<Rightarrow> string \<Rightarrow> credential_match list"
  so_snapshot :: "'s \<Rightarrow> 'p"
  so_restore_snapshot :: "'p \<Rightarrow> 's \<Rightarrow> 's"
  so_probe :: "'s \<Rightarrow> string \<Rightarrow> string \<Rightarrow> existing_credential"
  so_upsert :: "string \<Rightarrow> string \<Rightarrow> string \<Rightarrow> string option \<Rightarrow> 's \<Rightarrow> 'w \<Rightarrow>
                (store_error + unit) \<times> 's \<times> 'w"

text \<open>The first match of an origin with a given user name: what a release with a hint takes.\<close>

definition hinted ::
  "('s, 'p, 'w) store_ops \<Rightarrow> 's \<Rightarrow> string \<Rightarrow> string \<Rightarrow> credential_match option"
where
  "hinted ops s ori user = find (\<lambda>m. cm_username m = user) (so_find_by_origin ops s ori)"

locale credential_store =
  fixes ops :: "('s, 'p, 'w) store_ops"
  assumes restore_after_upsert:
      "so_upsert ops ori user pw lab s w = (r, s', w') \<Longrightarrow>
       so_restore_snapshot ops (so_snapshot ops s) s' = s"
    and upsert_failed: "so_upsert ops ori user pw lab s w = (Inl e, s', w') \<Longrightarrow> s' = s"
    and upsert_probe:
      "so_upsert ops ori user pw lab s w = (Inr (), s', w') \<Longrightarrow> so_probe ops s' ori user = Live"
    and upsert_hinted:
      "so_upsert ops ori user pw lab s w = (Inr (), s', w') \<Longrightarrow>
       hinted ops s' ori user = Some \<lparr>cm_username = user, cm_password = pw\<rparr>"
    and upsert_other_user:
      "so_upsert ops ori user pw lab s w = (Inr (), s', w') \<Longrightarrow> user' \<noteq> user \<Longrightarrow>
       hinted ops s' ori user' = hinted ops s ori user'"
    and upsert_other_origin:
      "so_upsert ops ori user pw lab s w = (Inr (), s', w') \<Longrightarrow> ori' \<noteq> ori \<Longrightarrow>
       so_find_by_origin ops s' ori' = so_find_by_origin ops s ori'"
    and probe_none: "so_probe ops s ori user = NoCredential \<Longrightarrow> hinted ops s ori user = None"
    and probe_live: "so_probe ops s ori user = Live \<Longrightarrow> hinted ops s ori user \<noteq> None"
    and listed_origins: "set (so_list_origins ops s) = {ori. so_find_by_origin ops s ori \<noteq> []}"
    and listed_users:
      "map cs_username (so_list_credentials ops s ori) = map cm_username (so_find_by_origin ops s ori)"
begin

lemma upsert_other:
  assumes "so_upsert ops ori user pw lab s w = (Inr (), s', w')" and "(ori', user') \<noteq> (ori, user)"
  shows "hinted ops s' ori' user' = hinted ops s ori' user'"
proof (cases "ori' = ori")
  case True
  with assms show ?thesis by (auto intro: upsert_other_user)
next
  case False
  with assms upsert_other_origin show ?thesis by (simp add: hinted_def)
qed

lemma upsert_listed:
  "so_upsert ops ori user pw lab s w = (Inr (), s', w') \<Longrightarrow> ori \<in> set (so_list_origins ops s')"
  using upsert_hinted by (force simp: listed_origins hinted_def)

lemma hinted_listed:
  "hinted ops s ori user \<noteq> None \<longleftrightarrow> user \<in> cs_username ` set (so_list_credentials ops s ori)"
proof -
  have "user \<in> cs_username ` set (so_list_credentials ops s ori) \<longleftrightarrow>
        user \<in> set (map cm_username (so_find_by_origin ops s ori))"
    by (simp flip: listed_users)
  also have "\<dots> \<longleftrightarrow> hinted ops s ori user \<noteq> None"
    by (auto simp: hinted_def find_None_iff)
  finally show ?thesis by simp
qed

end

end
