(* ===== verification/Engine.thy ===== *)
theory Engine
  imports Approval Message Origin Session Password CredentialStore
begin

text \<open>
  The protocol engine (\<open>logic/vaults-bridge-core/src/engine.rs\<close>): it routes a parsed
  request to the store, the session and the approver. A handler that awaits the user is
  cut at its \<open>await\<close>: \<open>dispatch\<close> runs a request up to there and returns what to ask and a
  continuation (the variables alive across the await), \<open>resume\<close> runs the rest with the
  decision. Between the two, other requests and the UI may run. The store is the
  dictionary of \<open>CredentialStore\<close>; the hook persists the store. A generator that never
  finishes makes \<open>resume\<close> the value \<open>None\<close>.
\<close>

section \<open>Constants and configuration\<close>

definition SESSION_INFO :: bytes where "SESSION_INFO = as_bytes ''vaults-bridge v1 session''"
definition DEFAULT_IDLE_MS :: u64 where "DEFAULT_IDLE_MS = 15 * 60 * 1000"
definition MIN_GENERATED_LENGTH :: u32 where "MIN_GENERATED_LENGTH = 16"
definition MAX_GENERATED_LENGTH :: u32 where "MAX_GENERATED_LENGTH = 64"
definition DEFAULT_GENERATED_LENGTH :: u32 where "DEFAULT_GENERATED_LENGTH = 24"
definition MAX_ORIGIN_BYTES :: nat where "MAX_ORIGIN_BYTES = 512"
definition MAX_USERNAME_BYTES :: nat where "MAX_USERNAME_BYTES = 256"
definition MAX_LABEL_BYTES :: nat where "MAX_LABEL_BYTES = 128"
definition MAX_PASSWORD_BYTES :: nat where "MAX_PASSWORD_BYTES = 512"

record 's engine =
  en_store :: 's
  en_session :: session
  en_idle_ms :: u64        \<comment> \<open>\<open>EngineConfig\<close>\<close>

definition engine_new :: "'s \<Rightarrow> u64 \<Rightarrow> 's engine" where
  "engine_new s idle = \<lparr>en_store = s, en_session = session_new, en_idle_ms = idle\<rparr>"

text \<open>The hook: \<open>False\<close> is \<open>Err(PersistError)\<close>.\<close>

type_synonym ('s, 'w) on_write_hook = "'s \<Rightarrow> 'w \<Rightarrow> bool \<times> 'w"

section \<open>Checks\<close>

fun map_session_err :: "session_error \<Rightarrow> engine_error" where
  "map_session_err (NonceReusedErr _ _) = (NonceReused, ''nonce reused'')"
| "map_session_err ExpiredErr = (SessionExpired, ''session expired'')"
| "map_session_err NotActive = (SessionExpired, ''session not active'')"
| "map_session_err InvalidPubkey = (InvalidRequest, ''invalid public key'')"
| "map_session_err BadHex = (InvalidRequest, ''invalid hex'')"
| "map_session_err SealFailed = (Internal, ''seal failed'')"
| "map_session_err OpenFailed = (Internal, ''open failed'')"

definition canonicalize_origin :: "'l libs_scheme \<Rightarrow> string \<Rightarrow> engine_error + string" where
  "canonicalize_origin L input =
     (if length input > MAX_ORIGIN_BYTES then Inl (InvalidRequest, ''origin too long'')
      else case origin_parse L input of
             Inl _ \<Rightarrow> Inl (InvalidRequest, ''invalid origin'')
           | Inr parsed \<Rightarrow> Inr (as_str parsed))"

definition check_str_len :: "string \<Rightarrow> string \<Rightarrow> nat \<Rightarrow> engine_error + unit" where
  "check_str_len name s limit =
     (if length s > limit then Inl (InvalidRequest, name @ '' too long'') else Inr ())"

text \<open>\<open>if let Some(s) = s { check_str_len(name, s, max)?; }\<close>\<close>

definition check_opt_len :: "string \<Rightarrow> string option \<Rightarrow> nat \<Rightarrow> engine_error + unit" where
  "check_opt_len name s limit = (case s of None \<Rightarrow> Inr () | Some x \<Rightarrow> check_str_len name x limit)"

text \<open>The checks on user name and label that \<open>store\<close> and \<open>generate\<close> make after the origin.\<close>

definition check_names :: "string \<Rightarrow> string option \<Rightarrow> engine_error + unit" where
  "check_names username label =
     (if username = [] then Inl (InvalidRequest, ''username is required'')
      else case check_str_len ''username'' username MAX_USERNAME_BYTES of
             Inl e \<Rightarrow> Inl e
           | Inr _ \<Rightarrow> check_opt_len ''label'' label MAX_LABEL_BYTES)"

definition gate_session :: "u64 \<Rightarrow> u64 \<Rightarrow> 's engine \<Rightarrow> (engine_error + unit) \<times> 's engine" where
  "gate_session request_nonce now_ms en =
     (case check_idle now_ms (en_idle_ms en) (en_session en) of
        (True, s) \<Rightarrow> (Inl (SessionExpired, ''session idle timeout''), en\<lparr>en_session := s\<rparr>)
      | (False, s) \<Rightarrow>
          (case accept_nonce request_nonce now_ms s of
             (Inl e, s') \<Rightarrow> (Inl (map_session_err e), en\<lparr>en_session := s'\<rparr>)
           | (Inr _, s') \<Rightarrow> (Inr (), en\<lparr>en_session := s'\<rparr>)))"

definition gate_active_session :: "u64 \<Rightarrow> 's engine \<Rightarrow> (engine_error + unit) \<times> 's engine" where
  "gate_active_session now_ms en =
     (if \<not> is_active (en_session en) then (Inl (SessionExpired, ''session not active''), en)
      else case check_idle now_ms (en_idle_ms en) (en_session en) of
             (True, s) \<Rightarrow> (Inl (SessionExpired, ''session idle timeout''), en\<lparr>en_session := s\<rparr>)
           | (False, s) \<Rightarrow> (Inr (), en\<lparr>en_session := s\<rparr>))"

section \<open>Suspended handlers\<close>

text \<open>The variables of a handler that live across its \<open>await\<close>.\<close>

datatype kont =
    AfterRelease string string u64                       \<comment> \<open>user name, password, \<open>now_ms\<close>\<close>
  | AfterStore string string "string option" string store_action
      \<comment> \<open>canonical origin, user name, label, password, \<open>store_action\<close>\<close>
  | AfterGenerate string string "string option" nat charset_hint store_action u64
      \<comment> \<open>canonical origin, user name, label, length, charset, \<open>store_action\<close>, \<open>now_ms\<close>\<close>

datatype outcome =
    Done "engine_error + response_body"
  | Ask approval_request kont
  | CancelPending                                        \<comment> \<open>\<open>cancel_pending()\<close>, then \<open>Empty\<close>\<close>

fun store_actions :: "existing_credential \<Rightarrow> approval_action \<times> store_action" where
  "store_actions NoCredential = (Save, Saved)"
| "store_actions Live = (Update, Updated)"
| "store_actions Archived = (RestoreAndUpdate, RestoredAndUpdated)"

fun generate_actions :: "existing_credential \<Rightarrow> approval_action \<times> store_action" where
  "generate_actions NoCredential = (Generate, Saved)"
| "generate_actions Live = (GenerateAndUpdate, Updated)"
| "generate_actions Archived = (GenerateAndRestore, RestoredAndUpdated)"

text \<open>The record a release is about.\<close>

definition choose_credential ::
  "credential_match list \<Rightarrow> string option \<Rightarrow> engine_error + credential_match"
where
  "choose_credential candidates username_hint =
     (if candidates = [] then Inl (UnknownOrigin, ''no records for origin'')
      else case username_hint of
             Some h \<Rightarrow>
               (case find (\<lambda>r. cm_username r = h) candidates of
                  None \<Rightarrow> Inl (UnknownOrigin, ''no matching username for origin'')
                | Some r \<Rightarrow> Inr r)
           | None \<Rightarrow>
               (if length candidates = 1 then Inr (candidates ! 0)
                else Inl (MultipleMatches, ''multiple credentials match this origin'')))"

section \<open>Handlers up to the await\<close>

definition release_begin ::
  "'l libs_scheme \<Rightarrow> ('s, 'p, 'w) store_ops \<Rightarrow> release_params \<Rightarrow> u64 \<Rightarrow> 's engine \<Rightarrow> outcome \<times> 's engine"
where
  "release_begin L ops p now_ms en =
     (case canonicalize_origin L (rp_origin p) of
        Inl e \<Rightarrow> (Done (Inl e), en)
      | Inr canonical \<Rightarrow>
     (case check_opt_len ''username_hint'' (rp_username_hint p) MAX_USERNAME_BYTES of
        Inl e \<Rightarrow> (Done (Inl e), en)
      | Inr _ \<Rightarrow>
     (case gate_session (rp_request_nonce p) now_ms en of
        (Inl e, en1) \<Rightarrow> (Done (Inl e), en1)
      | (Inr _, en1) \<Rightarrow>
     (case choose_credential (so_find_by_origin ops (en_store en1) canonical) (rp_username_hint p) of
        Inl e \<Rightarrow> (Done (Inl e), en1)
      | Inr chosen \<Rightarrow>
          (Ask \<lparr>ar_action = Release, ar_origin = canonical, ar_username = cm_username chosen,
                ar_request_nonce = rp_request_nonce p\<rparr>
             (AfterRelease (cm_username chosen) (cm_password chosen) now_ms), en1)))))"

definition store_begin ::
  "'l libs_scheme \<Rightarrow> ('s, 'p, 'w) store_ops \<Rightarrow> store_params \<Rightarrow> u64 \<Rightarrow> 's engine \<Rightarrow> outcome \<times> 's engine"
where
  "store_begin L ops p now_ms en =
     (case canonicalize_origin L (sp_origin p) of
        Inl e \<Rightarrow> (Done (Inl e), en)
      | Inr canonical \<Rightarrow>
     (case check_names (sp_username p) (sp_label p) of
        Inl e \<Rightarrow> (Done (Inl e), en)
      | Inr _ \<Rightarrow>
     (case gate_session (sp_request_nonce p) now_ms en of
        (Inl e, en1) \<Rightarrow> (Done (Inl e), en1)
      | (Inr _, en1) \<Rightarrow>
     (case open_sealed L (sp_password_sealed p) now_ms (en_session en1) of
        (Inl e, s) \<Rightarrow> (Done (Inl (map_session_err e)), en1\<lparr>en_session := s\<rparr>)
      | (Inr bs, s) \<Rightarrow>
     (let en2 = en1\<lparr>en_session := s\<rparr> in
      case from_utf8 bs of
        None \<Rightarrow> (Done (Inl (InvalidRequest, ''password is not utf-8'')), en2)
      | Some password_plain \<Rightarrow>
          (if length password_plain > MAX_PASSWORD_BYTES
           then (Done (Inl (InvalidRequest, ''password too long'')), en2)
           else case store_actions (so_probe ops (en_store en2) canonical (sp_username p)) of
                  (action, store_action) \<Rightarrow>
                    (Ask \<lparr>ar_action = action, ar_origin = canonical, ar_username = sp_username p,
                          ar_request_nonce = sp_request_nonce p\<rparr>
                       (AfterStore canonical (sp_username p) (sp_label p) password_plain store_action),
                     en2)))))))"

text \<open>\<open>length.unwrap_or(DEFAULT).clamp(MIN, MAX)\<close>\<close>

definition clamp_length :: "u32 option \<Rightarrow> u32" where
  "clamp_length l =
     (let n = (case l of None \<Rightarrow> DEFAULT_GENERATED_LENGTH | Some n \<Rightarrow> n) in
      if n < MIN_GENERATED_LENGTH then MIN_GENERATED_LENGTH
      else if n > MAX_GENERATED_LENGTH then MAX_GENERATED_LENGTH else n)"

definition generate_begin ::
  "'l libs_scheme \<Rightarrow> ('s, 'p, 'w) store_ops \<Rightarrow> generate_params \<Rightarrow> u64 \<Rightarrow> 's engine \<Rightarrow> outcome \<times> 's engine"
where
  "generate_begin L ops p now_ms en =
     (case canonicalize_origin L (gp_origin p) of
        Inl e \<Rightarrow> (Done (Inl e), en)
      | Inr canonical \<Rightarrow>
     (case check_names (gp_username p) (gp_label p) of
        Inl e \<Rightarrow> (Done (Inl e), en)
      | Inr _ \<Rightarrow>
     (case gate_session (gp_request_nonce p) now_ms en of
        (Inl e, en1) \<Rightarrow> (Done (Inl e), en1)
      | (Inr _, en1) \<Rightarrow>
     (let len = clamp_length (gp_length p);
          charset = (case gp_charset p of None \<Rightarrow> charset_hint_default | Some c \<Rightarrow> c)
      in if \<not> (ch_letters charset \<or> ch_digits charset \<or> ch_symbols charset)
         then (Done (Inl (BadPolicy, ''at least one charset class must be enabled'')), en1)
         else case generate_actions (so_probe ops (en_store en1) canonical (gp_username p)) of
                (action, store_action) \<Rightarrow>
                  (Ask \<lparr>ar_action = action, ar_origin = canonical, ar_username = gp_username p,
                        ar_request_nonce = gp_request_nonce p\<rparr>
                     (AfterGenerate canonical (gp_username p) (gp_label p) (unat len) charset
                        store_action now_ms), en1)))))"

definition wire_summary_of :: "credential_summary \<Rightarrow> wire_summary" where
  "wire_summary_of c =
     \<lparr>ws_username = cs_username c, ws_label = cs_label c, ws_last_used_at = cs_last_used_at c\<rparr>"

text \<open>Newest use first, then by user name; \<open>sort_by\<close> is stable, as \<open>sort_key\<close> is.\<close>

definition sort_summaries :: "wire_summary list \<Rightarrow> wire_summary list" where
  "sort_summaries = sort_key (\<lambda>c. (- uint (ws_last_used_at c), ws_username c))"

fun dispatch ::
  "'l libs_scheme \<Rightarrow> ('s, 'p, 'z world_scheme) store_ops \<Rightarrow> wire_method \<Rightarrow> u64 \<Rightarrow> 's engine \<Rightarrow>
   'z world_scheme \<Rightarrow> outcome \<times> 's engine \<times> 'z world_scheme"
where
  "dispatch L ops Ping now_ms en w = (Done (Inr (Pong True)), en, w)"
| "dispatch L ops (EstablishSession host_pubkey) now_ms en w =
     (case accept L host_pubkey SESSION_INFO now_ms (en_session en) w of
        (Inl e, s, w') \<Rightarrow> (Done (Inl (map_session_err e)), en\<lparr>en_session := s\<rparr>, w')
      | (Inr device_pubkey, s, w') \<Rightarrow>
          (Done (Inr (SessionEstablished device_pubkey)), en\<lparr>en_session := s\<rparr>, w'))"
| "dispatch L ops ListOrigins now_ms en w =
     (case gate_active_session now_ms en of
        (Inl e, en1) \<Rightarrow> (Done (Inl e), en1, w)
      | (Inr _, en1) \<Rightarrow>
          (Done (Inr (OriginsListed (sort (so_list_origins ops (en_store en1))))), en1, w))"
| "dispatch L ops (ListCredentials origin) now_ms en w =
     (case gate_active_session now_ms en of
        (Inl e, en1) \<Rightarrow> (Done (Inl e), en1, w)
      | (Inr _, en1) \<Rightarrow>
          (case canonicalize_origin L origin of
             Inl e \<Rightarrow> (Done (Inl e), en1, w)
           | Inr canonical \<Rightarrow>
               (Done (Inr (CredentialsListed (sort_summaries
                  (map wire_summary_of (so_list_credentials ops (en_store en1) canonical))))), en1, w)))"
| "dispatch L ops (ReleaseCredential p) now_ms en w =
     (case release_begin L ops p now_ms en of (r, en1) \<Rightarrow> (r, en1, w))"
| "dispatch L ops (StoreCredential p) now_ms en w =
     (case store_begin L ops p now_ms en of (r, en1) \<Rightarrow> (r, en1, w))"
| "dispatch L ops (GeneratePassword p) now_ms en w =
     (case generate_begin L ops p now_ms en of (r, en1) \<Rightarrow> (r, en1, w))"
| "dispatch L ops Cancel now_ms en w = (CancelPending, en, w)"

section \<open>Handlers after the await\<close>

text \<open>
  \<open>commit_store_mutation\<close> applied to \<open>store.upsert(..).map_err(..)\<close>: snapshot, mutate,
  persist, and put the snapshot back when persisting fails.
\<close>

definition commit_store_mutation ::
  "('s, 'p, 'w) store_ops \<Rightarrow> ('s, 'w) on_write_hook \<Rightarrow>
   ('s \<Rightarrow> 'w \<Rightarrow> (engine_error + unit) \<times> 's \<times> 'w) \<Rightarrow> 's engine \<Rightarrow> 'w \<Rightarrow>
   (engine_error + unit) \<times> 's engine \<times> 'w"
where
  "commit_store_mutation ops hook mutate en w =
     (let snapshot = so_snapshot ops (en_store en) in
      case mutate (en_store en) w of
        (Inl e, s, w1) \<Rightarrow> (Inl e, en\<lparr>en_store := s\<rparr>, w1)
      | (Inr r, s, w1) \<Rightarrow>
          (case hook s w1 of
             (True, w2) \<Rightarrow> (Inr r, en\<lparr>en_store := s\<rparr>, w2)
           | (False, w2) \<Rightarrow>
               (Inl (Internal, ''persist failed''),
                en\<lparr>en_store := so_restore_snapshot ops snapshot s\<rparr>, w2)))"

definition upsert_mutation ::
  "('s, 'p, 'w) store_ops \<Rightarrow> string \<Rightarrow> string \<Rightarrow> string \<Rightarrow> string option \<Rightarrow> 's \<Rightarrow> 'w \<Rightarrow>
   (engine_error + unit) \<times> 's \<times> 'w"
where
  "upsert_mutation ops canonical username password label s w =
     (case so_upsert ops canonical username password label s w of
        (Inl _, s', w') \<Rightarrow> (Inl (Internal, ''store backend''), s', w')
      | (Inr _, s', w') \<Rightarrow> (Inr (), s', w'))"

text \<open>The two decisions that end a handler.\<close>

fun decision_error :: "approval_decision \<Rightarrow> engine_error option" where
  "decision_error Approve = None"
| "decision_error Reject = Some (UserRejected, ''user rejected'')"
| "decision_error Timeout = Some (TimedOut, ''approval timed out'')"

definition seal_password ::
  "'l libs_scheme \<Rightarrow> string \<Rightarrow> u64 \<Rightarrow> 's engine \<Rightarrow> 'z world_scheme \<Rightarrow>
   (engine_error + string) \<times> 's engine \<times> 'z world_scheme"
where
  "seal_password L password now_ms en w =
     (case seal L (as_bytes password) now_ms (en_session en) w of
        (Inl e, s, w') \<Rightarrow> (Inl (map_session_err e), en\<lparr>en_session := s\<rparr>, w')
      | (Inr h, s, w') \<Rightarrow> (Inr h, en\<lparr>en_session := s\<rparr>, w'))"

fun resume_approved ::
  "'l libs_scheme \<Rightarrow> ('s, 'p, 'z world_scheme) store_ops \<Rightarrow> ('s, 'z world_scheme) on_write_hook \<Rightarrow>
   kont \<Rightarrow> 's engine \<Rightarrow> 'z world_scheme \<Rightarrow>
   ((engine_error + response_body) \<times> 's engine \<times> 'z world_scheme) option"
where
  "resume_approved L ops hook (AfterRelease username password now_ms) en w =
     (case seal_password L password now_ms en w of
        (Inl e, en1, w1) \<Rightarrow> Some (Inl e, en1, w1)
      | (Inr h, en1, w1) \<Rightarrow> Some (Inr (CredentialReleased username h), en1, w1))"
| "resume_approved L ops hook (AfterStore canonical username label password act) en w =
     (case commit_store_mutation ops hook (upsert_mutation ops canonical username password label) en w of
        (Inl e, en1, w1) \<Rightarrow> Some (Inl e, en1, w1)
      | (Inr _, en1, w1) \<Rightarrow> Some (Inr (CredentialStored act), en1, w1))"
| "resume_approved L ops hook (AfterGenerate canonical username label len charset act now_ms) en w =
     (case generate_password len charset w of
        None \<Rightarrow> None
      | Some (password, w0) \<Rightarrow>
          (case commit_store_mutation ops hook
                  (upsert_mutation ops canonical username password label) en w0 of
             (Inl e, en1, w1) \<Rightarrow> Some (Inl e, en1, w1)
           | (Inr _, en1, w1) \<Rightarrow>
               (case seal_password L password now_ms en1 w1 of
                  (Inl e, en2, w2) \<Rightarrow> Some (Inl e, en2, w2)
                | (Inr h, en2, w2) \<Rightarrow> Some (Inr (PasswordGenerated h act), en2, w2))))"

definition resume ::
  "'l libs_scheme \<Rightarrow> ('s, 'p, 'z world_scheme) store_ops \<Rightarrow> ('s, 'z world_scheme) on_write_hook \<Rightarrow>
   kont \<Rightarrow> approval_decision \<Rightarrow> 's engine \<Rightarrow> 'z world_scheme \<Rightarrow>
   ((engine_error + response_body) \<times> 's engine \<times> 'z world_scheme) option"
where
  "resume L ops hook k d en w =
     (case decision_error d of
        Some e \<Rightarrow> Some (Inl e, en, w)
      | None \<Rightarrow> resume_approved L ops hook k en w)"

section \<open>Whole requests\<close>

fun respond :: "string \<Rightarrow> engine_error + response_body \<Rightarrow> response" where
  "respond i (Inr body) = RespOk i body"
| "respond i (Inl (code, message)) = RespErr i (error_code_i32 code) message"

text \<open>
  One request to its end, as on a transport that serves one request at a time; \<open>decide\<close>
  is what the approver answers.
\<close>

definition handle ::
  "'l libs_scheme \<Rightarrow> ('s, 'p, 'z world_scheme) store_ops \<Rightarrow> ('s, 'z world_scheme) on_write_hook \<Rightarrow>
   (approval_request \<Rightarrow> approval_decision) \<Rightarrow> request \<Rightarrow> u64 \<Rightarrow> 's engine \<Rightarrow> 'z world_scheme \<Rightarrow>
   (response \<times> 's engine \<times> 'z world_scheme) option"
where
  "handle L ops hook decide req now_ms en w =
     (case dispatch L ops (rq_method req) now_ms en w of
        (Done r, en1, w1) \<Rightarrow> Some (respond (rq_id req) r, en1, w1)
      | (CancelPending, en1, w1) \<Rightarrow> Some (respond (rq_id req) (Inr Empty), en1, w1)
      | (Ask ar k, en1, w1) \<Rightarrow>
          map_option (\<lambda>(r, en2, w2). (respond (rq_id req) r, en2, w2))
            (resume L ops hook k (decide ar) en1 w1))"


lemma respond_Ok_iff [simp]: "respond i r = RespOk j b \<longleftrightarrow> j = i \<and> r = Inr b"
  by (cases r) auto

lemma respond_Err_iff [simp]:
  "respond i r = RespErr j c m \<longleftrightarrow> j = i \<and> (\<exists>code. r = Inl (code, m) \<and> c = error_code_i32 code)"
  by (cases r) auto

lemma respond_Ok_iff' [simp]: "RespOk j b = respond i r \<longleftrightarrow> j = i \<and> r = Inr b"
  by (cases r) auto

lemma response_id_respond [simp]: "response_id (respond i r) = i"
  by (cases r) auto

lemmas begin_defs = release_begin_def store_begin_def generate_begin_def

section \<open>Gates\<close>

lemma gate_session_frame:
  "gate_session n now en = (r, en') \<Longrightarrow> en_store en' = en_store en \<and> en_idle_ms en' = en_idle_ms en"
  by (auto simp: gate_session_def split: prod.splits bool.splits sum.splits)

text \<open>A request passes the gate exactly with an active, not idle session and a fresh nonce.\<close>

lemma gate_session_Inr:
  "gate_session n now en = (Inr (), en') \<longleftrightarrow>
   ss_state (en_session en) = Active \<and> \<not> fst (check_idle now (en_idle_ms en) (en_session en)) \<and>
   ss_last_nonce (en_session en) < n \<and>
   en' = en\<lparr>en_session := (en_session en)\<lparr>ss_last_nonce := n, ss_last_activity := now\<rparr>\<rparr>"
proof (cases "check_idle now (en_idle_ms en) (en_session en)")
  case (Pair b s)
  show ?thesis
  proof (cases b)
    case False
    with Pair have s: "s = en_session en" by (auto dest: check_idle_false)
    show ?thesis
    proof (cases "accept_nonce n now s")
      case acc: (Pair r s')
      then show ?thesis
        using False Pair s accept_nonce_Inr [of n now s s'] accept_nonce_Inr [of n now s]
        by (auto simp: gate_session_def split: sum.splits)
    qed
  qed (use Pair in \<open>auto simp: gate_session_def\<close>)
qed

lemma gate_session_inactive:
  "ss_state (en_session en) \<noteq> Active \<Longrightarrow>
   gate_session n now en = (Inl (SessionExpired, ''session not active''), en)"
  by (simp add: gate_session_def check_idle_def accept_nonce_def)

lemma gate_active_inactive:
  "ss_state (en_session en) \<noteq> Active \<Longrightarrow>
   gate_active_session now en = (Inl (SessionExpired, ''session not active''), en)"
  by (simp add: gate_active_session_def is_active_def)

lemma gate_active_frame:
  "gate_active_session now en = (r, en') \<Longrightarrow> en_store en' = en_store en \<and> en_idle_ms en' = en_idle_ms en"
  by (auto simp: gate_active_session_def split: prod.splits bool.splits if_splits)

lemma gate_session_inv:
  "session_inv (en_session en) \<Longrightarrow> gate_session n now en = (r, en') \<Longrightarrow> session_inv (en_session en')"
  by (auto simp: gate_session_def split: prod.splits bool.splits sum.splits
      intro: check_idle_inv accept_nonce_inv)

lemma gate_active_inv:
  "session_inv (en_session en) \<Longrightarrow> gate_active_session now en = (r, en') \<Longrightarrow> session_inv (en_session en')"
  by (auto simp: gate_active_session_def split: prod.splits bool.splits if_splits intro: check_idle_inv)

section \<open>A request up to its await\<close>

text \<open>No request changes the store before the user has answered.\<close>

lemma dispatch_frame:
  "dispatch L ops m now en w = (out, en', w') \<Longrightarrow>
   en_store en' = en_store en \<and> en_idle_ms en' = en_idle_ms en"
  by (cases m)
    (auto simp: begin_defs Let_def split: sum.splits prod.splits option.splits if_splits
      dest!: gate_session_frame gate_active_frame)

lemma dispatch_session_inv:
  assumes "hkdf_ok L" and "session_inv (en_session en)" and "dispatch L ops m now en w = (out, en', w')"
  shows "session_inv (en_session en')"
proof (cases m)
  case (EstablishSession h)
  then show ?thesis using assms by (auto split: sum.splits prod.splits intro: accept_inv)
next
  case (StoreCredential p)
  then show ?thesis using assms(2,3)
    by (auto simp: store_begin_def Let_def split: sum.splits prod.splits option.splits if_splits
        intro: gate_session_inv open_inv)
qed (use assms in \<open>auto simp: release_begin_def generate_begin_def Let_def
        split: sum.splits prod.splits option.splits if_splits intro: gate_session_inv gate_active_inv\<close>)

text \<open>What a suspended handler knows of the store and of the card it asked for.\<close>

fun kont_for :: "('s, 'p, 'w) store_ops \<Rightarrow> 's \<Rightarrow> approval_request \<Rightarrow> kont \<Rightarrow> bool" where
  "kont_for ops s ar (AfterRelease user pw now) \<longleftrightarrow>
     ar_action ar = Release \<and> ar_username ar = user \<and>
     \<lparr>cm_username = user, cm_password = pw\<rparr> \<in> set (so_find_by_origin ops s (ar_origin ar))"
| "kont_for ops s ar (AfterStore ori user lab pw act) \<longleftrightarrow>
     ar_origin ar = ori \<and> ar_username ar = user \<and>
     (ar_action ar, act) = store_actions (so_probe ops s ori user)"
| "kont_for ops s ar (AfterGenerate ori user lab len charset act now) \<longleftrightarrow>
     ar_origin ar = ori \<and> ar_username ar = user \<and>
     (ar_action ar, act) = generate_actions (so_probe ops s ori user) \<and>
     16 \<le> len \<and> len \<le> 64 \<and> charset_alphabet charset \<noteq> []"

lemma choose_credential_mem: "choose_credential cs h = Inr r \<Longrightarrow> r \<in> set cs"
  by (auto simp: choose_credential_def split: if_splits option.splits dest: find_Some_set)

lemma clamp_length_bounds: "16 \<le> unat (clamp_length l) \<and> unat (clamp_length l) \<le> 64"
proof -
  have "16 \<le> clamp_length l \<and> clamp_length l \<le> 64"
    by (auto simp: clamp_length_def Let_def MIN_GENERATED_LENGTH_def MAX_GENERATED_LENGTH_def)
  then show ?thesis by (simp add: word_le_nat_alt)
qed

lemma charset_nonempty:
  "ch_letters c \<or> ch_digits c \<or> ch_symbols c \<Longrightarrow> charset_alphabet c \<noteq> []"
  by (auto simp: charset_alphabet_def charset_classes_def LETTERS_def DIGITS_def SYMBOLS_def as_bytes_def)

lemma match_collapse [simp]: "\<lparr>cm_username = cm_username r, cm_password = cm_password r\<rparr> = r"
  by (cases r) simp

lemma dispatch_Ask:
  assumes "dispatch L ops m now en w = (Ask ar k, en', w')"
  shows "kont_for ops (en_store en) ar k \<and> w' = w \<and> ss_state (en_session en) = Active \<and>
         \<not> fst (check_idle now (en_idle_ms en) (en_session en)) \<and>
         ss_last_nonce (en_session en) < ar_request_nonce ar \<and>
         ss_state (en_session en') = Active \<and> ss_key (en_session en') = ss_key (en_session en) \<and>
         ss_last_nonce (en_session en') = ar_request_nonce ar \<and> ss_last_activity (en_session en') = now"
proof (cases m)
  case (ReleaseCredential p)
  then show ?thesis using assms
    by (auto simp: release_begin_def gate_session_Inr split: sum.splits prod.splits
        dest!: choose_credential_mem)
next
  case (StoreCredential p)
  then show ?thesis using assms
    by (auto simp: store_begin_def Let_def gate_session_Inr open_sealed_def
        split: sum.splits prod.splits option.splits if_splits)
next
  case (GeneratePassword p)
  then show ?thesis using assms clamp_length_bounds charset_nonempty
    by (auto simp: generate_begin_def Let_def gate_session_Inr
        split: sum.splits prod.splits option.splits if_splits)
qed (use assms in \<open>auto split: sum.splits prod.splits\<close>)


section \<open>Requests without an active session\<close>

definition needs_session :: "wire_method \<Rightarrow> bool" where
  "needs_session m \<longleftrightarrow>
     (case m of Ping \<Rightarrow> False | EstablishSession _ \<Rightarrow> False | Cancel \<Rightarrow> False | _ \<Rightarrow> True)"

lemma canonicalize_origin_Inl: "canonicalize_origin L s = Inl e \<Longrightarrow> fst e = InvalidRequest"
  by (auto simp: canonicalize_origin_def split: if_splits sum.splits)

lemma check_str_len_Inl: "check_str_len n s l = Inl e \<Longrightarrow> fst e = InvalidRequest"
  by (auto simp: check_str_len_def split: if_splits)

lemma check_opt_len_Inl: "check_opt_len n s l = Inl e \<Longrightarrow> fst e = InvalidRequest"
  by (auto simp: check_opt_len_def split: option.splits dest: check_str_len_Inl)

lemma check_names_Inl: "check_names u l = Inl e \<Longrightarrow> fst e = InvalidRequest"
  by (auto simp: check_names_def split: if_splits sum.splits dest: check_str_len_Inl check_opt_len_Inl)

lemmas check_Inl = canonicalize_origin_Inl check_opt_len_Inl check_names_Inl

lemma dispatch_inactive:
  assumes "ss_state (en_session en) \<noteq> Active" and "needs_session m"
    and "dispatch L ops m now en w = (out, en', w')"
  shows "(\<exists>e. out = Done (Inl e) \<and> fst e \<in> {SessionExpired, InvalidRequest}) \<and> en' = en \<and> w' = w"
  using assms
  by (cases m)
    (auto simp: needs_session_def begin_defs gate_session_inactive gate_active_inactive
      split: sum.splits prod.splits dest!: check_Inl)

section \<open>After the await\<close>

lemma resume_denied:
  "d \<noteq> Approve \<Longrightarrow>
   resume L ops hook k d en w =
     Some (Inl (if d = Reject then (UserRejected, ''user rejected'')
                else (TimedOut, ''approval timed out'')), en, w)"
  by (cases d) (simp_all add: resume_def)

lemma seal_password_frame:
  "seal_password L pw now en w = (r, en', w') \<Longrightarrow>
   en_store en' = en_store en \<and> en_idle_ms en' = en_idle_ms en \<and>
   ss_state (en_session en') = ss_state (en_session en) \<and> ss_key (en_session en') = ss_key (en_session en) \<and>
   ss_last_nonce (en_session en') = ss_last_nonce (en_session en)"
  by (auto simp: seal_password_def split: prod.splits sum.splits dest: seal_frame)

lemma seal_password_Inr:
  "seal_password L pw now en w = (Inr h, en', w') \<Longrightarrow>
   \<exists>s. seal L (as_bytes pw) now (en_session en) w = (Inr h, s, w') \<and> en' = en\<lparr>en_session := s\<rparr>"
  by (auto simp: seal_password_def split: prod.splits sum.splits)

text \<open>The codes of the three kinds of session error.\<close>

definition engine_codes :: "error_code set" where
  "engine_codes = {InvalidRequest, UnknownOrigin, UserRejected, TimedOut, SessionExpired, NonceReused,
     BadPolicy, MultipleMatches, Internal}"

lemma engine_codes_iff: "c \<in> engine_codes \<longleftrightarrow> c \<noteq> UnknownMethod \<and> c \<noteq> NotUnlocked"
  by (cases c) (simp_all add: engine_codes_def)

lemma map_session_err_codes: "fst (map_session_err e) \<in> {InvalidRequest, SessionExpired, NonceReused, Internal}"
  by (cases e) simp_all

lemma map_session_err_engine: "fst (map_session_err e) \<in> engine_codes"
  using map_session_err_codes [of e] by (auto simp: engine_codes_def)

lemma gate_codes:
  "gate_session n now en = (Inl e, en') \<Longrightarrow> fst e \<in> engine_codes"
  "gate_active_session now en = (Inl e, en') \<Longrightarrow> fst e \<in> engine_codes"
  using map_session_err_engine
  by (auto simp: gate_session_def gate_active_session_def engine_codes_def
      split: prod.splits bool.splits sum.splits if_splits)

lemma check_codes: "fst e = InvalidRequest \<Longrightarrow> fst e \<in> engine_codes"
  by (simp add: engine_codes_def)

lemma choose_codes: "choose_credential cs h = Inl e \<Longrightarrow> fst e \<in> engine_codes"
  by (auto simp: choose_credential_def engine_codes_def split: if_splits option.splits)

lemma dispatch_codes:
  "dispatch L ops m now en w = (Done (Inl e), en', w') \<Longrightarrow> fst e \<in> engine_codes"
  by (cases m)
    (auto simp: begin_defs Let_def map_session_err_engine
      split: sum.splits prod.splits option.splits if_splits
      dest: gate_codes choose_codes check_Inl [THEN check_codes], simp_all add: engine_codes_iff)

lemma commit_codes:
  "commit_store_mutation ops hook (upsert_mutation ops c u p l) en w = (Inl e, en', w') \<Longrightarrow> fst e = Internal"
  by (auto simp: commit_store_mutation_def upsert_mutation_def Let_def
      split: prod.splits sum.splits bool.splits)

lemma seal_password_codes: "seal_password L pw now en w = (Inl e, en', w') \<Longrightarrow> fst e \<in> engine_codes"
  using map_session_err_engine by (auto simp: seal_password_def split: prod.splits sum.splits)

lemma resume_codes:
  assumes "resume L ops hook k d en w = Some (Inl e, en', w')"
  shows "fst e \<in> engine_codes"
proof (cases "d = Approve")
  case True
  then have "resume_approved L ops hook k en w = Some (Inl e, en', w')"
    using assms by (simp add: resume_def)
  then show ?thesis
    by (cases k)
      (auto split: prod.splits sum.splits option.splits dest: seal_password_codes commit_codes
        simp: engine_codes_def)
next
  case False
  then show ?thesis using assms by (auto simp: resume_denied engine_codes_def split: if_splits)
qed

section \<open>Committing to a store that keeps its contract\<close>

text \<open>The contract of the store, for one whose \<open>upsert\<close> draws from the world the engine runs in.\<close>

locale engine_store = credential_store ops
  for ops :: "('s, 'p, 'z world_scheme) store_ops"
begin

text \<open>Either the upsert is in memory and persisted, or the engine is as before.\<close>

lemma commit_upsert_cases:
  assumes "commit_store_mutation ops hook (upsert_mutation ops c u p l) en w = (r, en', w')"
  obtains (committed) s w1 where "r = Inr ()" "so_upsert ops c u p l (en_store en) w = (Inr (), s, w1)"
      "hook s w1 = (True, w')" "en' = en\<lparr>en_store := s\<rparr>"
  | (undone) msg where "r = Inl (Internal, msg)" "en' = en"
proof -
  obtain r1 s w1 where u: "so_upsert ops c u p l (en_store en) w = (r1, s, w1)" using prod_cases3 by blast
  show ?thesis
  proof (cases r1)
    case (Inl e)
    then show ?thesis
      using assms u upsert_failed [of c u p l "en_store en" w e s w1]
      by (intro undone) (auto simp: commit_store_mutation_def upsert_mutation_def Let_def)
  next
    case (Inr x)
    obtain ok w2 where h: "hook s w1 = (ok, w2)" by force
    have "so_restore_snapshot ops (so_snapshot ops (en_store en)) s = en_store en"
      by (rule restore_after_upsert [OF u])
    then show ?thesis
      using assms u h Inr
      by (cases ok) (auto simp: commit_store_mutation_def upsert_mutation_def Let_def
          intro: committed undone)
  qed
qed

text \<open>An answered request changes at most the credential its card showed.\<close>

lemma resume_hinted_other:
  assumes "resume L ops hook k d en w = Some (r, en', w')" and "kont_for ops s ar k"
    and "(ori, user) \<noteq> (ar_origin ar, ar_username ar)"
  shows "hinted ops (en_store en') ori user = hinted ops (en_store en) ori user"
proof (cases "d = Approve")
  case True
  then have r: "resume_approved L ops hook k en w = Some (r, en', w')"
    using assms(1) by (simp add: resume_def)
  show ?thesis
  proof (cases k)
    case (AfterRelease u p t)
    then show ?thesis using r by (auto split: prod.splits sum.splits dest!: seal_password_frame)
  next
    case (AfterStore c u l p act)
    then obtain r1 where "commit_store_mutation ops hook (upsert_mutation ops c u p l) en w = (r1, en', w')"
      using r by (auto split: prod.splits sum.splits)
    then show ?thesis
      by (cases rule: commit_upsert_cases) (use assms(2,3) AfterStore upsert_other in auto)
  next
    case (AfterGenerate c u l len cs act t)
    then obtain p w0 r1 en1 w1 where
      cm: "commit_store_mutation ops hook (upsert_mutation ops c u p l) en w0 = (r1, en1, w1)"
      and st: "en_store en' = en_store en1"
      using r by (auto split: prod.splits sum.splits option.splits dest!: seal_password_frame)
    from cm show ?thesis unfolding st
      by (cases rule: commit_upsert_cases) (use assms(2,3) AfterGenerate upsert_other in auto)
  qed
next
  case False
  then show ?thesis using assms(1) by (simp add: resume_denied)
qed

text \<open>A stored credential is the one a release with that user name asks about.\<close>

lemma release_begin_hinted:
  assumes "canonicalize_origin L (rp_origin p) = Inr c" and "rp_username_hint p = Some u"
    and "length u \<le> MAX_USERNAME_BYTES"
    and "gate_session (rp_request_nonce p) now en = (Inr (), en1)"
    and "hinted ops (en_store en) c u = Some m"
  shows "release_begin L ops p now en =
     (Ask \<lparr>ar_action = Release, ar_origin = c, ar_username = cm_username m,
           ar_request_nonce = rp_request_nonce p\<rparr> (AfterRelease (cm_username m) (cm_password m) now), en1)"
proof -
  have st: "en_store en1 = en_store en" using gate_session_frame [OF assms(4)] by simp
  have f: "find (\<lambda>r. cm_username r = u) (so_find_by_origin ops (en_store en) c) = Some m"
    using assms(5) by (simp add: hinted_def)
  then have "so_find_by_origin ops (en_store en) c \<noteq> []" by auto
  with f assms st show ?thesis
    by (simp add: release_begin_def choose_credential_def check_opt_len_def check_str_len_def)
qed

text \<open>The approved end of a store, when the store takes the record and the hook persists it.\<close>

lemma resume_store_approved:
  assumes "so_upsert ops c u p l (en_store en) w = (Inr (), s, w1)" and "hook s w1 = (True, w2)"
  shows "resume L ops hook (AfterStore c u l p act) Approve en w =
           Some (Inr (CredentialStored act), en\<lparr>en_store := s\<rparr>, w2)"
    and "hinted ops s c u = Some \<lparr>cm_username = u, cm_password = p\<rparr>"
  using assms upsert_hinted [OF assms(1)]
  by (simp_all add: resume_def commit_store_mutation_def upsert_mutation_def Let_def)

text \<open>A failed answer leaves the store as it was.\<close>

lemma resume_store_persist_failed:
  assumes "resume L ops hook (AfterStore c u l p act) d en w = Some (Inl e, en', w')"
  shows "en' = en"
proof (cases "d = Approve")
  case True
  then obtain r where "commit_store_mutation ops hook (upsert_mutation ops c u p l) en w = (r, en', w')"
    and "r = Inl e" using assms by (auto simp: resume_def split: prod.splits sum.splits)
  then show ?thesis by (cases rule: commit_upsert_cases) auto
next
  case False
  then show ?thesis using assms by (simp add: resume_denied)
qed

end

end
