(* ===== verification/Samples.thy ===== *)
theory Samples
  imports Engine
begin

text \<open>
  Concrete values at which the properties are instantiated: an active session, a world with
  a constant random tape and clock, an engine around a given store, and one origin in two
  spellings.
\<close>

definition sample_session :: session where
  "sample_session =
     \<lparr>ss_state = Active, ss_key = Some (replicate 32 7), ss_last_nonce = 0, ss_last_activity = 1000\<rparr>"

definition sample_world :: world where
  "sample_world = \<lparr>w_rng = sconst 0, w_clock = sconst 0\<rparr>"

definition sample_engine :: "'s \<Rightarrow> 's engine" where
  "sample_engine s = \<lparr>en_store = s, en_session = sample_session, en_idle_ms = DEFAULT_IDLE_MS\<rparr>"

lemma sample_engine_sel [simp]:
  "en_store (sample_engine s) = s" "en_session (sample_engine s) = sample_session"
  "en_idle_ms (sample_engine s) = DEFAULT_IDLE_MS"
  by (simp_all add: sample_engine_def)

lemma sample_session_inv [simp]: "session_inv sample_session" "ss_state sample_session = Active"
  by (simp_all add: sample_session_def session_inv_def)

lemma unat_DEFAULT_IDLE_MS [simp]: "unat DEFAULT_IDLE_MS = 900000"
  by (simp add: DEFAULT_IDLE_MS_def)

lemma sample_sealed:
  obtains sealed s w' where "seal sample_libs p t sample_session (w :: 'z world_scheme) = (Inr sealed, s, w')"
  by (cases "fill_bytes 12 w") (auto simp: seal_def sample_session_def sample_libs_def sample_encrypt_def)

lemma sample_canonical:
  "canonicalize_origin sample_libs ''https://Example.com/login'' = Inr ''https://example.com''"
  "canonicalize_origin sample_libs ''https://example.com'' = Inr ''https://example.com''"
  by code_simp+

lemma sample_fair: "fair (w_rng sample_world)"
  by (simp add: sample_world_def fair_sconst)

lemma sample_gate:
  "0 < n \<Longrightarrow> gate_session n 2000 (sample_engine s) =
     (Inr (), (sample_engine s)\<lparr>en_session := sample_session\<lparr>ss_last_nonce := n, ss_last_activity := 2000\<rparr>\<rparr>)"
  by (simp add: gate_session_Inr check_idle_iff) (simp add: sample_session_def)

end
