(* ===== verification/Keystore.thy ===== *)
theory Keystore
  imports CredentialStore "HOL-Library.Signed_Division"
begin

text \<open>
  The keystore (\<open>logic/vaults-bridge-keystore/src/lib.rs\<close>): the vector of records with
  the device key, the operations of the user interface on it, the bulk import and restore
  loops with their conflict policies, and the implementation of the \<open>CredentialStore\<close>
  trait. Sealing and backups are in \<open>Backup\<close>.
\<close>

datatype keystore_error =
    KSealFailed
  | KOpenFailed
  | NotFound
  | NotArchived
  | BackupPassphraseRequired
  | BackupUnsupported
  | BackupMalformed
  | Serde string

record keystore =
  ks_records :: "credential_record list"
  ks_key :: bytes

record import_item =
  ii_origin :: string
  ii_username :: string
  ii_password :: string
  ii_label :: string
  ii_notes :: string

datatype import_policy = Skip | Replace | KeepBoth

record import_summary =
  is_imported :: nat
  is_skipped :: nat
  is_replaced :: nat

definition summary_zero :: import_summary where
  "summary_zero = \<lparr>is_imported = 0, is_skipped = 0, is_replaced = 0\<rparr>"

definition summary_total :: "import_summary \<Rightarrow> nat" where
  "summary_total t = is_imported t + is_skipped t + is_replaced t"

definition FIRST_AUTOMATIC_COLOR :: int where "FIRST_AUTOMATIC_COLOR = 5"
definition CARD_COLOR_COUNT :: int where "CARD_COLOR_COUNT = 9"

section \<open>Operations of the user interface\<close>

definition replace_records :: "credential_record list \<Rightarrow> keystore \<Rightarrow> keystore" where
  "replace_records rs ks = ks\<lparr>ks_records := rs\<rparr>"

definition ks_snapshot :: "keystore \<Rightarrow> credential_record list" where
  "ks_snapshot ks = ks_records ks"

definition ks_restore_snapshot :: "credential_record list \<Rightarrow> keystore \<Rightarrow> keystore" where
  "ks_restore_snapshot rs ks = ks\<lparr>ks_records := rs\<rparr>"

text \<open>\<open>(FIRST_AUTOMATIC_COLOR + len as i32) % CARD_COLOR_COUNT\<close> in \<open>i32\<close>.\<close>

definition next_automatic_color :: "keystore \<Rightarrow> int" where
  "next_automatic_color ks =
     to_i32 (FIRST_AUTOMATIC_COLOR + to_i32 (int (length (ks_records ks)))) smod CARD_COLOR_COUNT"

definition ks_add :: "credential_record \<Rightarrow> keystore \<Rightarrow> keystore" where
  "ks_add r ks = ks\<lparr>ks_records := ks_records ks @ [r]\<rparr>"

definition ks_get :: "uuid \<Rightarrow> keystore \<Rightarrow> credential_record option" where
  "ks_get i ks = find (\<lambda>r. cr_id r = i) (ks_records ks)"

text \<open>\<open>iter_mut().find(|r| r.id == id).ok_or(NotFound)?\<close> followed by assignments.\<close>

definition with_record ::
  "uuid \<Rightarrow> (credential_record \<Rightarrow> credential_record) \<Rightarrow> keystore \<Rightarrow> (keystore_error + unit) \<times> keystore"
where
  "with_record i f ks =
     (if ks_get i ks = None then (Inl NotFound, ks)
      else (Inr (), ks\<lparr>ks_records := update_first (\<lambda>r. cr_id r = i) f (ks_records ks)\<rparr>))"

definition ks_edit ::
  "uuid \<Rightarrow> string \<Rightarrow> int \<Rightarrow> string \<Rightarrow> string \<Rightarrow> keystore \<Rightarrow> (keystore_error + unit) \<times> keystore"
where
  "ks_edit i label color username password ks =
     with_record i (\<lambda>r. r\<lparr>cr_label := label, cr_color := color, cr_username := username,
                         cr_password := password\<rparr>) ks"

definition ks_set_archived :: "uuid \<Rightarrow> bool \<Rightarrow> keystore \<Rightarrow> (keystore_error + unit) \<times> keystore" where
  "ks_set_archived i archived ks = with_record i (\<lambda>r. r\<lparr>cr_archived := archived\<rparr>) ks"

definition ks_set_color :: "uuid \<Rightarrow> int \<Rightarrow> keystore \<Rightarrow> (keystore_error + unit) \<times> keystore" where
  "ks_set_color i color ks = with_record i (\<lambda>r. r\<lparr>cr_color := color\<rparr>) ks"

definition ks_delete_forever :: "uuid \<Rightarrow> keystore \<Rightarrow> (keystore_error + unit) \<times> keystore" where
  "ks_delete_forever i ks =
     (case position (\<lambda>r. cr_id r = i) (ks_records ks) of
        None \<Rightarrow> (Inl NotFound, ks)
      | Some pos \<Rightarrow>
          (if \<not> cr_archived (ks_records ks ! pos) then (Inl NotArchived, ks)
           else (Inr (), ks\<lparr>ks_records := take pos (ks_records ks) @ drop (Suc pos) (ks_records ks)\<rparr>)))"

definition live_count :: "keystore \<Rightarrow> nat" where
  "live_count ks = length (filter (\<lambda>r. \<not> cr_archived r) (ks_records ks))"

definition archived_count :: "keystore \<Rightarrow> nat" where
  "archived_count ks = length (filter cr_archived (ks_records ks))"

definition find_by_origin_records :: "keystore \<Rightarrow> string \<Rightarrow> credential_record list" where
  "find_by_origin_records ks ori = filter (\<lambda>r. cr_origin r = ori) (ks_records ks)"

section \<open>Bulk import\<close>

definition matches_key :: "string \<Rightarrow> string \<Rightarrow> credential_record \<Rightarrow> bool" where
  "matches_key ori user r \<longleftrightarrow> cr_origin r = ori \<and> cr_username r = user"

definition import_notes :: "import_item \<Rightarrow> credential_record \<Rightarrow> credential_record" where
  "import_notes item r = (if ii_notes item \<noteq> [] then r\<lparr>cr_notes := Some (ii_notes item)\<rparr> else r)"

text \<open>The label of an import that is kept beside an existing record.\<close>

definition imported_label :: "string \<Rightarrow> string" where
  "imported_label l = (if l = [] then ''(imported)'' else l @ '' (imported)'')"

text \<open>The \<open>Replace\<close> arm, on the matching record.\<close>

definition import_replace :: "import_item \<Rightarrow> credential_record \<Rightarrow> credential_record" where
  "import_replace item r =
     (let r1 = r\<lparr>cr_password := ii_password item\<rparr>;
          r2 = (if ii_label item \<noteq> [] then r1\<lparr>cr_label := ii_label item\<rparr> else r1);
          r3 = import_notes item r2
      in r3\<lparr>cr_archived := False\<rparr>)"

text \<open>A new record for an item, with the next automatic colour.\<close>

definition import_insert ::
  "'l libs_scheme \<Rightarrow> (string \<Rightarrow> string) \<Rightarrow> import_item \<Rightarrow> keystore \<Rightarrow> 'z world_scheme \<Rightarrow>
   keystore \<times> 'z world_scheme"
where
  "import_insert L mk_label item ks w =
     (case credential_record_new L (ii_origin item) (ii_username item) (ii_password item) w of (r, w') \<Rightarrow>
        (ks_add (import_notes item (r\<lparr>cr_color := next_automatic_color ks,
                                      cr_label := mk_label (ii_label item)\<rparr>)) ks, w'))"

definition import_one ::
  "'l libs_scheme \<Rightarrow> import_policy \<Rightarrow> import_item \<Rightarrow> keystore \<Rightarrow> import_summary \<Rightarrow> 'z world_scheme \<Rightarrow>
   keystore \<times> import_summary \<times> 'z world_scheme"
where
  "import_one L policy item ks t w =
     (case (position (matches_key (ii_origin item) (ii_username item)) (ks_records ks), policy) of
        (Some _, Skip) \<Rightarrow> (ks, t\<lparr>is_skipped := is_skipped t + 1\<rparr>, w)
      | (Some idx, Replace) \<Rightarrow>
          (ks\<lparr>ks_records := (ks_records ks)[idx := import_replace item (ks_records ks ! idx)]\<rparr>,
           t\<lparr>is_replaced := is_replaced t + 1\<rparr>, w)
      | (Some _, KeepBoth) \<Rightarrow>
          (case import_insert L imported_label item ks w of (ks', w') \<Rightarrow>
             (ks', t\<lparr>is_imported := is_imported t + 1\<rparr>, w'))
      | (None, _) \<Rightarrow>
          (case import_insert L (\<lambda>l. l) item ks w of (ks', w') \<Rightarrow>
             (ks', t\<lparr>is_imported := is_imported t + 1\<rparr>, w')))"

fun import_loop ::
  "'l libs_scheme \<Rightarrow> import_policy \<Rightarrow> import_item list \<Rightarrow> keystore \<Rightarrow> import_summary \<Rightarrow> 'z world_scheme \<Rightarrow>
   keystore \<times> import_summary \<times> 'z world_scheme"
where
  "import_loop L policy [] ks t w = (ks, t, w)"
| "import_loop L policy (item # items) ks t w =
     (case import_one L policy item ks t w of (ks', t', w') \<Rightarrow> import_loop L policy items ks' t' w')"

definition import_many ::
  "'l libs_scheme \<Rightarrow> import_item list \<Rightarrow> import_policy \<Rightarrow> keystore \<Rightarrow> 'z world_scheme \<Rightarrow>
   keystore \<times> import_summary \<times> 'z world_scheme"
where
  "import_many L items policy ks w = import_loop L policy items ks summary_zero w"

section \<open>Restoring backup records\<close>

definition id_used :: "credential_record list \<Rightarrow> uuid \<Rightarrow> bool" where
  "id_used rs i \<longleftrightarrow> list_ex (\<lambda>r. cr_id r = i) rs"

text \<open>The \<open>loop\<close> that draws identifiers until one is unused: \<open>None\<close> is "never returns".\<close>

partial_function (option) fresh_id ::
  "'l libs_scheme \<Rightarrow> credential_record list \<Rightarrow> 'z world_scheme \<Rightarrow> (uuid \<times> 'z world_scheme) option"
where
  "fresh_id L rs w =
     (case uuid_new_v4 L w of (i, w') \<Rightarrow> if \<not> id_used rs i then Some (i, w') else fresh_id L rs w')"

definition unique_record_id ::
  "'l libs_scheme \<Rightarrow> credential_record list \<Rightarrow> uuid \<Rightarrow> 'z world_scheme \<Rightarrow> (uuid \<times> 'z world_scheme) option"
where
  "unique_record_id L rs preferred w =
     (if \<not> id_used rs preferred then Some (preferred, w) else fresh_id L rs w)"

definition restored_label :: "string \<Rightarrow> string" where
  "restored_label l = (if l = [] then ''(restored)'' else l @ '' (restored)'')"

definition restore_one ::
  "'l libs_scheme \<Rightarrow> import_policy \<Rightarrow> credential_record \<Rightarrow> keystore \<Rightarrow> import_summary \<Rightarrow> 'z world_scheme \<Rightarrow>
   (keystore \<times> import_summary \<times> 'z world_scheme) option"
where
  "restore_one L policy incoming ks t w =
     (case (position (matches_key (cr_origin incoming) (cr_username incoming)) (ks_records ks), policy) of
        (Some _, Skip) \<Rightarrow> Some (ks, t\<lparr>is_skipped := is_skipped t + 1\<rparr>, w)
      | (Some idx, Replace) \<Rightarrow>
          Some (ks\<lparr>ks_records := (ks_records ks)[idx := incoming\<lparr>cr_id := cr_id (ks_records ks ! idx)\<rparr>]\<rparr>,
                t\<lparr>is_replaced := is_replaced t + 1\<rparr>, w)
      | (Some _, KeepBoth) \<Rightarrow>
          map_option
            (\<lambda>(i, w'). (ks_add (incoming\<lparr>cr_id := i, cr_label := restored_label (cr_label incoming)\<rparr>) ks,
                        t\<lparr>is_imported := is_imported t + 1\<rparr>, w'))
            (unique_record_id L (ks_records ks) (cr_id incoming) w)
      | (None, _) \<Rightarrow>
          map_option
            (\<lambda>(i, w'). (ks_add (incoming\<lparr>cr_id := i\<rparr>) ks, t\<lparr>is_imported := is_imported t + 1\<rparr>, w'))
            (unique_record_id L (ks_records ks) (cr_id incoming) w))"

fun restore_loop ::
  "'l libs_scheme \<Rightarrow> import_policy \<Rightarrow> credential_record list \<Rightarrow> keystore \<Rightarrow> import_summary \<Rightarrow>
   'z world_scheme \<Rightarrow> (keystore \<times> import_summary \<times> 'z world_scheme) option"
where
  "restore_loop L policy [] ks t w = Some (ks, t, w)"
| "restore_loop L policy (r # rs) ks t w =
     Option.bind (restore_one L policy r ks t w)
       (\<lambda>(ks', t', w'). restore_loop L policy rs ks' t' w')"

definition restore_many ::
  "'l libs_scheme \<Rightarrow> credential_record list \<Rightarrow> import_policy \<Rightarrow> keystore \<Rightarrow> 'z world_scheme \<Rightarrow>
   (keystore \<times> import_summary \<times> 'z world_scheme) option"
where
  "restore_many L rs policy ks w = restore_loop L policy rs ks summary_zero w"

section \<open>The CredentialStore implementation\<close>

text \<open>\<open>BTreeSet\<close> holds the distinct origins in order; the vector is then sorted.\<close>

definition ks_list_origins :: "keystore \<Rightarrow> string list" where
  "ks_list_origins ks =
     sort (sort (remdups (map cr_origin (filter (\<lambda>r. \<not> cr_archived r) (ks_records ks)))))"

definition live_at :: "string \<Rightarrow> credential_record \<Rightarrow> bool" where
  "live_at ori r \<longleftrightarrow> \<not> cr_archived r \<and> cr_origin r = ori"

definition ks_list_credentials_for_origin :: "keystore \<Rightarrow> string \<Rightarrow> credential_summary list" where
  "ks_list_credentials_for_origin ks ori =
     map (\<lambda>r. \<lparr>cs_username = cr_username r, cs_label = cr_label r, cs_last_used_at = cr_last_used_at r\<rparr>)
       (filter (live_at ori) (ks_records ks))"

definition ks_find_by_origin :: "keystore \<Rightarrow> string \<Rightarrow> credential_match list" where
  "ks_find_by_origin ks ori =
     map (\<lambda>r. \<lparr>cm_username = cr_username r, cm_password = cr_password r\<rparr>)
       (filter (live_at ori) (ks_records ks))"

definition ks_probe :: "keystore \<Rightarrow> string \<Rightarrow> string \<Rightarrow> existing_credential" where
  "ks_probe ks ori user =
     (case find (matches_key ori user) (ks_records ks) of
        None \<Rightarrow> NoCredential
      | Some r \<Rightarrow> if cr_archived r then Archived else Live)"

text \<open>What \<open>upsert\<close> assigns to a matching record.\<close>

definition upsert_update :: "string \<Rightarrow> string option \<Rightarrow> u64 \<Rightarrow> credential_record \<Rightarrow> credential_record" where
  "upsert_update password label now r =
     (let r1 = r\<lparr>cr_password := password\<rparr>;
          r2 = (case label of None \<Rightarrow> r1 | Some l \<Rightarrow> r1\<lparr>cr_label := l\<rparr>)
      in r2\<lparr>cr_archived := False, cr_last_used_at := now\<rparr>)"

definition ks_upsert ::
  "'l libs_scheme \<Rightarrow> string \<Rightarrow> string \<Rightarrow> string \<Rightarrow> string option \<Rightarrow> keystore \<Rightarrow> 'z world_scheme \<Rightarrow>
   (store_error + unit) \<times> keystore \<times> 'z world_scheme"
where
  "ks_upsert L ori user password label ks w =
     (case now_secs w of (now, w1) \<Rightarrow>
        if find (matches_key ori user) (ks_records ks) \<noteq> None
        then (Inr (), ks\<lparr>ks_records := update_first (matches_key ori user)
                           (upsert_update password label now) (ks_records ks)\<rparr>, w1)
        else
          (case credential_record_new L ori user password w1 of (r, w2) \<Rightarrow>
             let r1 = r\<lparr>cr_color := next_automatic_color ks\<rparr>;
                 r2 = (case label of None \<Rightarrow> r1 | Some l \<Rightarrow> r1\<lparr>cr_label := l\<rparr>)
             in (Inr (), ks_add (r2\<lparr>cr_last_used_at := now\<rparr>) ks, w2)))"

definition keystore_ops ::
  "'l libs_scheme \<Rightarrow> (keystore, credential_record list, 'z world_scheme) store_ops"
where
  "keystore_ops L =
     \<lparr>so_list_origins = ks_list_origins,
      so_list_credentials = ks_list_credentials_for_origin,
      so_find_by_origin = ks_find_by_origin,
      so_snapshot = ks_snapshot,
      so_restore_snapshot = ks_restore_snapshot,
      so_probe = ks_probe,
      so_upsert = ks_upsert L\<rparr>"

section \<open>Records by identifier\<close>

definition distinct_ids :: "keystore \<Rightarrow> bool" where
  "distinct_ids ks \<longleftrightarrow> distinct (map cr_id (ks_records ks))"

lemma id_used_iff: "id_used rs i \<longleftrightarrow> i \<in> set (map cr_id rs)"
  by (auto simp: id_used_def list_ex_iff)

lemma ks_get_None: "ks_get i ks = None \<longleftrightarrow> i \<notin> set (map cr_id (ks_records ks))"
  by (auto simp: ks_get_def find_None_iff)

text \<open>An update through \<open>with_record\<close> hits the record with that identifier and no other.\<close>

lemma with_record_get:
  assumes "with_record i f ks = (Inr (), ks')" and "\<And>r. cr_id (f r) = cr_id r"
  shows "ks_get j ks' = (if j = i then map_option f (ks_get i ks) else ks_get j ks)"
proof -
  have r: "ks_records ks' = update_first (\<lambda>r. cr_id r = i) f (ks_records ks)" and
    ex: "\<exists>r \<in> set (ks_records ks). cr_id r = i"
    using assms(1) by (auto simp: with_record_def ks_get_None image_iff split: if_splits)
  show ?thesis
  proof (cases "j = i")
    case True
    then show ?thesis
      unfolding ks_get_def r using find_update_first_hit [OF ex, of f] assms(2) by simp
  next
    case False
    have "find (\<lambda>r. cr_id r = j) (update_first (\<lambda>r. cr_id r = i) f rs) = find (\<lambda>r. cr_id r = j) rs" for rs
      using False assms(2) by (induction rs) auto
    with False show ?thesis by (simp add: ks_get_def r)
  qed
qed

lemma with_record_ids:
  assumes "with_record i f ks = (r, ks')" and "\<And>r. cr_id (f r) = cr_id r"
  shows "map cr_id (ks_records ks') = map cr_id (ks_records ks)"
  using assms by (auto simp: with_record_def map_update_first split: if_splits)

lemma with_record_error: "with_record i f ks = (Inl e, ks') \<Longrightarrow> ks' = ks \<and> e = NotFound \<and> ks_get i ks = None"
  by (auto simp: with_record_def split: if_splits)

lemma delete_forever_Inr:
  assumes "ks_delete_forever i ks = (Inr (), ks')"
  shows "\<exists>pre r post. ks_records ks = pre @ r # post \<and> cr_id r = i \<and> cr_archived r \<and>
           (\<forall>x \<in> set pre. cr_id x \<noteq> i) \<and> ks_records ks' = pre @ post"
proof -
  from assms obtain pos where p: "position (\<lambda>r. cr_id r = i) (ks_records ks) = Some pos"
    "cr_archived (ks_records ks ! pos)"
    "ks_records ks' = take pos (ks_records ks) @ drop (Suc pos) (ks_records ks)"
    by (auto simp: ks_delete_forever_def split: option.splits if_splits)
  note q = position_Some [OF p(1)]
  then have "ks_records ks = take pos (ks_records ks) @ (ks_records ks ! pos) # drop (Suc pos) (ks_records ks)"
    by (simp add: id_take_nth_drop)
  moreover have "\<forall>x \<in> set (take pos (ks_records ks)). cr_id x \<noteq> i"
    using q by (auto simp: in_set_conv_nth)
  ultimately show ?thesis using p q by blast
qed

lemma delete_forever_Inl: "ks_delete_forever i ks = (Inl e, ks') \<Longrightarrow> ks' = ks"
  by (auto simp: ks_delete_forever_def split: option.splits if_splits)

lemma delete_forever_result:
  "fst (ks_delete_forever i ks) =
     (case ks_get i ks of None \<Rightarrow> Inl NotFound
      | Some r \<Rightarrow> if cr_archived r then Inr () else Inl NotArchived)"
  by (auto simp: ks_delete_forever_def ks_get_def find_position split: option.splits)

section \<open>Colours\<close>

lemma smod_bounds: "0 \<le> (a :: int) \<Longrightarrow> 0 < b \<Longrightarrow> a smod b = a mod b"
  by (cases "a = 0") (simp_all add: signed_modulo_int_def signed_divide_int_def minus_div_mult_eq_mod)

section \<open>The keystore implements CredentialStore\<close>

definition mk_match :: "credential_record \<Rightarrow> credential_match" where
  "mk_match r = \<lparr>cm_username = cr_username r, cm_password = cr_password r\<rparr>"

lemma find_map: "find p (map f xs) = map_option f (find (p \<circ> f) xs)"
  by (induction xs) auto

lemma find_filter: "find p (filter q xs) = find (\<lambda>x. q x \<and> p x) xs"
  by (induction xs) auto

lemma ks_hinted:
  "hinted (keystore_ops L) ks ori user =
     map_option mk_match (find (\<lambda>r. \<not> cr_archived r \<and> matches_key ori user r) (ks_records ks))"
proof -
  have "(\<lambda>x. live_at ori x \<and> ((\<lambda>m. cm_username m = user) \<circ> mk_match) x) =
        (\<lambda>r. \<not> cr_archived r \<and> matches_key ori user r)"
    by (auto simp: live_at_def mk_match_def matches_key_def)
  then show ?thesis
    by (simp add: hinted_def keystore_ops_def ks_find_by_origin_def find_map find_filter
        flip: mk_match_def [abs_def])
qed

lemma upsert_update_fields [simp]:
  "cr_id (upsert_update pw lab now r) = cr_id r"
  "cr_origin (upsert_update pw lab now r) = cr_origin r"
  "cr_username (upsert_update pw lab now r) = cr_username r"
  "cr_password (upsert_update pw lab now r) = pw"
  "\<not> cr_archived (upsert_update pw lab now r)"
  "cr_last_used_at (upsert_update pw lab now r) = now"
  "cr_label (upsert_update pw lab now r) = (case lab of None \<Rightarrow> cr_label r | Some l \<Rightarrow> l)"
  "cr_color (upsert_update pw lab now r) = cr_color r"
  "cr_notes (upsert_update pw lab now r) = cr_notes r"
  "cr_created_at (upsert_update pw lab now r) = cr_created_at r"
  by (auto simp: upsert_update_def Let_def split: option.splits)

text \<open>The two outcomes of \<open>upsert\<close>: the first matching record is updated, or one is appended.\<close>

lemma ks_upsert_cases:
  assumes "ks_upsert L ori user pw lab ks w = (r, ks', w')"
  obtains (updated) old where
      "r = Inr ()" "find (matches_key ori user) (ks_records ks) = Some old"
      "ks' = ks\<lparr>ks_records := update_first (matches_key ori user)
                 (upsert_update pw lab (fst (now_secs w))) (ks_records ks)\<rparr>"
  | (inserted) new where
      "r = Inr ()" "find (matches_key ori user) (ks_records ks) = None"
      "ks' = ks\<lparr>ks_records := ks_records ks @ [new]\<rparr>"
      "matches_key ori user new" "cr_password new = pw" "\<not> cr_archived new"
      "cr_label new = (case lab of None \<Rightarrow> [] | Some l \<Rightarrow> l)"
      "cr_color new = next_automatic_color ks" "cr_notes new = None"
proof (cases "find (matches_key ori user) (ks_records ks)")
  case (Some old)
  then show ?thesis
    using assms by (intro updated [of old]) (auto simp: ks_upsert_def split: prod.splits)
next
  case None
  obtain now w1 where n: "now_secs w = (now, w1)" by force
  obtain r0 w2 where c: "credential_record_new L ori user pw w1 = (r0, w2)" by force
  note f = credential_record_new_fields [OF c]
  show ?thesis
    using assms None n c f
    by (intro inserted [of "(case lab of None \<Rightarrow> r0\<lparr>cr_color := next_automatic_color ks\<rparr>
          | Some l \<Rightarrow> r0\<lparr>cr_color := next_automatic_color ks, cr_label := l\<rparr>)\<lparr>cr_last_used_at := now\<rparr>"])
      (auto simp: ks_upsert_def ks_add_def matches_key_def Let_def split: option.splits)
qed

lemma find_update_first_strong:
  assumes "\<And>x. p x \<Longrightarrow> q (f x)" and "\<And>x. q x \<Longrightarrow> p x" and "find p xs = Some x0"
  shows "find q (update_first p f xs) = Some (f x0)"
  using assms by (induction xs) (auto split: if_splits)

lemma find_update_first_disjoint:
  assumes "\<And>x. p x \<Longrightarrow> \<not> q x" and "\<And>x. p x \<Longrightarrow> \<not> q (f x)"
  shows "find q (update_first p f xs) = find q xs"
  using assms by (induction xs) auto

lemma matches_key_upsert_update [simp]:
  "matches_key o' u' (upsert_update pw lab now r) = matches_key o' u' r"
  by (simp add: matches_key_def)

lemma matches_key_eq: "matches_key o1 u1 r \<Longrightarrow> matches_key o2 u2 r \<longleftrightarrow> o2 = o1 \<and> u2 = u1"
  by (auto simp: matches_key_def)

lemma ks_upsert_hinted:
  assumes "ks_upsert L ori user pw lab ks w = (r, ks', w')"
  shows "hinted (keystore_ops L) ks' ori user = Some \<lparr>cm_username = user, cm_password = pw\<rparr>"
  using assms
proof (cases rule: ks_upsert_cases)
  case (updated old)
  have "matches_key ori user old" using updated(2) by (auto dest: find_Some_set)
  then show ?thesis
    unfolding ks_hinted updated(3)
    using find_update_first_strong [OF _ _ updated(2),
        of "\<lambda>r. \<not> cr_archived r \<and> matches_key ori user r" "upsert_update pw lab (fst (now_secs w))"]
    by (simp add: mk_match_def matches_key_def)
next
  case (inserted new)
  then have "find (\<lambda>r. \<not> cr_archived r \<and> matches_key ori user r) (ks_records ks) = None"
    by (auto simp: find_None_iff)
  then show ?thesis
    using inserted by (simp add: ks_hinted find_append mk_match_def matches_key_def)
qed

lemma ks_upsert_probe:
  assumes "ks_upsert L ori user pw lab ks w = (r, ks', w')"
  shows "ks_probe ks' ori user = Live"
  using assms
proof (cases rule: ks_upsert_cases)
  case (updated old)
  then show ?thesis
    using find_update_first_strong [OF _ _ updated(2), of "matches_key ori user"
        "upsert_update pw lab (fst (now_secs w))"]
    by (simp add: ks_probe_def)
next
  case (inserted new)
  then show ?thesis by (simp add: ks_probe_def find_append)
qed

lemma ks_upsert_other_key:
  assumes "ks_upsert L ori user pw lab ks w = (r, ks', w')" and "(o', u') \<noteq> (ori, user)"
  shows "hinted (keystore_ops L) ks' o' u' = hinted (keystore_ops L) ks o' u'"
  using assms(1)
proof (cases rule: ks_upsert_cases)
  case (updated old)
  then show ?thesis
    using assms(2) by (auto simp: ks_hinted matches_key_eq find_update_first_disjoint)
next
  case (inserted new)
  then have "\<not> matches_key o' u' new" using assms(2) by (auto simp: matches_key_def)
  with inserted show ?thesis by (simp add: ks_hinted find_append split: option.splits)
qed

lemma ks_upsert_other_origin:
  assumes "ks_upsert L ori user pw lab ks w = (r, ks', w')" and "o' \<noteq> ori"
  shows "ks_find_by_origin ks' o' = ks_find_by_origin ks o'"
  using assms(1)
proof (cases rule: ks_upsert_cases)
  case (updated old)
  have "filter (live_at o') (update_first (matches_key ori user) f rs) = filter (live_at o') rs"
    if "\<And>r. cr_origin (f r) = cr_origin r" for f rs
    using assms(2) that by (intro filter_update_first) (auto simp: matches_key_def live_at_def)
  then show ?thesis by (simp add: updated ks_find_by_origin_def)
next
  case (inserted new)
  then show ?thesis using assms(2) by (simp add: ks_find_by_origin_def live_at_def matches_key_def)
qed

interpretation ks_store: credential_store "keystore_ops L"
proof unfold_locales
  fix ori user pw lab s r s' and w w' :: "'b world_scheme"
  assume "so_upsert (keystore_ops L) ori user pw lab s w = (r, s', w')"
  then have "ks_upsert L ori user pw lab s w = (r, s', w')" by (simp add: keystore_ops_def)
  then show "so_restore_snapshot (keystore_ops L) (so_snapshot (keystore_ops L) s) s' = s"
    by (cases rule: ks_upsert_cases) (simp_all add: keystore_ops_def ks_restore_snapshot_def ks_snapshot_def)
next
  fix ori user pw lab s e s' and w w' :: "'b world_scheme"
  assume "so_upsert (keystore_ops L) ori user pw lab s w = (Inl e, s', w')"
  then have "ks_upsert L ori user pw lab s w = (Inl e, s', w')" by (simp add: keystore_ops_def)
  then show "s' = s" by (cases rule: ks_upsert_cases) simp_all
next
  fix ori user pw lab s s' and w w' :: "'b world_scheme"
  assume "so_upsert (keystore_ops L) ori user pw lab s w = (Inr (), s', w')"
  then have u: "ks_upsert L ori user pw lab s w = (Inr (), s', w')" by (simp add: keystore_ops_def)
  show "so_probe (keystore_ops L) s' ori user = Live"
    using ks_upsert_probe [OF u] by (simp add: keystore_ops_def)
  show "hinted (keystore_ops L) s' ori user = Some \<lparr>cm_username = user, cm_password = pw\<rparr>"
    by (rule ks_upsert_hinted [OF u])
  show "hinted (keystore_ops L) s' ori user' = hinted (keystore_ops L) s ori user'" if "user' \<noteq> user" for user'
    by (rule ks_upsert_other_key [OF u]) (use that in simp)
  show "so_find_by_origin (keystore_ops L) s' ori' = so_find_by_origin (keystore_ops L) s ori'"
    if "ori' \<noteq> ori" for ori'
    using ks_upsert_other_origin [OF u that] by (simp add: keystore_ops_def)
next
  fix s ori user
  assume "so_probe (keystore_ops L) s ori user = NoCredential"
  then have "\<forall>r \<in> set (ks_records s). \<not> matches_key ori user r"
    by (auto simp: keystore_ops_def ks_probe_def find_None_iff split: option.splits if_splits)
  then show "hinted (keystore_ops L) s ori user = None"
    by (simp add: ks_hinted find_None_iff)
next
  fix s ori user
  assume "so_probe (keystore_ops L) s ori user = Live"
  then have "\<exists>r \<in> set (ks_records s). \<not> cr_archived r \<and> matches_key ori user r"
    by (auto simp: keystore_ops_def ks_probe_def dest!: find_Some_set split: option.splits if_splits)
  then show "hinted (keystore_ops L) s ori user \<noteq> None"
    by (auto simp: ks_hinted find_None_iff)
next
  fix s
  show "set (so_list_origins (keystore_ops L) s) = {ori. so_find_by_origin (keystore_ops L) s ori \<noteq> []}"
    by (auto simp: keystore_ops_def ks_list_origins_def ks_find_by_origin_def live_at_def filter_empty_conv)
next
  fix s ori
  show "map cs_username (so_list_credentials (keystore_ops L) s ori) =
        map cm_username (so_find_by_origin (keystore_ops L) s ori)"
    by (simp add: keystore_ops_def ks_list_credentials_for_origin_def ks_find_by_origin_def)
qed

section \<open>Bulk import\<close>

definition rec_key :: "credential_record \<Rightarrow> string \<times> string" where
  "rec_key r = (cr_origin r, cr_username r)"

definition item_key :: "import_item \<Rightarrow> string \<times> string" where
  "item_key i = (ii_origin i, ii_username i)"

lemma matches_key_rec: "matches_key ori user r \<longleftrightarrow> rec_key r = (ori, user)"
  by (auto simp: matches_key_def rec_key_def)

lemma import_replace_fields [simp]:
  "cr_id (import_replace i r) = cr_id r" "rec_key (import_replace i r) = rec_key r"
  "cr_password (import_replace i r) = ii_password i" "\<not> cr_archived (import_replace i r)"
  "cr_color (import_replace i r) = cr_color r" "cr_created_at (import_replace i r) = cr_created_at r"
  by (auto simp: import_replace_def import_notes_def rec_key_def Let_def)

lemma import_insert_shape:
  assumes "import_insert L mk item ks w = (ks', w')"
  obtains r where "ks' = ks\<lparr>ks_records := ks_records ks @ [r]\<rparr>" "rec_key r = item_key item"
    "cr_password r = ii_password item" "cr_label r = mk (ii_label item)" "\<not> cr_archived r"
    "cr_color r = next_automatic_color ks"
proof -
  obtain r0 w1 where c: "credential_record_new L (ii_origin item) (ii_username item) (ii_password item) w = (r0, w1)"
    by force
  from credential_record_new_fields [OF c] that assms c show ?thesis
    by (auto simp: import_insert_def ks_add_def import_notes_def rec_key_def item_key_def split: if_splits)
qed

text \<open>The four things one item can do.\<close>

lemma import_one_cases:
  assumes "import_one L policy item ks t w = (ks', t', w')"
  obtains (skipped) "policy = Skip" "item_key item \<in> rec_key ` set (ks_records ks)"
      "ks' = ks" "t' = t\<lparr>is_skipped := is_skipped t + 1\<rparr>"
  | (replaced) i where "policy = Replace" "i < length (ks_records ks)"
      "rec_key (ks_records ks ! i) = item_key item"
      "ks' = ks\<lparr>ks_records := (ks_records ks)[i := import_replace item (ks_records ks ! i)]\<rparr>"
      "t' = t\<lparr>is_replaced := is_replaced t + 1\<rparr>"
  | (inserted) r where "ks' = ks\<lparr>ks_records := ks_records ks @ [r]\<rparr>" "rec_key r = item_key item"
      "cr_password r = ii_password item" "\<not> cr_archived r"
      "t' = t\<lparr>is_imported := is_imported t + 1\<rparr>"
      "policy = KeepBoth \<or> item_key item \<notin> rec_key ` set (ks_records ks)"
proof (cases "position (matches_key (ii_origin item) (ii_username item)) (ks_records ks)")
  case None
  then have no: "item_key item \<notin> rec_key ` set (ks_records ks)"
    by (auto simp: position_None matches_key_rec item_key_def)
  from assms None obtain w1 where "import_insert L (\<lambda>l. l) item ks w = (ks', w1)"
    "t' = t\<lparr>is_imported := is_imported t + 1\<rparr>" by (auto simp: import_one_def split: prod.splits)
  then show ?thesis using no by (auto elim!: import_insert_shape intro: inserted)
next
  case (Some i)
  note pos = position_Some [OF Some]
  then have mem: "item_key item \<in> rec_key ` set (ks_records ks)" and key: "rec_key (ks_records ks ! i) = item_key item"
    by (auto simp: matches_key_rec item_key_def intro!: image_eqI [of _ _ "ks_records ks ! i"])
  show ?thesis
  proof (cases policy)
    case Skip
    then show ?thesis using assms Some mem by (intro skipped) (auto simp: import_one_def)
  next
    case Replace
    then show ?thesis using assms Some pos key by (intro replaced [of i]) (auto simp: import_one_def)
  next
    case KeepBoth
    then obtain w1 where "import_insert L imported_label item ks w = (ks', w1)"
      "t' = t\<lparr>is_imported := is_imported t + 1\<rparr>"
      using assms Some by (auto simp: import_one_def split: prod.splits)
    then show ?thesis using KeepBoth by (auto elim!: import_insert_shape intro: inserted)
  qed
qed

text \<open>What one item keeps of the records that were there.\<close>

definition extends_keys :: "keystore \<Rightarrow> keystore \<Rightarrow> bool" where
  "extends_keys ks ks' \<longleftrightarrow>
     ks_key ks' = ks_key ks \<and>
     (\<exists>more. map rec_key (ks_records ks') = map rec_key (ks_records ks) @ more)"

lemma extends_keys_refl: "extends_keys ks ks"
  by (simp add: extends_keys_def)

lemma extends_keys_trans: "extends_keys a b \<Longrightarrow> extends_keys b c \<Longrightarrow> extends_keys a c"
  by (auto simp: extends_keys_def)

lemma extends_keys_mem:
  "extends_keys ks ks' \<Longrightarrow> rec_key ` set (ks_records ks) \<subseteq> rec_key ` set (ks_records ks')"
proof -
  assume "extends_keys ks ks'"
  then obtain more where "map rec_key (ks_records ks') = map rec_key (ks_records ks) @ more"
    by (auto simp: extends_keys_def)
  then have "set (map rec_key (ks_records ks')) = set (map rec_key (ks_records ks)) \<union> set more"
    by simp
  then show ?thesis by auto
qed

lemma import_one_step:
  assumes "import_one L policy item ks t w = (ks', t', w')"
  shows "extends_keys ks ks' \<and> item_key item \<in> rec_key ` set (ks_records ks') \<and>
         summary_total t' = Suc (summary_total t) \<and>
         length (ks_records ks') + is_imported t = length (ks_records ks) + is_imported t' \<and>
         (policy \<noteq> Replace \<longrightarrow> (\<exists>more. ks_records ks' = ks_records ks @ more))"
  using assms
proof (cases rule: import_one_cases)
  case skipped
  then show ?thesis by (simp add: extends_keys_refl summary_total_def)
next
  case (replaced i)
  have "map rec_key (ks_records ks') = map rec_key (ks_records ks)"
    using replaced(4) by (simp add: map_update_same)
  moreover from this have "rec_key ` set (ks_records ks') = rec_key ` set (ks_records ks)"
    by (metis list.set_map)
  moreover have "item_key item \<in> rec_key ` set (ks_records ks)"
    using replaced(2,3) by (intro image_eqI [of _ _ "ks_records ks ! i"]) auto
  ultimately show ?thesis
    using replaced(1,4,5) by (simp add: extends_keys_def summary_total_def)
next
  case (inserted r)
  then show ?thesis by (auto simp: extends_keys_def summary_total_def image_iff)
qed

lemma import_loop_spec:
  "import_loop L policy items ks t w = (ks', t', w') \<Longrightarrow>
   extends_keys ks ks' \<and> item_key ` set items \<subseteq> rec_key ` set (ks_records ks') \<and>
   summary_total t' = summary_total t + length items \<and>
   length (ks_records ks') + is_imported t = length (ks_records ks) + is_imported t' \<and>
   (policy \<noteq> Replace \<longrightarrow> (\<exists>more. ks_records ks' = ks_records ks @ more))"
proof (induction items arbitrary: ks t w)
  case Nil
  then show ?case by (simp add: extends_keys_refl)
next
  case (Cons item items)
  obtain ks1 t1 w1 where one: "import_one L policy item ks t w = (ks1, t1, w1)" using prod_cases3 by blast
  then have rest: "import_loop L policy items ks1 t1 w1 = (ks', t', w')" using Cons.prems by simp
  note a = import_one_step [OF one] and b = Cons.IH [OF rest]
  have "item_key item \<in> rec_key ` set (ks_records ks')"
    using a b extends_keys_mem by blast
  with a b show ?case by (auto intro: extends_keys_trans)
qed

lemma import_many_spec:
  assumes "import_many L items policy ks w = (ks', t, w')"
  shows "extends_keys ks ks'" and "item_key ` set items \<subseteq> rec_key ` set (ks_records ks')"
    and "is_imported t + is_skipped t + is_replaced t = length items"
    and "length (ks_records ks') = length (ks_records ks) + is_imported t"
    and "policy \<noteq> Replace \<Longrightarrow> \<exists>more. ks_records ks' = ks_records ks @ more"
  using import_loop_spec [OF assms [unfolded import_many_def]]
  by (auto simp: summary_total_def summary_zero_def)

section \<open>Restoring backup records\<close>

lemma fresh_id_unused:
  assumes "fresh_id L rs w = Some (i, w')"
  shows "\<not> id_used rs i"
proof -
  have "\<not> id_used rs (fst r)" if "fresh_id L rs w = Some r" for r
    by (rule fresh_id.raw_induct [where P = "\<lambda>L rs w r. \<not> id_used rs (fst r)", OF _ that])
      (auto split: prod.splits if_splits)
  with assms show ?thesis by fastforce
qed

lemma unique_record_id_unused:
  "unique_record_id L rs preferred w = Some (i, w') \<Longrightarrow> \<not> id_used rs i"
  by (auto simp: unique_record_id_def dest: fresh_id_unused split: if_splits)

lemma restore_one_cases:
  assumes "restore_one L policy inc ks t w = Some (ks', t', w')"
  obtains (skipped) "policy = Skip" "rec_key inc \<in> rec_key ` set (ks_records ks)"
      "ks' = ks" "t' = t\<lparr>is_skipped := is_skipped t + 1\<rparr>"
  | (replaced) i where "policy = Replace" "i < length (ks_records ks)"
      "rec_key (ks_records ks ! i) = rec_key inc"
      "ks' = ks\<lparr>ks_records := (ks_records ks)[i := inc\<lparr>cr_id := cr_id (ks_records ks ! i)\<rparr>]\<rparr>"
      "t' = t\<lparr>is_replaced := is_replaced t + 1\<rparr>"
  | (inserted) i l where "ks' = ks\<lparr>ks_records := ks_records ks @ [inc\<lparr>cr_id := i, cr_label := l\<rparr>]\<rparr>"
      "\<not> id_used (ks_records ks) i" "t' = t\<lparr>is_imported := is_imported t + 1\<rparr>"
      "policy = KeepBoth \<or> rec_key inc \<notin> rec_key ` set (ks_records ks)"
      "l = (if rec_key inc \<in> rec_key ` set (ks_records ks) then restored_label (cr_label inc) else cr_label inc)"
proof (cases "position (matches_key (cr_origin inc) (cr_username inc)) (ks_records ks)")
  case None
  then have no: "rec_key inc \<notin> rec_key ` set (ks_records ks)"
    by (auto simp: position_None matches_key_rec rec_key_def)
  from assms None obtain i w1 where "unique_record_id L (ks_records ks) (cr_id inc) w = Some (i, w1)"
    "ks' = ks_add (inc\<lparr>cr_id := i\<rparr>) ks" "t' = t\<lparr>is_imported := is_imported t + 1\<rparr>"
    by (auto simp: restore_one_def)
  then show ?thesis using no
    by (intro inserted [where i = i and l = "cr_label inc"]) (auto simp: ks_add_def dest: unique_record_id_unused)
next
  case (Some i)
  note pos = position_Some [OF Some]
  then have mem: "rec_key inc \<in> rec_key ` set (ks_records ks)" and key: "rec_key (ks_records ks ! i) = rec_key inc"
    by (auto simp: matches_key_rec rec_key_def intro!: image_eqI [of _ _ "ks_records ks ! i"])
  show ?thesis
  proof (cases policy)
    case Skip
    then show ?thesis using assms Some mem by (intro skipped) (auto simp: restore_one_def)
  next
    case Replace
    then show ?thesis using assms Some pos key by (intro replaced [of i]) (auto simp: restore_one_def)
  next
    case KeepBoth
    then obtain j w1 where "unique_record_id L (ks_records ks) (cr_id inc) w = Some (j, w1)"
      "ks' = ks_add (inc\<lparr>cr_id := j, cr_label := restored_label (cr_label inc)\<rparr>) ks"
      "t' = t\<lparr>is_imported := is_imported t + 1\<rparr>"
      using assms Some by (auto simp: restore_one_def)
    then show ?thesis using mem KeepBoth
      by (intro inserted [where i = j and l = "restored_label (cr_label inc)"])
        (auto simp: ks_add_def dest: unique_record_id_unused)
  qed
qed

lemma restore_one_step:
  assumes "restore_one L policy inc ks t w = Some (ks', t', w')"
  shows "extends_keys ks ks' \<and> rec_key inc \<in> rec_key ` set (ks_records ks') \<and>
         summary_total t' = Suc (summary_total t) \<and>
         length (ks_records ks') + is_imported t = length (ks_records ks) + is_imported t' \<and>
         (distinct_ids ks \<longrightarrow> distinct_ids ks') \<and>
         (\<exists>ids. map cr_id (ks_records ks') = map cr_id (ks_records ks) @ ids)"
  using assms
proof (cases rule: restore_one_cases)
  case skipped
  then show ?thesis by (simp add: extends_keys_refl summary_total_def)
next
  case (replaced i)
  have "map rec_key (ks_records ks') = map rec_key (ks_records ks)"
    using replaced(3,4) by (simp add: map_update_same rec_key_def)
  moreover from this have "rec_key ` set (ks_records ks') = rec_key ` set (ks_records ks)"
    by (metis list.set_map)
  moreover have "map cr_id (ks_records ks') = map cr_id (ks_records ks)"
    using replaced(4) by (simp add: map_update_same)
  moreover have "rec_key inc \<in> rec_key ` set (ks_records ks)"
    using replaced(2,3) by (intro image_eqI [of _ _ "ks_records ks ! i"]) auto
  ultimately show ?thesis
    using replaced(4,5) by (simp add: extends_keys_def summary_total_def distinct_ids_def)
next
  case (inserted i l)
  then show ?thesis
    by (auto simp: extends_keys_def summary_total_def rec_key_def distinct_ids_def id_used_iff)
qed

lemma restore_loop_spec:
  "restore_loop L policy rs ks t w = Some (ks', t', w') \<Longrightarrow>
   extends_keys ks ks' \<and> rec_key ` set rs \<subseteq> rec_key ` set (ks_records ks') \<and>
   summary_total t' = summary_total t + length rs \<and>
   length (ks_records ks') + is_imported t = length (ks_records ks) + is_imported t' \<and>
   (distinct_ids ks \<longrightarrow> distinct_ids ks') \<and>
   (\<exists>ids. map cr_id (ks_records ks') = map cr_id (ks_records ks) @ ids)"
proof (induction rs arbitrary: ks t w)
  case Nil
  then show ?case by (simp add: extends_keys_refl)
next
  case (Cons r rs)
  then obtain ks1 t1 w1 where one: "restore_one L policy r ks t w = Some (ks1, t1, w1)"
    and rest: "restore_loop L policy rs ks1 t1 w1 = Some (ks', t', w')"
    by (auto simp: bind_eq_Some_conv)
  note a = restore_one_step [OF one] and b = Cons.IH [OF rest]
  have "rec_key r \<in> rec_key ` set (ks_records ks')" using a b extends_keys_mem by blast
  with a b show ?case by (auto intro: extends_keys_trans)
qed

lemma restore_many_spec:
  assumes "restore_many L rs policy ks w = Some (ks', t, w')"
  shows "extends_keys ks ks'" and "rec_key ` set rs \<subseteq> rec_key ` set (ks_records ks')"
    and "is_imported t + is_skipped t + is_replaced t = length rs"
    and "length (ks_records ks') = length (ks_records ks) + is_imported t"
    and "distinct_ids ks \<Longrightarrow> distinct_ids ks'"
    and "\<exists>ids. map cr_id (ks_records ks') = map cr_id (ks_records ks) @ ids"
  using restore_loop_spec [OF assms [unfolded restore_many_def]]
  by (auto simp: summary_total_def summary_zero_def)

text \<open>
  The search for an unused identifier returns when the tape still holds one: at any
  offset, some later block of 16 bytes makes an identifier outside any \<open>n\<close> given ones.
\<close>

definition uuids_fresh :: "nat \<Rightarrow> 'l libs_scheme \<Rightarrow> byte stream \<Rightarrow> bool" where
  "uuids_fresh n L s \<longleftrightarrow>
     (\<forall>m ids. length ids \<le> n \<longrightarrow>
        (\<exists>k. uuid_from_random L (stake 16 (sdrop (m + 16 * k) s)) \<notin> set ids))"

lemma fresh_id_returns_aux:
  "uuid_from_random L (stake 16 (sdrop (16 * k) (w_rng w))) \<notin> set (map cr_id rs) \<Longrightarrow>
   \<exists>i w' n. fresh_id L rs w = Some (i, w') \<and> w_rng w' = sdrop n (w_rng w)"
proof (induction k arbitrary: w)
  case 0
  then show ?case
    by (subst fresh_id.simps) (auto simp: uuid_new_v4_def fill_bytes_def id_used_iff intro!: exI [of _ 16])
next
  case (Suc k)
  obtain i w1 where w1: "uuid_new_v4 L w = (i, w1)" "w_rng w1 = sdrop 16 (w_rng w)"
    by (simp add: uuid_new_v4_def fill_bytes_def)
  have "uuid_from_random L (stake 16 (sdrop (16 * k) (w_rng w1))) \<notin> set (map cr_id rs)"
    using Suc.prems w1(2) by (simp add: add.commute)
  from Suc.IH [OF this] obtain j w' n where
    ih: "fresh_id L rs w1 = Some (j, w')" "w_rng w' = sdrop (16 + n) (w_rng w)" using w1(2) by auto
  show ?case
  proof (cases "id_used rs i")
    case True
    then show ?thesis using w1 ih by (subst fresh_id.simps) (auto intro!: exI [of _ "16 + n"])
  next
    case False
    then show ?thesis using w1 by (subst fresh_id.simps) (auto intro!: exI [of _ 16])
  qed
qed

lemma uuids_fresh_sdrop:
  assumes "uuids_fresh N L s"
  shows "uuids_fresh N L (sdrop n s)"
  unfolding uuids_fresh_def
proof (intro allI impI)
  fix m and ids :: "uuid list"
  assume "length ids \<le> N"
  with assms obtain k where "uuid_from_random L (stake 16 (sdrop ((n + m) + 16 * k) s)) \<notin> set ids"
    unfolding uuids_fresh_def by blast
  then show "\<exists>k. uuid_from_random L (stake 16 (sdrop (m + 16 * k) (sdrop n s))) \<notin> set ids"
    by (auto simp: add.assoc)
qed

lemma unique_record_id_returns:
  assumes "uuids_fresh N L (w_rng w)" and "length rs \<le> N"
  shows "\<exists>i w'. unique_record_id L rs p w = Some (i, w') \<and> uuids_fresh N L (w_rng w')"
proof -
  have "length (map cr_id rs) \<le> N" using assms(2) by simp
  with assms(1) obtain k where
    "uuid_from_random L (stake 16 (sdrop (0 + 16 * k) (w_rng w))) \<notin> set (map cr_id rs)"
    unfolding uuids_fresh_def by blast
  from fresh_id_returns_aux [of L k w rs] this assms(1) uuids_fresh_sdrop show ?thesis
    by (fastforce simp: unique_record_id_def)
qed

lemma restore_one_returns:
  assumes "uuids_fresh N L (w_rng w)" and "length (ks_records ks) \<le> N"
  shows "\<exists>ks' t' w'. restore_one L policy r ks t w = Some (ks', t', w') \<and> uuids_fresh N L (w_rng w') \<and>
           length (ks_records ks') \<le> Suc (length (ks_records ks))"
proof -
  from unique_record_id_returns [OF assms] obtain i w1 where
    "unique_record_id L (ks_records ks) (cr_id r) w = Some (i, w1)" "uuids_fresh N L (w_rng w1)" by blast
  then show ?thesis
    using assms(1)
    by (cases "position (matches_key (cr_origin r) (cr_username r)) (ks_records ks)"; cases policy)
      (auto simp: restore_one_def ks_add_def)
qed

lemma restore_loop_returns:
  "uuids_fresh N L (w_rng w) \<Longrightarrow> length (ks_records ks) + length rs \<le> N \<Longrightarrow>
   restore_loop L policy rs ks t w \<noteq> None"
proof (induction rs arbitrary: ks t w)
  case (Cons r rs)
  from restore_one_returns [OF Cons.prems(1), of ks policy r t] Cons.prems(2)
  obtain ks' t' w' where "restore_one L policy r ks t w = Some (ks', t', w')" "uuids_fresh N L (w_rng w')"
    "length (ks_records ks') \<le> Suc (length (ks_records ks))" by auto
  with Cons.IH [of w' ks' t'] Cons.prems(2) show ?case by simp
qed simp

end
