(* ===== verification/Bridge.thy ===== *)
theory Bridge
  imports Samples Keystore
begin

text \<open>
  The engine on the keystore, as \<open>main.rs\<close> wires it (\<open>Engine<Keystore>\<close>): the keystore keeps
  the contract of the engine's store, so the engine's lemmas hold of it. The lemmas here
  follow one credential from a host's store request to a host's release request.
\<close>

interpretation ks_engine: engine_store "keystore_ops L :: (keystore, credential_record list, 'z world_scheme) store_ops"
  by unfold_locales

text \<open>The keystore never refuses an upsert.\<close>

lemma ks_upsert_total: "\<exists>s w1. so_upsert (keystore_ops L) c u p l ks w = (Inr (), s, w1)"
proof -
  obtain r s w1 where u: "ks_upsert L c u p l ks w = (r, s, w1)" using prod_cases3 by blast
  then have "r = Inr ()" by (cases rule: ks_upsert_cases)
  with u show ?thesis by (simp add: keystore_ops_def)
qed

text \<open>The record behind a candidate of a release.\<close>

lemma find_by_origin_record:
  "m \<in> set (ks_find_by_origin ks ori) \<longleftrightarrow>
   (\<exists>r \<in> set (ks_records ks). \<not> cr_archived r \<and> cr_origin r = ori \<and> m = mk_match r)"
  by (auto simp: ks_find_by_origin_def live_at_def mk_match_def)

lemma keystore_ops_sel [simp]:
  "so_find_by_origin (keystore_ops L) = ks_find_by_origin" "so_probe (keystore_ops L) = ks_probe"
  "so_list_origins (keystore_ops L) = ks_list_origins"
  "so_list_credentials (keystore_ops L) = ks_list_credentials_for_origin"
  "so_snapshot (keystore_ops L) = ks_snapshot" "so_restore_snapshot (keystore_ops L) = ks_restore_snapshot"
  by (simp_all add: keystore_ops_def)

text \<open>Sealing a text of bounded length under an active session succeeds.\<close>

lemma seal_password_total:
  assumes "aead_total L" and "session_inv (en_session en)" and "ss_state (en_session en) = Active"
    and "length pw < 2 ^ 32"
  shows "\<exists>h s w'. seal_password L pw now en w = (Inr h, en\<lparr>en_session := s\<rparr>, w')"
proof -
  obtain k where k: "ss_key (en_session en) = Some k" "length k = 32"
    using assms(2,3) by (auto simp: session_inv_def)
  obtain n w' where n: "fill_bytes 12 w = (n, w')" by force
  have "length (as_bytes pw) < 2 ^ 32" using assms(4) by (simp add: as_bytes_def)
  with assms(1) k(2) length_fill_bytes [OF n]
  have "aes_gcm_encrypt L k n (as_bytes pw) \<noteq> None" unfolding aead_total_def by blast
  with k assms(3) n show ?thesis by (auto simp: seal_password_def seal_def)
qed


text \<open>A store request that passes every check, up to its card.\<close>

lemma store_begin_asks:
  assumes "aead_ok L" and "hex_ok L" and "session_inv host"
    and "seal L (as_bytes pw) t host wh = (Inr sealed, host1, wh1)"
    and "str_ok pw" and "length pw \<le> MAX_PASSWORD_BYTES"
    and "canonicalize_origin L (sp_origin p) = Inr ori" and "sp_password_sealed p = sealed"
    and "check_names (sp_username p) (sp_label p) = Inr ()"
    and "gate_session (sp_request_nonce p) now en = (Inr (), en1)"
    and "ss_key (en_session en) = ss_key host"
  shows "\<exists>ar act s. store_begin L ops p now en =
           (Ask ar (AfterStore ori (sp_username p) (sp_label p) pw act), en1\<lparr>en_session := s\<rparr>) \<and>
         s = (en_session en1)\<lparr>ss_last_activity := now\<rparr>"
proof -
  from assms(10) have a: "ss_state (en_session en1) = Active" "ss_key (en_session en1) = ss_key host"
    using assms(11) by (auto simp: gate_session_Inr)
  have "open_sealed L sealed now (en_session en1) =
          (Inr (as_bytes pw), (en_session en1)\<lparr>ss_last_activity := now\<rparr>)"
    by (rule open_of_seal [OF assms(1-4) a])
  then show ?thesis
    using assms(5-10)
    by (auto simp: store_begin_def from_utf8_as_bytes Let_def split: prod.splits)
qed

text \<open>A host's store request, approved and persisted, to its end.\<close>

lemma handle_store_approved:
  fixes w :: "'z world_scheme" and hook :: "(keystore, 'z world_scheme) on_write_hook"
  assumes "aead_ok L" "hex_ok L" "session_inv host" "str_ok pw" "length pw \<le> MAX_PASSWORD_BYTES"
    and "seal L (as_bytes pw) t host wh = (Inr sealed, host1, wh1)"
    and "canonicalize_origin L (sp_origin p) = Inr ori" "sp_password_sealed p = sealed"
    and "check_names (sp_username p) (sp_label p) = Inr ()"
    and "gate_session (sp_request_nonce p) now en = (Inr (), en1)"
    and "ss_key (en_session en) = ss_key host" and hook: "\<And>ks w. fst (hook ks w)"
  shows "\<exists>act ks w'. handle L (keystore_ops L) hook (\<lambda>_. Approve)
           \<lparr>rq_id = i, rq_method = StoreCredential p\<rparr> now en w =
         Some (RespOk i (CredentialStored act), en1\<lparr>en_store := ks\<rparr>, w') \<and>
         hinted (keystore_ops L :: (_, _, 'z world_scheme) store_ops) ks ori (sp_username p) =
           Some \<lparr>cm_username = sp_username p, cm_password = pw\<rparr>"
proof -
  have "(en_session en1)\<lparr>ss_last_activity := now\<rparr> = en_session en1"
    using assms(10) by (auto simp: gate_session_Inr)
  then obtain ar act where b: "store_begin L (keystore_ops L :: (_, _, 'z world_scheme) store_ops) p now en =
      (Ask ar (AfterStore ori (sp_username p) (sp_label p) pw act), en1)"
    using store_begin_asks [OF assms(1-3,6,4,5,7-11), of "keystore_ops L"] by auto
  obtain ks w1 where u: "so_upsert (keystore_ops L) ori (sp_username p) pw (sp_label p) (en_store en1) w =
      (Inr (), ks, w1)"
    using ks_upsert_total by blast
  obtain w2 where hk: "hook ks w1 = (True, w2)" using hook [of ks w1] by (cases "hook ks w1") auto
  note r = ks_engine.resume_store_approved [where hook = hook and en = en1, OF u hk]
  show ?thesis using b r(2) by (auto simp: handle_def r(1))
qed

text \<open>A host's release request by user name, approved, to its end.\<close>

lemma handle_release_approved:
  fixes w :: "'z world_scheme"
  assumes laws: "aead_ok L" "aead_total L" "hex_ok L" and "session_inv (en_session en)"
    and "canonicalize_origin L (rp_origin p) = Inr ori" "rp_username_hint p = Some u"
    and "length u \<le> MAX_USERNAME_BYTES" and g: "gate_session (rp_request_nonce p) now en = (Inr (), en1)"
    and "hinted (keystore_ops L :: (_, _, 'z world_scheme) store_ops) (en_store en) ori u =
           Some \<lparr>cm_username = u, cm_password = pw\<rparr>"
    and "length pw \<le> MAX_PASSWORD_BYTES"
    and "ss_state host = Active" "ss_key host = ss_key (en_session en)"
  shows "\<exists>h en2 w'. handle L (keystore_ops L) hook (\<lambda>_. Approve)
           \<lparr>rq_id = i, rq_method = ReleaseCredential p\<rparr> now en w =
         Some (RespOk i (CredentialReleased u h), en2, w') \<and>
         fst (open_sealed L h t host) = Inr (as_bytes pw)"
proof -
  have b: "release_begin L (keystore_ops L :: (_, _, 'z world_scheme) store_ops) p now en =
      (Ask \<lparr>ar_action = Release, ar_origin = ori, ar_username = u, ar_request_nonce = rp_request_nonce p\<rparr>
        (AfterRelease u pw now), en1)"
    using ks_engine.release_begin_hinted [OF assms(5-9)] by simp
  have s1: "session_inv (en_session en1)" "ss_state (en_session en1) = Active"
    "ss_key host = ss_key (en_session en1)"
    using g assms(4,12) gate_session_inv [OF assms(4) g] by (auto simp: gate_session_Inr)
  obtain h s w' where sp: "seal_password L pw now en1 w = (Inr h, en1\<lparr>en_session := s\<rparr>, w')"
    using seal_password_total [OF laws(2) s1(1,2), of pw now w] assms(10)
    by (auto simp: MAX_PASSWORD_BYTES_def)
  then obtain s' where "seal L (as_bytes pw) now (en_session en1) w = (Inr h, s', w')"
    by (auto dest: seal_password_Inr)
  from open_of_seal [OF laws(1,3) s1(1) this assms(11) s1(3)] b sp show ?thesis
    by (simp add: handle_def resume_def)
qed

text \<open>
  C6: the round trip of a credential. A host with an active session stores a password and
  later releases it: when the user approves both cards and the keystore is persisted, both
  requests succeed and the host opens the released text to the password it stored.
\<close>

theorem store_then_release:
  fixes L :: "'l libs_scheme" and w :: "'z world_scheme" and wh :: "'y world_scheme"
    and hook :: "(keystore, 'z world_scheme) on_write_hook"
  assumes laws: "aead_ok L" "aead_total L" "hex_ok L"
    and sess: "session_inv (en_session en)" "ss_state (en_session en) = Active"
    and host: "session_inv host" "ss_key (en_session en) = ss_key host"
    and sealed: "seal L (as_bytes pw) t host wh = (Inr sealed, host1, wh1)"
    and pw: "str_ok pw" "length pw \<le> 512"
    and user: "user \<noteq> []" "length user \<le> 256" and lab: "\<forall>l. lab = Some l \<longrightarrow> length l \<le> 128"
    and site: "canonicalize_origin L site = Inr ori" "canonicalize_origin L site' = Inr ori"
    and nonces: "ss_last_nonce (en_session en) < n1" "n1 < n2"
    and times: "unat now1 - unat (ss_last_activity (en_session en)) < unat (en_idle_ms en)"
      "unat now2 - unat now1 < unat (en_idle_ms en)"
    and hook: "\<And>ks w. fst (hook ks w)"
  shows "\<exists>act en1 w1 h en2 w2.
     handle L (keystore_ops L) hook (\<lambda>_. Approve)
       \<lparr>rq_id = i, rq_method = StoreCredential \<lparr>sp_origin = site, sp_username = user, sp_label = lab,
          sp_password_sealed = sealed, sp_request_nonce = n1\<rparr>\<rparr> now1 en w =
       Some (RespOk i (CredentialStored act), en1, w1) \<and>
     handle L (keystore_ops L) hook (\<lambda>_. Approve)
       \<lparr>rq_id = j, rq_method = ReleaseCredential \<lparr>rp_origin = site', rp_username_hint = Some user,
          rp_request_nonce = n2\<rparr>\<rparr> now2 en1 w1 =
       Some (RespOk j (CredentialReleased user h), en2, w2) \<and>
     fst (open_sealed L h now2 host1) = Inr (as_bytes pw)"
proof -
  let ?sp = "\<lparr>sp_origin = site, sp_username = user, sp_label = lab, sp_password_sealed = sealed,
              sp_request_nonce = n1\<rparr>"
  let ?rp = "\<lparr>rp_origin = site', rp_username_hint = Some user, rp_request_nonce = n2\<rparr>"
  define s1 where "s1 = (en_session en)\<lparr>ss_last_nonce := n1, ss_last_activity := now1\<rparr>"
  have g1: "gate_session (sp_request_nonce ?sp) now1 en = (Inr (), en\<lparr>en_session := s1\<rparr>)"
    using sess(2) nonces(1) times(1) by (simp add: gate_session_Inr check_idle_iff s1_def)
  have names: "check_names user lab = Inr ()"
    using user lab by (auto simp: check_names_def check_str_len_def check_opt_len_def MAX_USERNAME_BYTES_def
        MAX_LABEL_BYTES_def split: option.splits)
  have len: "length pw \<le> MAX_PASSWORD_BYTES" "length user \<le> MAX_USERNAME_BYTES"
    using pw(2) user(2) by (simp_all add: MAX_PASSWORD_BYTES_def MAX_USERNAME_BYTES_def)
  obtain act ks w1 where h1: "handle L (keystore_ops L) hook (\<lambda>_. Approve)
        \<lparr>rq_id = i, rq_method = StoreCredential ?sp\<rparr> now1 en w =
      Some (RespOk i (CredentialStored act), en\<lparr>en_session := s1, en_store := ks\<rparr>, w1)"
    and hint: "hinted (keystore_ops L :: (_, _, 'z world_scheme) store_ops) ks ori user =
      Some \<lparr>cm_username = user, cm_password = pw\<rparr>"
    using handle_store_approved [OF laws(1,3) host(1) pw(1) len(1) sealed _ _ _ g1 host(2), of ori hook i w]
      site(1) names hook by auto
  let ?en1 = "en\<lparr>en_session := s1, en_store := ks\<rparr>"
  have g2: "gate_session (rp_request_nonce ?rp) now2 ?en1 =
      (Inr (), ?en1\<lparr>en_session := s1\<lparr>ss_last_nonce := n2, ss_last_activity := now2\<rparr>\<rparr>)"
    using sess(2) nonces(2) times(2) by (simp add: gate_session_Inr check_idle_iff s1_def)
  have "ss_state host1 = Active" "ss_key host1 = ss_key (en_session ?en1)" "session_inv (en_session ?en1)"
    using sealed host(2) sess by (auto simp: s1_def session_inv_def dest: seal_frame elim: seal_Inr)
  with handle_release_approved [of L ?en1 ?rp ori user now2 _ pw host1, OF laws] g2 hint site(2) len h1
  show ?thesis by fastforce
qed


lemma store_then_release_witness:
  "\<exists>sealed act en1 w1 h en2 w2.
     handle sample_libs (keystore_ops sample_libs) (\<lambda>ks w. (True, w)) (\<lambda>_. Approve)
       \<lparr>rq_id = ''1'', rq_method = StoreCredential \<lparr>sp_origin = ''https://Example.com/login'',
          sp_username = ''ann'', sp_label = None, sp_password_sealed = sealed, sp_request_nonce = 1\<rparr>\<rparr>
       2000 (sample_engine \<lparr>ks_records = [], ks_key = []\<rparr>) sample_world =
       Some (RespOk ''1'' (CredentialStored act), en1, w1) \<and>
     handle sample_libs (keystore_ops sample_libs) (\<lambda>ks w. (True, w)) (\<lambda>_. Approve)
       \<lparr>rq_id = ''2'', rq_method = ReleaseCredential \<lparr>rp_origin = ''https://example.com'',
          rp_username_hint = Some ''ann'', rp_request_nonce = 2\<rparr>\<rparr> 3000 en1 w1 =
       Some (RespOk ''2'' (CredentialReleased ''ann'' h), en2, w2)"
proof -
  obtain sealed s1 w1 where
    "seal sample_libs (as_bytes ''pw'') 0 sample_session sample_world = (Inr sealed, s1, w1)"
    by (rule sample_sealed)
  note r = store_then_release [OF sample_aead sample_hex _ _ _ _ this, of "sample_engine \<lparr>ks_records = [], ks_key = []\<rparr>"
      "''ann''" None "''https://Example.com/login''" "''https://example.com''" "''https://example.com''" 1 2
      2000 3000 "\<lambda>ks w. (True, w)" "''1''" sample_world "''2''"]
  have key: "ss_last_nonce sample_session = 0" "ss_last_activity sample_session = 1000"
    by (simp_all add: sample_session_def)
  have "str_ok ''pw''" by code_simp
  from r this show ?thesis
    by (simp only: sample_canonical sample_engine_sel sample_session_inv key unat_DEFAULT_IDLE_MS) force
qed

text \<open>
  C8: the card of a release names a live record. The handler asks with the origin and the user
  name of one record of the keystore that is not archived, whose origin is the canonical
  form of the requested one, and it is that record's password that waits for the answer.
\<close>

theorem release_asks_for_live_record:
  assumes "dispatch L (keystore_ops L) (ReleaseCredential p) now en w = (Ask ar k, en', w')"
  shows "\<exists>r \<in> set (ks_records (en_store en)). \<not> cr_archived r \<and>
     canonicalize_origin L (rp_origin p) = Inr (cr_origin r) \<and>
     ar = \<lparr>ar_action = Release, ar_origin = cr_origin r, ar_username = cr_username r,
           ar_request_nonce = rp_request_nonce p\<rparr> \<and>
     k = AfterRelease (cr_username r) (cr_password r) now \<and>
     rp_username_hint p \<in> {None, Some (cr_username r)}"
proof -
  from assms obtain ori m where c: "canonicalize_origin L (rp_origin p) = Inr ori"
    and m: "choose_credential (ks_find_by_origin (en_store en) ori) (rp_username_hint p) = Inr m"
    and ar: "ar = \<lparr>ar_action = Release, ar_origin = ori, ar_username = cm_username m,
              ar_request_nonce = rp_request_nonce p\<rparr>"
    and k: "k = AfterRelease (cm_username m) (cm_password m) now"
    by (auto simp: release_begin_def gate_session_Inr split: sum.splits prod.splits)
  have h: "rp_username_hint p \<in> {None, Some (cm_username m)}"
    using m by (auto simp: choose_credential_def split: option.splits if_splits dest: find_Some_set)
  from choose_credential_mem [OF m] obtain r where "r \<in> set (ks_records (en_store en))"
    "\<not> cr_archived r" "cr_origin r = ori" "m = mk_match r"
    unfolding find_by_origin_record by blast
  with c ar k h show ?thesis by (intro bexI [of _ r]) (auto simp: mk_match_def)
qed

definition sample_keystore :: keystore where
  "sample_keystore = \<lparr>ks_records = [\<lparr>cr_id = 1, cr_origin = ''https://example.com'', cr_username = ''ann'',
     cr_password = ''pw'', cr_label = [], cr_color = 5, cr_archived = False, cr_notes = None,
     cr_created_at = 0, cr_last_used_at = 0\<rparr>], ks_key = []\<rparr>"

lemma sample_release:
  "dispatch sample_libs (keystore_ops sample_libs) (ReleaseCredential \<lparr>rp_origin = ''https://example.com'',
     rp_username_hint = None, rp_request_nonce = 1\<rparr>) 2000 (sample_engine sample_keystore) w =
   (Ask \<lparr>ar_action = Release, ar_origin = ''https://example.com'', ar_username = ''ann'', ar_request_nonce = 1\<rparr>
      (AfterRelease ''ann'' ''pw'' 2000),
    (sample_engine sample_keystore)\<lparr>en_session := sample_session\<lparr>ss_last_nonce := 1, ss_last_activity := 2000\<rparr>\<rparr>, w)"
  by (simp add: release_begin_def sample_canonical check_opt_len_def sample_gate choose_credential_def
      keystore_ops_def ks_find_by_origin_def live_at_def sample_keystore_def)

lemma release_asks_for_live_record_witness:
  "\<exists>r \<in> set (ks_records sample_keystore). \<not> cr_archived r \<and> cr_password r = ''pw''"
  using release_asks_for_live_record [OF sample_release [of sample_world]] by auto

end
