(* ===== verification/Server.thy ===== *)
theory Server
  imports Bridge "HOL-Library.Multiset"
begin

text \<open>
  The running app: the engine, the approver of \<open>main.rs\<close>, and the handlers that wait for the
  user. A step is one thing a thread does while it holds the locks: a request arrives and
  runs to its answer or its await, the user taps a button of the card, the timeout worker
  wakes, the UI thread runs one queued task, a waiting handler whose channel was decided
  finishes, or another callback of the UI edits the keystore. Requests, taps and time outs
  interleave in every order.

  A transition is labelled with what happened; a run keeps its labels, oldest first.
\<close>

record waiting =
  wt_ticket :: ticket
  wt_id :: string
  wt_request :: approval_request
  wt_kont :: kont

record ('s, 'w) server =
  sv_engine :: "'s engine"
  sv_approver :: slint_approver
  sv_waiting :: "waiting list"
  sv_world :: 'w

datatype event =
    Answered request "engine_error + response_body"
  | Asked request waiting
  | Cancelled request
  | Tapped approval_decision "nat option"       \<comment> \<open>the channel that got the decision\<close>
  | Ticked
  | UiRan
  | Resumed waiting approval_decision "engine_error + response_body"
  | Edited

text \<open>What \<open>rx.await\<close> yields, once it yields.\<close>

fun ticket_decision :: "slint_approver \<Rightarrow> ticket \<Rightarrow> approval_decision option" where
  "ticket_decision a (Decided d) = Some d"
| "ticket_decision a (Waiting c) = sa_sent a c"

definition slot_channel :: "slint_approver \<Rightarrow> nat option" where
  "slot_channel a = map_option pa_tx (sa_pending a)"

text \<open>The app at its start, around an engine in any state.\<close>

definition server_new :: "'s engine \<Rightarrow> 'w \<Rightarrow> ('s, 'w) server" where
  "server_new en w =
     \<lparr>sv_engine = en, sv_approver = slint_approver_new, sv_waiting = [], sv_world = w\<rparr>"

inductive server_step ::
  "'l libs_scheme \<Rightarrow> ('s, 'p, 'z world_scheme) store_ops \<Rightarrow> ('s, 'z world_scheme) on_write_hook \<Rightarrow>
   ('s, 'z world_scheme) server \<Rightarrow> event \<Rightarrow> ('s, 'z world_scheme) server \<Rightarrow> bool"
for L ops hook where
  answer: "dispatch L ops (rq_method rq) now (sv_engine s) (sv_world s) = (Done r, en, w) \<Longrightarrow>
     server_step L ops hook s (Answered rq r) (s\<lparr>sv_engine := en, sv_world := w\<rparr>)"
| ask: "dispatch L ops (rq_method rq) now (sv_engine s) (sv_world s) = (Ask ar k, en, w) \<Longrightarrow>
     slint_request ar e (sv_approver s) = (t, a) \<Longrightarrow>
     wt = \<lparr>wt_ticket = t, wt_id = rq_id rq, wt_request = ar, wt_kont = k\<rparr> \<Longrightarrow>
     server_step L ops hook s (Asked rq wt)
       (s\<lparr>sv_engine := en, sv_world := w, sv_approver := a, sv_waiting := sv_waiting s @ [wt]\<rparr>)"
| cancel: "dispatch L ops (rq_method rq) now (sv_engine s) (sv_world s) = (CancelPending, en, w) \<Longrightarrow>
     cancel_pending e (sv_approver s) = (b, a) \<Longrightarrow>
     server_step L ops hook s (Cancelled rq) (s\<lparr>sv_engine := en, sv_world := w, sv_approver := a\<rparr>)"
| tap_approve: "server_step L ops hook s (Tapped Approve (slot_channel (sv_approver s)))
     (s\<lparr>sv_approver := on_approve (sv_approver s)\<rparr>)"
| tap_reject: "server_step L ops hook s (Tapped Reject (slot_channel (sv_approver s)))
     (s\<lparr>sv_approver := on_reject (sv_approver s)\<rparr>)"
| tick: "server_step L ops hook s Ticked (s\<lparr>sv_approver := timeout_tick e (sv_approver s)\<rparr>)"
| turn: "server_step L ops hook s UiRan (s\<lparr>sv_approver := ui_turn (sv_approver s)\<rparr>)"
| finish: "wt \<in> set (sv_waiting s) \<Longrightarrow> ticket_decision (sv_approver s) (wt_ticket wt) = Some d \<Longrightarrow>
     resume L ops hook (wt_kont wt) d (sv_engine s) (sv_world s) = Some (r, en, w) \<Longrightarrow>
     server_step L ops hook s (Resumed wt d r)
       (s\<lparr>sv_engine := en, sv_world := w, sv_waiting := remove1 wt (sv_waiting s)\<rparr>)"
| edit: "server_step L ops hook s Edited
     (s\<lparr>sv_engine := (sv_engine s)\<lparr>en_store := st\<rparr>, sv_world := w\<rparr>)"

inductive_cases server_step_ResumedE: "server_step L ops hook s (Resumed wt d r) s'"

inductive server_run ::
  "'l libs_scheme \<Rightarrow> ('s, 'p, 'z world_scheme) store_ops \<Rightarrow> ('s, 'z world_scheme) on_write_hook \<Rightarrow>
   ('s, 'z world_scheme) server \<Rightarrow> event list \<Rightarrow> ('s, 'z world_scheme) server \<Rightarrow> bool"
for L ops hook where
  start: "server_run L ops hook s [] s"
| more: "server_run L ops hook s tr s1 \<Longrightarrow> server_step L ops hook s1 e s2 \<Longrightarrow>
     server_run L ops hook s (tr @ [e]) s2"

section \<open>Invariant\<close>

text \<open>The events of a run that concern one channel.\<close>

definition asked_on :: "nat \<Rightarrow> event \<Rightarrow> bool" where
  "asked_on c e \<longleftrightarrow> (\<exists>rq wt. e = Asked rq wt \<and> wt_ticket wt = Waiting c)"

text \<open>Channel \<open>c\<close> was asked on and, later, the user approved it.\<close>

definition approved_by_tap :: "event list \<Rightarrow> nat \<Rightarrow> bool" where
  "approved_by_tap tr c \<longleftrightarrow>
     (\<exists>tr1 tr2. tr = tr1 @ Tapped Approve (Some c) # tr2 \<and> (\<exists>e \<in> set tr1. asked_on c e))"

lemma approved_by_tap_append: "approved_by_tap tr c \<Longrightarrow> approved_by_tap (tr @ es) c"
  by (force simp: approved_by_tap_def)

lemma approved_by_tap_now:
  "\<exists>e \<in> set tr. asked_on c e \<Longrightarrow> approved_by_tap (tr @ [Tapped Approve (Some c)]) c"
  by (auto simp: approved_by_tap_def)

text \<open>A continuation belongs to its card.\<close>

fun kont_card :: "approval_request \<Rightarrow> kont \<Rightarrow> bool" where
  "kont_card ar (AfterRelease user pw now) \<longleftrightarrow> ar_action ar = Release \<and> ar_username ar = user"
| "kont_card ar (AfterStore ori user lab pw act) \<longleftrightarrow>
     ar_origin ar = ori \<and> ar_username ar = user \<and> ar_action ar \<in> {Save, Update, RestoreAndUpdate}"
| "kont_card ar (AfterGenerate ori user lab len charset act now) \<longleftrightarrow>
     ar_origin ar = ori \<and> ar_username ar = user \<and>
     ar_action ar \<in> {Generate, GenerateAndUpdate, GenerateAndRestore}"

lemma store_actions_card: "fst (store_actions e) \<in> {Save, Update, RestoreAndUpdate}"
  by (cases e) simp_all

lemma generate_actions_card: "fst (generate_actions e) \<in> {Generate, GenerateAndUpdate, GenerateAndRestore}"
  by (cases e) simp_all

lemma kont_for_card: "kont_for ops s ar k \<Longrightarrow> kont_card ar k"
proof (cases k)
  case (AfterStore ori user lab pw act)
  then show "kont_for ops s ar k \<Longrightarrow> kont_card ar k"
    using store_actions_card [of "so_probe ops s ori user"]
    by (cases "store_actions (so_probe ops s ori user)") auto
next
  case (AfterGenerate ori user lab len cs act now)
  then show "kont_for ops s ar k \<Longrightarrow> kont_card ar k"
    using generate_actions_card [of "so_probe ops s ori user"]
    by (cases "generate_actions (so_probe ops s ori user)") auto
qed simp

definition waiting_ok :: "event list \<Rightarrow> slint_approver \<Rightarrow> waiting \<Rightarrow> bool" where
  "waiting_ok tr a wt \<longleftrightarrow>
     (\<exists>rq. Asked rq wt \<in> set tr) \<and> kont_card (wt_request wt) (wt_kont wt) \<and>
     (case wt_ticket wt of Decided d \<Rightarrow> d = Reject
      | Waiting c \<Rightarrow> c < sa_channels a \<and> c \<notin> sa_closed a)"

definition channels_of :: "waiting list \<Rightarrow> nat list" where
  "channels_of ws = concat (map (\<lambda>wt. case wt_ticket wt of Waiting c \<Rightarrow> [c] | Decided _ \<Rightarrow> []) ws)"

definition resumed_channels :: "event list \<Rightarrow> nat list" where
  "resumed_channels tr =
     concat (map (\<lambda>e. case e of Resumed wt _ _ \<Rightarrow> channels_of [wt] | _ \<Rightarrow> []) tr)"

definition server_inv :: "event list \<Rightarrow> ('s, 'w) server \<Rightarrow> bool" where
  "server_inv tr s \<longleftrightarrow>
     slint_inv (sv_approver s) \<and>
     (\<forall>wt \<in> set (sv_waiting s). waiting_ok tr (sv_approver s) wt) \<and>
     distinct (channels_of (sv_waiting s) @ resumed_channels tr) \<and>
     (\<forall>c \<in> set (resumed_channels tr). c < sa_channels (sv_approver s)) \<and>
     (\<forall>p. sa_pending (sv_approver s) = Some p \<longrightarrow> (\<exists>e \<in> set tr. asked_on (pa_tx p) e)) \<and>
     (\<forall>c. sa_sent (sv_approver s) c = Some Approve \<longrightarrow> approved_by_tap tr c)"

lemma server_inv_new: "server_inv [] (server_new en0 w0)"
  by (simp add: server_inv_def server_new_def slint_inv_new channels_of_def resumed_channels_def)
    (simp add: slint_approver_new_def)


lemma channels_of_append [simp]: "channels_of (xs @ ys) = channels_of xs @ channels_of ys"
  by (simp add: channels_of_def)

lemma resumed_channels_append [simp]:
  "resumed_channels (tr @ tr') = resumed_channels tr @ resumed_channels tr'"
  by (simp add: resumed_channels_def)

lemma channels_of_remove1:
  "wt \<in> set ws \<Longrightarrow> mset (channels_of ws) = mset (channels_of [wt]) + mset (channels_of (remove1 wt ws))"
  by (induction ws) (auto simp: channels_of_def)

lemma waiting_ok_mono:
  "waiting_ok tr a wt \<Longrightarrow> sa_channels a \<le> sa_channels a' \<Longrightarrow>
   sa_closed a' \<subseteq> sa_closed a \<union> {sa_channels a} \<Longrightarrow> waiting_ok (tr @ es) a' wt"
  by (force simp: waiting_ok_def split: ticket.splits)

lemma waiting_ok_same:
  "waiting_ok tr a wt \<Longrightarrow> sa_channels a' = sa_channels a \<Longrightarrow> sa_closed a' = sa_closed a \<Longrightarrow>
   waiting_ok (tr @ es) a' wt"
  by (rule waiting_ok_mono) auto

text \<open>Steps that only work on the approver.\<close>

lemma server_inv_approver:
  assumes inv: "server_inv tr s" and si: "slint_inv a'"
    and ch: "sa_channels a' = sa_channels (sv_approver s)" "sa_closed a' = sa_closed (sv_approver s)"
    and pend: "\<And>p. sa_pending a' = Some p \<Longrightarrow> sa_pending (sv_approver s) = Some p"
    and appr: "\<And>c. sa_sent a' c = Some Approve \<Longrightarrow> sa_sent (sv_approver s) c = Some Approve \<or>
                (e = Tapped Approve (Some c) \<and> slot_channel (sv_approver s) = Some c)"
    and e: "resumed_channels [e] = []"
    and s': "sv_approver s' = a'" "sv_waiting s' = sv_waiting s"
  shows "server_inv (tr @ [e]) s'"
proof -
  have "approved_by_tap (tr @ [e]) c" if "sa_sent a' c = Some Approve" for c
  proof (cases "sa_sent (sv_approver s) c = Some Approve")
    case True
    then show ?thesis using inv by (auto simp: server_inv_def intro: approved_by_tap_append)
  next
    case False
    with appr [OF that] have t: "e = Tapped Approve (Some c)" "slot_channel (sv_approver s) = Some c" by auto
    then obtain p where "sa_pending (sv_approver s) = Some p" "pa_tx p = c" by (auto simp: slot_channel_def)
    then have "\<exists>e \<in> set tr. asked_on c e" using inv by (auto simp: server_inv_def)
    then show ?thesis using t(1) approved_by_tap_now by simp
  qed
  moreover have "\<exists>e' \<in> set (tr @ [e]). asked_on (pa_tx p) e'" if "sa_pending a' = Some p" for p
    using inv pend [OF that] by (auto simp: server_inv_def)
  ultimately show ?thesis
    using inv si ch e s' waiting_ok_same [of tr "sv_approver s" _ a' "[e]"] by (auto simp: server_inv_def)
qed

lemma server_inv_ask:
  assumes inv: "server_inv tr s" and r: "slint_request ar e (sv_approver s) = (t, a)"
    and k: "kont_card ar k" and wt: "wt = \<lparr>wt_ticket = t, wt_id = i, wt_request = ar, wt_kont = k\<rparr>"
    and s': "sv_approver s' = a" "sv_waiting s' = sv_waiting s @ [wt]"
  shows "server_inv (tr @ [Asked rq wt]) s'"
proof -
  have si: "slint_inv (sv_approver s)" using inv by (simp add: server_inv_def)
  note v = slint_request_view [OF si r]
  have t: "t = Waiting (sa_channels (sv_approver s)) \<or> t = Decided Reject"
    using v(3,4) by (cases "ue_loop_ok e") auto
  have old: "c < sa_channels (sv_approver s)"
    if "c \<in> set (channels_of (sv_waiting s)) \<union> set (resumed_channels tr)" for c
    using inv that by (fastforce simp: server_inv_def channels_of_def waiting_ok_def split: ticket.splits)
  have pend: "\<exists>e' \<in> set (tr @ [Asked rq wt]). asked_on (pa_tx p) e'" if "sa_pending a = Some p" for p
    using that v(3,4) wt by (cases "ue_loop_ok e") (auto simp: asked_on_def)
  have appr: "approved_by_tap (tr @ [Asked rq wt]) c" if "sa_sent a c = Some Approve" for c
    using that v(1) inv decide_pending_only [of Reject "sv_approver s" c Approve]
    by (auto simp: server_inv_def intro: approved_by_tap_append)
  have cl: "sa_closed a \<subseteq> sa_closed (sv_approver s) \<union> {sa_channels (sv_approver s)}"
    using v(3,4) by (cases "ue_loop_ok e") auto
  have "sa_channels (sv_approver s) \<notin> sa_closed (sv_approver s)" using si by (simp add: slint_inv_def)
  then have "case t of Decided d \<Rightarrow> d = Reject | Waiting c \<Rightarrow> c < sa_channels a \<and> c \<notin> sa_closed a"
    using v(2,3,4) by (cases "ue_loop_ok e") auto
  then have new: "waiting_ok (tr @ [Asked rq wt]) a wt"
    unfolding waiting_ok_def using k wt by (intro conjI exI [of _ rq]) auto
  have "waiting_ok (tr @ [Asked rq wt]) a wt'" if "wt' \<in> set (sv_waiting s')" for wt'
    using that inv waiting_ok_mono [of tr "sv_approver s" wt' a "[Asked rq wt]"] v(2) new s'(2) cl
    by (auto simp: server_inv_def)
  moreover have "distinct (channels_of (sv_waiting s') @ resumed_channels (tr @ [Asked rq wt]))"
  proof -
    have "channels_of [wt] = [] \<or> channels_of [wt] = [sa_channels (sv_approver s)]"
      using t wt by (auto simp: channels_of_def)
    moreover have "resumed_channels [Asked rq wt] = []" by (simp add: resumed_channels_def)
    moreover have "sa_channels (sv_approver s) \<notin> set (channels_of (sv_waiting s)) \<union> set (resumed_channels tr)"
      using old by blast
    ultimately show ?thesis using inv s'(2) by (auto simp: server_inv_def)
  qed
  moreover have "\<forall>c \<in> set (resumed_channels (tr @ [Asked rq wt])). c < sa_channels a"
    using old v(2) by (auto simp: resumed_channels_def less_Suc_eq)
  ultimately show ?thesis
    using slint_request_inv [OF si r] pend appr s'(1) by (simp add: server_inv_def)
qed

lemma server_inv_same:
  "server_inv tr s \<Longrightarrow> sv_approver s' = sv_approver s \<Longrightarrow> sv_waiting s' = sv_waiting s \<Longrightarrow> server_inv (tr @ [Edited]) s'"
  by (rule server_inv_approver [of tr s "sv_approver s"]) (simp_all add: server_inv_def resumed_channels_def)

lemma server_inv_finish:
  assumes inv: "server_inv tr s" and wt: "wt \<in> set (sv_waiting s)"
    and s': "sv_approver s' = sv_approver s" "sv_waiting s' = remove1 wt (sv_waiting s)"
  shows "server_inv (tr @ [Resumed wt d r]) s'"
proof -
  have m: "mset (channels_of (sv_waiting s') @ resumed_channels (tr @ [Resumed wt d r])) =
           mset (channels_of (sv_waiting s) @ resumed_channels tr)"
    using channels_of_remove1 [OF wt] s'(2) by (simp add: resumed_channels_def ac_simps)
  have d: "distinct (channels_of (sv_waiting s') @ resumed_channels (tr @ [Resumed wt d r]))"
    using inv mset_eq_imp_distinct_iff [OF m] by (simp add: server_inv_def)
  have "c < sa_channels (sv_approver s)" if "c \<in> set (resumed_channels (tr @ [Resumed wt d r]))" for c
  proof -
    have "c \<in> set (channels_of [wt]) \<union> set (resumed_channels tr)"
      using that by (auto simp: resumed_channels_def)
    then show ?thesis
      using inv wt by (fastforce simp: server_inv_def channels_of_def waiting_ok_def split: ticket.splits)
  qed
  with d inv s' waiting_ok_same [of tr "sv_approver s" _ "sv_approver s" "[Resumed wt d r]"]
  show ?thesis
    by (auto simp: server_inv_def dest: approved_by_tap_append notin_set_remove1 set_remove1_subset [THEN subsetD])
qed

lemma server_step_inv:
  assumes "server_step L ops hook s e s'" and "server_inv tr s"
  shows "server_inv (tr @ [e]) s'"
proof -
  have si: "slint_inv (sv_approver s)" using assms(2) by (simp add: server_inv_def)
  note ap = server_inv_approver [OF assms(2)]
  from assms(1) show ?thesis
  proof cases
    case (answer rq now r en w)
    then show ?thesis by (intro ap [OF si]) (auto simp: resumed_channels_def)
  next
    case (ask rq now ar k en w ev t a wt)
    have card: "kont_card ar k" by (rule kont_for_card [OF conjunct1 [OF dispatch_Ask [OF ask(3)]]])
    show ?thesis
      unfolding ask(1,2) by (rule server_inv_ask [OF assms(2) ask(4) card ask(5)]) simp_all
  next
    case (cancel rq now en w ev b a)
    note v = cancel_pending_view [OF si cancel(4)]
    show ?thesis
      by (rule ap [OF cancel_pending_inv [OF si cancel(4)]])
        (use v cancel(1,2) decide_pending_only [of Reject "sv_approver s"] in \<open>auto simp: resumed_channels_def\<close>)
  next
    case tap_approve
    then show ?thesis
      using on_tap_view [OF si, of Approve] on_tap_inv [OF si, of Approve]
        decide_pending_only [of Approve "sv_approver s"]
      by (intro ap [of "on_tap Approve (sv_approver s)"])
        (auto simp: resumed_channels_def on_approve_def slot_channel_def)
  next
    case tap_reject
    then show ?thesis
      using on_tap_view [OF si, of Reject] on_tap_inv [OF si, of Reject]
        decide_pending_only [of Reject "sv_approver s"]
      by (intro ap [of "on_tap Reject (sv_approver s)"])
        (auto simp: resumed_channels_def on_reject_def)
  next
    case (tick ev)
    then show ?thesis
      using timeout_tick_view [OF si, of ev] timeout_tick_inv [OF si, of ev]
      by (intro ap [of "timeout_tick ev (sv_approver s)"])
        (auto simp: resumed_channels_def dest: decide_pending_denied)
  next
    case turn
    then show ?thesis
      by (intro ap [OF ui_turn_inv [OF si]]) (auto simp: resumed_channels_def ui_turn_view)
  next
    case (finish wt d r en w)
    show ?thesis
      unfolding finish(1,2) by (rule server_inv_finish [OF assms(2) finish(3)]) simp_all
  next
    case (edit st w)
    then show ?thesis by (intro ap [OF si]) (auto simp: resumed_channels_def)
  qed
qed

lemma server_run_inv:
  "server_run L ops hook s0 tr s \<Longrightarrow> s0 = server_new en0 w0 \<Longrightarrow> server_inv tr s"
  by (induction rule: server_run.induct) (auto intro: server_inv_new server_step_inv)


section \<open>Runs\<close>

lemma server_run_split:
  "server_run L ops hook s0 (tr1 @ e # tr2) s \<Longrightarrow>
   \<exists>s1 s2. server_run L ops hook s0 tr1 s1 \<and> server_step L ops hook s1 e s2"
proof (induction tr2 arbitrary: s rule: rev_induct)
  case Nil
  from Nil.prems show ?case by (cases rule: server_run.cases) auto
next
  case (snoc x tr2)
  from snoc.prems obtain s1 where "server_run L ops hook s0 (tr1 @ e # tr2) s1"
    by (cases rule: server_run.cases) (auto simp flip: append_Cons append_assoc)
  then show ?case by (rule snoc.IH)
qed

text \<open>A run that releases the sample credential after a tap.\<close>

definition sample_request :: request where
  "sample_request = \<lparr>rq_id = ''1'', rq_method = ReleaseCredential \<lparr>rp_origin = ''https://example.com'',
     rp_username_hint = None, rp_request_nonce = 1\<rparr>\<rparr>"

definition sample_waiting :: waiting where
  "sample_waiting = \<lparr>wt_ticket = Waiting 0, wt_id = ''1'',
     wt_request = \<lparr>ar_action = Release, ar_origin = ''https://example.com'', ar_username = ''ann'',
                   ar_request_nonce = 1\<rparr>,
     wt_kont = AfterRelease ''ann'' ''pw'' 2000\<rparr>"

definition sample_asked :: "(keystore, world) server" where
  "sample_asked = \<lparr>sv_engine = (sample_engine sample_keystore)\<lparr>en_session :=
       sample_session\<lparr>ss_last_nonce := 1, ss_last_activity := 2000\<rparr>\<rparr>,
     sv_approver = slint_approver_new\<lparr>sa_channels := 1, sa_next_id := 2,
       sa_pending := Some \<lparr>pa_id = 1, pa_tx = 0, pa_deadline = APPROVAL_TIMEOUT\<rparr>,
       sa_queue := [ShowCard (wt_request sample_waiting)]\<rparr>,
     sv_waiting = [sample_waiting], sv_world = sample_world\<rparr>"

lemma sample_run_asked:
  "server_run sample_libs (keystore_ops sample_libs) hook (server_new (sample_engine sample_keystore) sample_world)
     [Asked sample_request sample_waiting] sample_asked"
proof -
  let ?s = "server_new (sample_engine sample_keystore) sample_world"
  let ?ar = "wt_request sample_waiting"
  have d: "dispatch sample_libs (keystore_ops sample_libs) (rq_method sample_request) 2000 (sv_engine ?s) (sv_world ?s) =
      (Ask ?ar (wt_kont sample_waiting), sv_engine sample_asked, sv_world ?s)"
    using sample_release [of sample_world] by (simp add: sample_request_def sample_waiting_def sample_asked_def server_new_def)
  have r: "slint_request ?ar \<lparr>ue_now = 0, ue_loop_ok = True\<rparr> (sv_approver ?s) = (Waiting 0, sv_approver sample_asked)"
    by (simp add: approver_op_defs server_new_def slint_approver_new_def sample_asked_def)
  have e: "?s\<lparr>sv_engine := sv_engine sample_asked, sv_world := sv_world ?s, sv_approver := sv_approver sample_asked,
      sv_waiting := sv_waiting ?s @ [sample_waiting]\<rparr> = sample_asked"
    by (simp add: server_new_def sample_asked_def)
  have "server_step sample_libs (keystore_ops sample_libs) hook ?s (Asked sample_request sample_waiting) sample_asked"
    using server_step.ask [OF d r, of sample_waiting hook] unfolding e
    by (simp add: sample_waiting_def sample_request_def)
  from server_run.more [OF server_run.start this] show ?thesis by simp
qed

lemma sample_run_released:
  obtains h s where "server_run sample_libs (keystore_ops sample_libs) hook
    (server_new (sample_engine sample_keystore) sample_world)
    ([Asked sample_request sample_waiting, Tapped Approve (Some 0)] @
     Resumed sample_waiting Approve (Inr (CredentialReleased ''ann'' h)) # []) s"
proof -
  let ?a = "on_approve (sv_approver sample_asked)"
  let ?s2 = "sample_asked\<lparr>sv_approver := ?a\<rparr>"
  have "slot_channel (sv_approver sample_asked) = Some 0"
    by (simp add: slot_channel_def sample_asked_def)
  with server_run.more [OF sample_run_asked server_step.tap_approve, of hook]
  have r2: "server_run sample_libs (keystore_ops sample_libs) hook
      (server_new (sample_engine sample_keystore) sample_world)
      [Asked sample_request sample_waiting, Tapped Approve (Some 0)] ?s2" by simp
  have t: "ticket_decision (sv_approver ?s2) (wt_ticket sample_waiting) = Some Approve"
    by (simp add: sample_waiting_def sample_asked_def on_approve_def approver_op_defs slint_approver_new_def Let_def)
  obtain h s w where "seal_password sample_libs ''pw'' 2000 (sv_engine ?s2) (sv_world ?s2) =
      (Inr h, (sv_engine ?s2)\<lparr>en_session := s\<rparr>, w)"
    using seal_password_total [OF sample_aead(2), of "sv_engine ?s2" "''pw''" 2000 "sv_world ?s2"]
    by (auto simp: sample_asked_def session_inv_def sample_session_def)
  then have rs: "resume sample_libs (keystore_ops sample_libs) hook (wt_kont sample_waiting) Approve (sv_engine ?s2)
      (sv_world ?s2) = Some (Inr (CredentialReleased ''ann'' h), (sv_engine ?s2)\<lparr>en_session := s\<rparr>, w)"
    by (simp add: sample_waiting_def resume_def)
  have "sample_waiting \<in> set (sv_waiting ?s2)" by (simp add: sample_asked_def)
  from server_run.more [OF r2 server_step.finish [OF this t rs]] that show ?thesis by auto
qed

lemma resume_released_user:
  "resume L ops hook k d en w = Some (Inr (CredentialReleased u h), en', w') \<Longrightarrow>
   \<exists>pw now. k = AfterRelease u pw now"
  by (cases d; cases k) (auto simp: resume_def split: prod.splits sum.splits option.splits)

text \<open>A handler that goes on as approved was approved by a tap on its own channel.\<close>

lemma approved_waiting_from_tap:
  assumes "server_inv tr s" and "wt \<in> set (sv_waiting s)"
    and "ticket_decision (sv_approver s) (wt_ticket wt) = Some Approve"
  shows "\<exists>c rq. wt_ticket wt = Waiting c \<and> Asked rq wt \<in> set tr \<and> approved_by_tap tr c"
    and "kont_card (wt_request wt) (wt_kont wt)"
proof -
  have ok: "waiting_ok tr (sv_approver s) wt" using assms(1,2) by (simp add: server_inv_def)
  with assms(3) obtain c where c: "wt_ticket wt = Waiting c" by (cases "wt_ticket wt") (auto simp: waiting_ok_def)
  with assms(1,3) have "approved_by_tap tr c" by (simp add: server_inv_def)
  with ok c show "\<exists>c rq. wt_ticket wt = Waiting c \<and> Asked rq wt \<in> set tr \<and> approved_by_tap tr c"
    by (auto simp: waiting_ok_def)
  show "kont_card (wt_request wt) (wt_kont wt)" using ok by (simp add: waiting_ok_def)
qed

lemma approved_resume_from_tap:
  assumes "server_inv tr s" and "server_step L ops hook s (Resumed wt Approve r) s'"
  shows "\<exists>c rq. wt_ticket wt = Waiting c \<and> Asked rq wt \<in> set tr \<and> approved_by_tap tr c"
    and "kont_card (wt_request wt) (wt_kont wt)"
  using assms(2) approved_waiting_from_tap [OF assms(1)] by (auto elim!: server_step_ResumedE)

lemma success_was_approved:
  "server_step L ops hook s (Resumed wt d (Inr body)) s' \<Longrightarrow> d = Approve"
  by (cases "d = Approve") (auto simp: resume_denied elim!: server_step_ResumedE)

text \<open>
  C4: nothing is released, stored or generated without the user's approval of that request.
  In every run of the app, whatever hosts send and however requests, taps, time outs and
  other edits interleave: when a handler ends in success, its own request was put to the
  user before, and after that the user tapped \<open>Approve\<close> while the approval slot held exactly
  this request's channel. A released user name is the one its card named.
\<close>

theorem effect_needs_own_approval:
  assumes run: "server_run L ops hook (server_new en0 w0) (tr1 @ Resumed wt d (Inr body) # tr2) s"
  shows "d = Approve \<and>
     (\<exists>c rq. wt_ticket wt = Waiting c \<and> Asked rq wt \<in> set tr1 \<and> approved_by_tap tr1 c) \<and>
     kont_card (wt_request wt) (wt_kont wt) \<and>
     (\<forall>u h. body = CredentialReleased u h \<longrightarrow>
        ar_action (wt_request wt) = Release \<and> ar_username (wt_request wt) = u)"
proof -
  from server_run_split [OF run] obtain s1 s2 where r1: "server_run L ops hook (server_new en0 w0) tr1 s1"
    and st: "server_step L ops hook s1 (Resumed wt d (Inr body)) s2" by blast
  have d: "d = Approve" by (rule success_was_approved [OF st])
  note tap = approved_resume_from_tap [OF server_run_inv [OF r1 refl] st [unfolded d]]
  have "\<exists>pw now. wt_kont wt = AfterRelease u pw now" if "body = CredentialReleased u h" for u h
    using st that by (auto elim!: server_step_ResumedE dest: resume_released_user)
  with d tap show ?thesis by auto
qed

lemma effect_needs_own_approval_witness:
  "\<exists>c. wt_ticket sample_waiting = Waiting c \<and>
     approved_by_tap [Asked sample_request sample_waiting, Tapped Approve (Some 0)] c"
proof (rule sample_run_released [of "\<lambda>ks w. (True, w)"])
  fix h s
  assume "server_run sample_libs (keystore_ops sample_libs) (\<lambda>ks w. (True, w))
    (server_new (sample_engine sample_keystore) sample_world)
    ([Asked sample_request sample_waiting, Tapped Approve (Some 0)] @
     Resumed sample_waiting Approve (Inr (CredentialReleased ''ann'' h)) # []) s"
  from effect_needs_own_approval [OF this] show ?thesis by blast
qed

text \<open>A handler that still waits holds the slot.\<close>

lemma undecided_holds_slot:
  assumes "server_inv tr s" and "wt \<in> set (sv_waiting s)"
    and "ticket_decision (sv_approver s) (wt_ticket wt) = None"
  obtains p where "sa_pending (sv_approver s) = Some p" "wt_ticket wt = Waiting (pa_tx p)"
proof -
  have ok: "waiting_ok tr (sv_approver s) wt" and si: "slint_inv (sv_approver s)"
    using assms(1,2) by (simp_all add: server_inv_def)
  from assms(3) obtain c where c: "wt_ticket wt = Waiting c" "sa_sent (sv_approver s) c = None"
    by (cases "wt_ticket wt") auto
  with ok have "c < sa_channels (sv_approver s)" "c \<notin> sa_closed (sv_approver s)"
    by (auto simp: waiting_ok_def)
  with c(2) si obtain p where "sa_pending (sv_approver s) = Some p" "pa_tx p = c"
    unfolding slint_inv_def by blast
  with c(1) that show ?thesis by simp
qed

text \<open>
  C25: one tap answers one request. In every run a channel is resumed at most once, so an
  approval cannot be spent twice, and at most one request waits undecided: a newer one has
  answered the older ones with \<open>Reject\<close>.
\<close>

theorem one_tap_one_request:
  assumes "server_run L ops hook (server_new en0 w0) tr s"
  shows "distinct (resumed_channels tr) \<and>
     (\<forall>wt \<in> set (sv_waiting s). \<forall>wt' \<in> set (sv_waiting s).
        ticket_decision (sv_approver s) (wt_ticket wt) = None \<longrightarrow>
        ticket_decision (sv_approver s) (wt_ticket wt') = None \<longrightarrow> wt_ticket wt = wt_ticket wt')"
proof -
  have inv: "server_inv tr s" by (rule server_run_inv [OF assms refl])
  have "wt_ticket wt = wt_ticket wt'"
    if "wt \<in> set (sv_waiting s)" "ticket_decision (sv_approver s) (wt_ticket wt) = None"
      "wt' \<in> set (sv_waiting s)" "ticket_decision (sv_approver s) (wt_ticket wt') = None" for wt wt'
    using undecided_holds_slot [OF inv that(1,2)] undecided_holds_slot [OF inv that(3,4)]
    by (metis option.inject)
  moreover have "distinct (resumed_channels tr)" using inv by (simp add: server_inv_def)
  ultimately show ?thesis by blast
qed


lemma one_tap_one_request_witness:
  "distinct (resumed_channels [Asked sample_request sample_waiting])"
  using one_tap_one_request [OF sample_run_asked [of "\<lambda>ks w. (True, w)"]] by blast

text \<open>
  C26: no request waits for ever. In every run, a handler that is still undecided is the one
  in the approval slot, and the first turn of the timeout worker at or after its deadline
  answers it with \<open>Timeout\<close>; before the deadline the worker leaves it alone.
\<close>

theorem waiting_request_times_out:
  assumes "server_run L ops hook (server_new en0 w0) tr s" and "wt \<in> set (sv_waiting s)"
    and "ticket_decision (sv_approver s) (wt_ticket wt) = None"
  shows "\<exists>p. sa_pending (sv_approver s) = Some p \<and> wt_ticket wt = Waiting (pa_tx p) \<and>
     (\<forall>e. ticket_decision (timeout_tick e (sv_approver s)) (wt_ticket wt) =
            (if pa_deadline p \<le> ue_now e then Some Timeout else None))"
proof -
  have inv: "server_inv tr s" by (rule server_run_inv [OF assms(1) refl])
  then have si: "slint_inv (sv_approver s)" by (simp add: server_inv_def)
  from undecided_holds_slot [OF inv assms(2,3)] obtain p where
    p: "sa_pending (sv_approver s) = Some p" "wt_ticket wt = Waiting (pa_tx p)" .
  from slint_inv_pending [OF si p(1)] p show ?thesis
    by (intro exI [of _ p]) (auto simp: timeout_tick_def send_decision_def enqueue_task_def)
qed

lemma waiting_request_times_out_witness:
  "ticket_decision (timeout_tick \<lparr>ue_now = 60000, ue_loop_ok = True\<rparr> (sv_approver sample_asked)) (Waiting 0) =
     Some Timeout"
proof -
  have "sample_waiting \<in> set (sv_waiting sample_asked)"
    "ticket_decision (sv_approver sample_asked) (wt_ticket sample_waiting) = None"
    by (simp_all add: sample_asked_def sample_waiting_def slint_approver_new_def)
  from waiting_request_times_out [OF sample_run_asked [of "\<lambda>ks w. (True, w)"] this]
  show ?thesis by (auto simp: sample_asked_def sample_waiting_def APPROVAL_TIMEOUT_def)
qed


section \<open>Nonces and the store along a run\<close>

definition asked_nonces :: "event list \<Rightarrow> u64 list" where
  "asked_nonces tr =
     concat (map (\<lambda>e. case e of Asked rq wt \<Rightarrow> [ar_request_nonce (wt_request wt)] | _ \<Rightarrow> []) tr)"

fun establishes :: "event \<Rightarrow> bool" where
  "establishes (Answered rq r) \<longleftrightarrow> (\<exists>h. rq_method rq = EstablishSession h)"
| "establishes _ \<longleftrightarrow> False"

lemma dispatch_nonce_mono:
  assumes "dispatch L ops m now en w = (out, en', w')" and "\<forall>h. m \<noteq> EstablishSession h"
  shows "ss_last_nonce (en_session en) \<le> ss_last_nonce (en_session en')"
proof -
  have g: "ss_last_nonce (en_session en) \<le> ss_last_nonce (en_session en1)"
    if "gate_session n t en = (r, en1)" for n t r en1
    using that by (auto simp: gate_session_def accept_nonce_def split: prod.splits bool.splits if_splits
        dest!: check_idle_nonce)
  have a: "ss_last_nonce (en_session en1) = ss_last_nonce (en_session en)"
    if "gate_active_session t en = (r, en1)" for t r en1
    using that by (auto simp: gate_active_session_def split: prod.splits bool.splits if_splits dest: check_idle_nonce)
  show ?thesis
  proof (cases m)
    case (StoreCredential p)
    then show ?thesis using assms(1)
      by (auto simp: store_begin_def Let_def split: sum.splits prod.splits option.splits if_splits
          dest!: g open_frame)
  qed (use assms in \<open>auto simp: release_begin_def generate_begin_def Let_def
        split: sum.splits prod.splits option.splits if_splits dest: g a\<close>)
qed

lemma resume_nonce:
  assumes "resume L ops hook k d en w = Some (r, en', w')"
  shows "ss_last_nonce (en_session en') = ss_last_nonce (en_session en)"
proof -
  have c: "en_session en1 = en_session en0"
    if "commit_store_mutation ops hook mut en0 w0 = (r0, en1, w1)" for mut w0 r0 en1 w1 and en0
    using that by (auto simp: commit_store_mutation_def Let_def split: prod.splits sum.splits bool.splits)
  show ?thesis using assms
    by (cases d; cases k)
      (auto simp: resume_def split: prod.splits sum.splits option.splits dest!: seal_password_frame c)
qed

lemma server_step_nonce:
  assumes "server_step L ops hook s e s'" and "\<not> establishes e"
  shows "let n = ss_last_nonce (en_session (sv_engine s)); n' = ss_last_nonce (en_session (sv_engine s')) in
     n \<le> n' \<and> (\<forall>k \<in> set (asked_nonces [e]). n < k \<and> k \<le> n') \<and> length (asked_nonces [e]) \<le> 1"
  using assms
proof cases
  case (answer rq now r en w)
  then show ?thesis
    using dispatch_nonce_mono [OF answer(3)] assms(2) by (auto simp: asked_nonces_def)
next
  case (ask rq now ar k en w ev t a wt)
  then show ?thesis using dispatch_Ask [OF ask(3)] by (auto simp: asked_nonces_def)
next
  case (cancel rq now en w ev b a)
  then have "\<forall>h. rq_method rq \<noteq> EstablishSession h" by (auto split: sum.splits prod.splits)
  with cancel show ?thesis using dispatch_nonce_mono [OF cancel(3)] by (auto simp: asked_nonces_def)
next
  case (finish wt d r en w)
  then show ?thesis using resume_nonce [OF finish(5)] by (auto simp: asked_nonces_def)
qed (auto simp: asked_nonces_def)



text \<open>
  Only an approved write changes the store. A step of the app that leaves another store
  than it found is an edit on the device or the end of a \<open>store\<close> or \<open>generate\<close> request with
  the decision \<open>Approve\<close>; no arriving request, cancellation, tap, time out or release does.
\<close>

lemma only_approved_writes_change_the_store:
  assumes "server_step L ops hook s e s'" and "en_store (sv_engine s') \<noteq> en_store (sv_engine s)"
  shows "e = Edited \<or> (\<exists>wt r. e = Resumed wt Approve r \<and> (\<forall>u p t. wt_kont wt \<noteq> AfterRelease u p t))"
  using assms
proof cases
  case (finish wt d r en w)
  have "d = Approve"
    using finish assms(2) by (cases "d = Approve") (auto simp: resume_denied)
  moreover have "\<forall>u p t. wt_kont wt \<noteq> AfterRelease u p t"
    using finish assms(2) calculation
    by (auto simp: resume_def split: prod.splits sum.splits dest!: seal_password_frame)
  ultimately show ?thesis using finish by simp
qed (auto dest: dispatch_frame)

end
