(* ===== verification/EngineProps.thy ===== *)
theory EngineProps
  imports Bridge
begin

text \<open>
  Properties of whole requests (\<open>Engine::handle\<close>): what an answer can change and reveal,
  which errors it can be, that it is always given, and what a successful one means.
\<close>

section \<open>Answers that reveal or change a credential\<close>

fun effective :: "response \<Rightarrow> bool" where
  "effective (RespOk _ (CredentialReleased _ _)) = True"
| "effective (RespOk _ (CredentialStored _)) = True"
| "effective (RespOk _ (PasswordGenerated _ _)) = True"
| "effective _ = False"

lemma dispatch_Done_body:
  "dispatch L ops m now en w = (Done (Inr body), en', w') \<Longrightarrow> \<not> effective (RespOk i body)"
  by (cases m) (auto simp: begin_defs Let_def split: sum.splits prod.splits option.splits if_splits)

lemma effective_respond_Inl [simp]: "\<not> effective (respond i (Inl e))"
  by (cases e) simp

text \<open>The three ways a request ends.\<close>

lemma handle_cases:
  assumes "handle L ops hook decide req now en w = Some (resp, en', w')"
  obtains (finished) "en_store en' = en_store en" "\<not> effective resp"
  | (asked) ar k en1 r where "dispatch L ops (rq_method req) now en w = (Ask ar k, en1, w)"
      "kont_for ops (en_store en) ar k" "en_store en1 = en_store en"
      "resume L ops hook k (decide ar) en1 w = Some (r, en', w')" "resp = respond (rq_id req) r"
proof -
  obtain out en1 w1 where d: "dispatch L ops (rq_method req) now en w = (out, en1, w1)"
    using prod_cases3 by blast
  show ?thesis
  proof (cases out)
    case (Done r)
    show ?thesis
    proof (rule finished)
      show "en_store en' = en_store en" using assms d Done dispatch_frame [OF d] by (simp add: handle_def)
      show "\<not> effective resp"
        using assms d Done dispatch_Done_body [of L ops "rq_method req" now en w _ en1 w1 "rq_id req"]
        by (cases r) (auto simp: handle_def)
    qed
  next
    case (Ask ar k)
    note a = dispatch_Ask [OF d [unfolded Ask]]
    from assms d Ask obtain r where "resume L ops hook k (decide ar) en1 w1 = Some (r, en', w')"
      "resp = respond (rq_id req) r" by (auto simp: handle_def)
    then show ?thesis
      using a d Ask dispatch_frame [OF d] by (intro asked [of ar k en1 r]) auto
  next
    case CancelPending
    show ?thesis
      by (rule finished) (use assms d CancelPending dispatch_frame [OF d] in \<open>auto simp: handle_def\<close>)
  qed
qed

text \<open>
  Without the user's approval a request has no effect: whatever it is and whatever the
  state, when every card is rejected or times out the store is unchanged and the answer
  neither reveals a password nor reports a change.
\<close>

lemma unapproved_request_has_no_effect:
  assumes "\<And>ar. decide ar \<noteq> Approve" and "handle L ops hook decide req now en w = Some (resp, en', w')"
  shows "en_store en' = en_store en \<and> \<not> effective resp"
  using assms(2)
proof (cases rule: handle_cases)
  case (asked ar k en1 r)
  have "r = Inl (if decide ar = Reject then (UserRejected, ''user rejected'')
                 else (TimedOut, ''approval timed out''))" "en' = en1"
    using asked(4) by (simp_all add: resume_denied [OF assms(1)])
  with asked show ?thesis by simp
qed simp

lemma sample_release_rejected:
  "handle sample_libs (keystore_ops sample_libs) (\<lambda>ks w. (True, w)) (\<lambda>_. Timeout)
     \<lparr>rq_id = ''1'', rq_method = ReleaseCredential \<lparr>rp_origin = ''https://example.com'',
        rp_username_hint = None, rp_request_nonce = 1\<rparr>\<rparr> 2000 (sample_engine sample_keystore) w =
   Some (RespErr ''1'' 5 ''approval timed out'',
     (sample_engine sample_keystore)\<lparr>en_session := sample_session\<lparr>ss_last_nonce := 1, ss_last_activity := 2000\<rparr>\<rparr>, w)"
  using sample_release [of w] by (simp add: handle_def resume_def)

section \<open>Persistence\<close>

text \<open>
  C22: an answer never reports a change that did not reach the disk. When the persistence
  hook fails, the keystore in memory is put back as it was and the answer is neither
  \<open>CredentialStored\<close> nor \<open>PasswordGenerated\<close>.
\<close>

theorem failed_persist_rolls_back:
  fixes hook :: "(keystore, 'z world_scheme) on_write_hook"
  assumes "\<And>ks w. \<not> fst (hook ks w)"
    and "handle L (keystore_ops L) hook decide req now en w = Some (resp, en', w')"
  shows "en_store en' = en_store en \<and>
         (\<forall>i act h. resp \<noteq> RespOk i (CredentialStored act) \<and> resp \<noteq> RespOk i (PasswordGenerated h act))"
  using assms(2)
proof (cases rule: handle_cases)
  case (asked ar k en1 r)
  have cm: "en2 = en0 \<and> (\<exists>msg. x = Inl (Internal, msg))"
    if "commit_store_mutation (keystore_ops L) hook (upsert_mutation (keystore_ops L) c u p l) en0 w0 =
          (x, en2, w2)" for c u p l and en0 en2 :: "keystore engine" and w0 w2 x
    using that
  proof (cases rule: ks_engine.commit_upsert_cases)
    case (committed s w1)
    then show ?thesis using assms(1) [of s w1] by simp
  qed simp
  have "en_store en' = en_store en1 \<and> (\<forall>act h. r \<noteq> Inr (CredentialStored act) \<and> r \<noteq> Inr (PasswordGenerated h act))"
  proof (cases "decide ar = Approve")
    case True
    then have "resume_approved L (keystore_ops L) hook k en1 w = Some (r, en', w')"
      using asked(4) by (simp add: resume_def)
    then show ?thesis
      by (cases k) (auto split: prod.splits sum.splits option.splits dest: cm seal_password_frame)
  next
    case False
    then show ?thesis using asked(4) by (auto simp: resume_denied)
  qed
  with asked show ?thesis by auto
next
  case finished
  then show ?thesis by (cases resp rule: effective.cases) auto
qed

text \<open>A store of a new password for the sample credential, with a failing disk.\<close>

lemma sample_store_returns:
  obtains sealed resp en' w' where
    "handle sample_libs (keystore_ops sample_libs) hook (\<lambda>_. Approve)
       \<lparr>rq_id = ''1'', rq_method = StoreCredential \<lparr>sp_origin = ''https://example.com'',
          sp_username = ''bob'', sp_label = None, sp_password_sealed = sealed, sp_request_nonce = 1\<rparr>\<rparr>
       2000 (sample_engine sample_keystore) sample_world = Some (resp, en', w')"
proof -
  obtain sealed s1 w1 where sl: "seal sample_libs (as_bytes ''pw'') 0 sample_session sample_world = (Inr sealed, s1, w1)"
    by (rule sample_sealed)
  have pw: "str_ok ''pw''" by code_simp
  let ?p = "\<lparr>sp_origin = ''https://example.com'', sp_username = ''bob'', sp_label = None,
             sp_password_sealed = sealed, sp_request_nonce = 1\<rparr>"
  have n: "check_names (sp_username ?p) (sp_label ?p) = Inr ()"
    by (simp add: check_names_def check_str_len_def check_opt_len_def MAX_USERNAME_BYTES_def)
  let ?en1 = "(sample_engine sample_keystore)\<lparr>en_session :=
      sample_session\<lparr>ss_last_nonce := 1, ss_last_activity := 2000\<rparr>\<rparr>"
  have g: "gate_session (sp_request_nonce ?p) 2000 (sample_engine sample_keystore) = (Inr (), ?en1)"
    using sample_gate [of 1 sample_keystore] by simp
  obtain ar act s where "store_begin sample_libs (keystore_ops sample_libs :: (_, _, world) store_ops) ?p 2000
      (sample_engine sample_keystore) = (Ask ar (AfterStore ''https://example.com'' ''bob'' None ''pw'' act),
        ?en1\<lparr>en_session := s\<rparr>)"
    using store_begin_asks [OF sample_aead(1) sample_hex sample_session_inv(1) sl pw _ _ _ n g,
        where ori = "''https://example.com''" and ops = "keystore_ops sample_libs"]
    by (auto simp: sample_canonical MAX_PASSWORD_BYTES_def)
  then have "handle sample_libs (keystore_ops sample_libs) hook (\<lambda>_. Approve)
     \<lparr>rq_id = ''1'', rq_method = StoreCredential ?p\<rparr> 2000 (sample_engine sample_keystore) sample_world \<noteq> None"
    by (auto simp: handle_def resume_def split: prod.splits sum.splits)
  then show ?thesis using that by auto
qed

lemma failed_persist_rolls_back_witness:
  "\<exists>req resp en' w'. handle sample_libs (keystore_ops sample_libs) (\<lambda>ks w. (False, w)) (\<lambda>_. Approve) req
     2000 (sample_engine sample_keystore) sample_world = Some (resp, en', w') \<and> en_store en' = sample_keystore"
proof (rule sample_store_returns [of "\<lambda>ks w. (False, w)"])
  fix sealed resp en' w'
  assume "handle sample_libs (keystore_ops sample_libs) (\<lambda>ks w. (False, w)) (\<lambda>_. Approve)
       \<lparr>rq_id = ''1'', rq_method = StoreCredential \<lparr>sp_origin = ''https://example.com'',
          sp_username = ''bob'', sp_label = None, sp_password_sealed = sealed, sp_request_nonce = 1\<rparr>\<rparr>
       2000 (sample_engine sample_keystore) sample_world = Some (resp, en', w')"
  from failed_persist_rolls_back [OF _ this] this show ?thesis by (simp only: fst_conv sample_engine_sel) blast
qed

section \<open>Frame\<close>

text \<open>The credential a request names for a change.\<close>

fun names_key :: "'l libs_scheme \<Rightarrow> wire_method \<Rightarrow> string \<Rightarrow> string \<Rightarrow> bool" where
  "names_key L (StoreCredential p) ori user \<longleftrightarrow>
     canonicalize_origin L (sp_origin p) = Inr ori \<and> sp_username p = user"
| "names_key L (GeneratePassword p) ori user \<longleftrightarrow>
     canonicalize_origin L (gp_origin p) = Inr ori \<and> gp_username p = user"
| "names_key L _ ori user \<longleftrightarrow> False"

lemma dispatch_Ask_key:
  assumes "dispatch L ops m now en w = (Ask ar k, en', w')"
  shows "(\<exists>u p t. k = AfterRelease u p t) \<or> names_key L m (ar_origin ar) (ar_username ar)"
  using assms
  by (cases m) (auto simp: begin_defs Let_def split: sum.splits prod.splits option.splits if_splits)

text \<open>
  A request touches no other credential. For every origin and user name but the one a
  \<open>store\<close> or \<open>generate\<close> request names, what a release would give is the same before and
  after, whatever the user answers and whether or not the write succeeds.
\<close>

lemma request_changes_only_its_credential:
  fixes hook :: "(keystore, 'z world_scheme) on_write_hook"
  assumes "handle L (keystore_ops L) hook decide req now en w = Some (resp, en', w')"
    and "\<not> names_key L (rq_method req) ori user"
  shows "hinted (keystore_ops L :: (_, _, 'z world_scheme) store_ops) (en_store en') ori user =
         hinted (keystore_ops L :: (_, _, 'z world_scheme) store_ops) (en_store en) ori user"
  using assms(1)
proof (cases rule: handle_cases)
  case (asked ar k en1 r)
  show ?thesis
  proof (cases "\<exists>u p t. k = AfterRelease u p t")
    case True
    have "en_store en' = en_store en1"
    proof (cases "decide ar = Approve")
      case app: True
      then show ?thesis using asked(4) True
        by (auto simp: resume_def split: prod.splits sum.splits dest: seal_password_frame)
    next
      case False
      then show ?thesis using asked(4) by (simp add: resume_denied)
    qed
    with asked show ?thesis by simp
  next
    case False
    with dispatch_Ask_key [OF asked(1)] assms(2) have "(ori, user) \<noteq> (ar_origin ar, ar_username ar)" by auto
    from ks_engine.resume_hinted_other [OF asked(4,2) this] asked(3) show ?thesis by simp
  qed
qed simp

section \<open>Every request is answered\<close>

lemma handle_returns:
  assumes "fair (w_rng w)"
  shows "\<exists>resp en' w'. handle L ops hook decide req now en w = Some (resp, en', w') \<and>
           response_id resp = rq_id req"
proof -
  obtain out en1 w1 where d: "dispatch L ops (rq_method req) now en w = (out, en1, w1)"
    using prod_cases3 by blast
  show ?thesis
  proof (cases out)
    case (Ask ar k)
    have w1: "w1 = w" and kf: "kont_for ops (en_store en) ar k"
      using dispatch_Ask [OF d [unfolded Ask]] by simp_all
    have "resume_approved L ops hook k en1 w \<noteq> None"
    proof (cases k)
      case (AfterGenerate c u l len cs act t)
      then have "len < 2 ^ 32" using kf by simp
      with generate_password_returns [OF assms this, of cs] AfterGenerate show ?thesis
        by (auto split: prod.splits sum.splits)
    qed (auto split: prod.splits sum.splits)
    then have "resume L ops hook k (decide ar) en1 w \<noteq> None"
      by (cases "decide ar") (simp_all add: resume_def)
    then show ?thesis using d Ask w1 by (auto simp: handle_def)
  qed (use d in \<open>auto simp: handle_def\<close>)
qed

text \<open>
  C27: every request gets an answer, with its own \<open>id\<close>. When the random tape is fair, so that
  rejection sampling ends, handling a request returns, for every store, hook and decision.
\<close>

theorem every_request_is_answered:
  assumes "fair (w_rng w)"
  shows "\<exists>resp en' w'. handle L ops hook decide req now en w = Some (resp, en', w') \<and>
           response_id resp = rq_id req"
  using assms by (rule handle_returns)

lemma every_request_is_answered_witness:
  "\<exists>resp en' w'. handle sample_libs (keystore_ops sample_libs) (\<lambda>ks w. (True, w)) (\<lambda>_. Approve)
     \<lparr>rq_id = ''7'', rq_method = GeneratePassword \<lparr>gp_origin = ''https://example.com'', gp_username = ''bob'',
        gp_label = None, gp_length = None, gp_charset = None, gp_request_nonce = 1\<rparr>\<rparr>
     2000 (sample_engine sample_keystore) sample_world = Some (resp, en', w') \<and> response_id resp = ''7''"
  using every_request_is_answered [OF sample_fair, of _ _ _ _ "\<lparr>rq_id = ''7'', rq_method = GeneratePassword
    \<lparr>gp_origin = ''https://example.com'', gp_username = ''bob'', gp_label = None, gp_length = None,
     gp_charset = None, gp_request_nonce = 1\<rparr>\<rparr>"] by simp

text \<open>
  The error codes on the wire. A failed request answers with the \<open>id\<close> of the request and
  one of nine codes; \<open>UnknownMethod\<close> (2) and \<open>NotUnlocked\<close> (6) are never sent by the engine.
\<close>

lemma error_codes_sent:
  assumes "handle L ops hook decide req now en w = Some (RespErr i c msg, en', w')"
  shows "i = rq_id req \<and> c \<in> {1, 3, 4, 5, 7, 8, 9, 10, 99}"
proof -
  obtain out en1 w1 where d: "dispatch L ops (rq_method req) now en w = (out, en1, w1)"
    using prod_cases3 by blast
  then obtain e where "i = rq_id req" "c = error_code_i32 (fst e)" "fst e \<in> engine_codes"
    using assms by (cases out) (auto simp: handle_def dest!: dispatch_codes resume_codes)
  then show ?thesis by (auto simp: engine_codes_def)
qed

lemma error_codes_sent_witness: "(5 :: int) \<in> {1, 3, 4, 5, 7, 8, 9, 10, 99}"
  using error_codes_sent [OF sample_release_rejected [of sample_world]] by blast

section \<open>Sessions\<close>

text \<open>
  C29: without an active session nothing but \<open>ping\<close>, \<open>establish_session\<close> and \<open>cancel\<close> works.
  Every other request is refused with \<open>SessionExpired\<close> (or \<open>InvalidRequest\<close> where its
  parameters are malformed), asks the user nothing and leaves the engine as it was.
\<close>

theorem no_session_no_service:
  assumes "ss_state (en_session en) \<noteq> Active" and "needs_session (rq_method req)"
  shows "\<exists>c msg. handle L ops hook decide req now en w = Some (RespErr (rq_id req) c msg, en, w) \<and> c \<in> {1, 7}"
proof -
  obtain out en1 w1 where d: "dispatch L ops (rq_method req) now en w = (out, en1, w1)"
    using prod_cases3 by blast
  from dispatch_inactive [OF assms d] obtain e where "out = Done (Inl e)"
    "fst e \<in> {SessionExpired, InvalidRequest}" "en1 = en" "w1 = w" by auto
  with d show ?thesis by (cases e) (auto simp: handle_def)
qed

lemma no_session_no_service_witness:
  "\<exists>c msg. handle sample_libs (keystore_ops sample_libs) (\<lambda>ks w. (True, w)) (\<lambda>_. Approve)
     \<lparr>rq_id = ''1'', rq_method = ListOrigins\<rparr> 0 (engine_new sample_keystore DEFAULT_IDLE_MS) sample_world =
     Some (RespErr ''1'' c msg, engine_new sample_keystore DEFAULT_IDLE_MS, sample_world) \<and> c \<in> {1, 7}"
  using no_session_no_service [of "engine_new sample_keystore DEFAULT_IDLE_MS" "\<lparr>rq_id = ''1'', rq_method = ListOrigins\<rparr>"]
  by (simp add: engine_new_def session_new_def needs_session_def)


section \<open>What a successful write means\<close>

lemma handle_store_Ok:
  assumes "handle L ops hook decide \<lparr>rq_id = i, rq_method = StoreCredential p\<rparr> now en w =
             Some (RespOk j (CredentialStored act), en', w')"
  obtains ori ar en1 pw where "canonicalize_origin L (sp_origin p) = Inr ori"
    "store_actions (so_probe ops (en_store en) ori (sp_username p)) = (ar_action ar, act)"
    "ar_origin ar = ori" "ar_username ar = sp_username p" "decide ar = Approve" "en_store en1 = en_store en"
    "commit_store_mutation ops hook (upsert_mutation ops ori (sp_username p) pw (sp_label p)) en1 w = (Inr (), en', w')"
  using assms
proof (cases rule: handle_cases)
  case (asked ar k en1 r)
  have d: "decide ar = Approve"
    using asked(4,5) by (cases "decide ar = Approve") (auto simp: resume_denied)
  from asked(1) obtain ori pw a where c: "canonicalize_origin L (sp_origin p) = Inr ori"
    and k: "k = AfterStore ori (sp_username p) (sp_label p) pw a"
    by (auto simp: store_begin_def Let_def split: sum.splits prod.splits option.splits if_splits)
  show ?thesis
    by (rule that [of ori ar en1 pw])
      (use asked(2-5) d c k in \<open>auto simp: resume_def split: prod.splits sum.splits\<close>)
qed simp

text \<open>
  C23: \<open>CredentialStored\<close> tells the truth. It is sent only after the user approved a card that
  showed this origin, this user name and this action; the action is the one for what the
  keystore held before (nothing, a live or an archived record); afterwards the credential
  is live, and the very keystore of the new state was persisted.
\<close>

theorem stored_action_is_truthful:
  fixes hook :: "(keystore, 'z world_scheme) on_write_hook"
  assumes "handle L (keystore_ops L) hook decide \<lparr>rq_id = i, rq_method = StoreCredential p\<rparr> now en w =
             Some (RespOk j (CredentialStored act), en', w')"
  shows "\<exists>ori ar w1. canonicalize_origin L (sp_origin p) = Inr ori \<and>
     decide ar = Approve \<and> ar_origin ar = ori \<and> ar_username ar = sp_username p \<and>
     (ar_action ar, act) = (case ks_probe (en_store en) ori (sp_username p) of
        NoCredential \<Rightarrow> (Save, Saved) | Live \<Rightarrow> (Update, Updated)
      | Archived \<Rightarrow> (RestoreAndUpdate, RestoredAndUpdated)) \<and>
     ks_probe (en_store en') ori (sp_username p) = Live \<and> hook (en_store en') w1 = (True, w')"
  using assms
proof (cases rule: handle_store_Ok)
  case (1 ori ar en1 pw)
  from 1(7) obtain s w1 where
    u: "so_upsert (keystore_ops L) ori (sp_username p) pw (sp_label p) (en_store en1) w = (Inr (), s, w1)"
    and h: "hook s w1 = (True, w')" and s: "en_store en' = s"
    by (cases rule: ks_engine.commit_upsert_cases) auto
  have "ks_upsert L ori (sp_username p) pw (sp_label p) (en_store en1) w = (Inr (), s, w1)"
    using u by (simp add: keystore_ops_def)
  from ks_upsert_probe [OF this] have live: "ks_probe (en_store en') ori (sp_username p) = Live"
    by (simp only: s)
  have "hook (en_store en') w1 = (True, w')" using h s by simp
  then show ?thesis
    using 1(1-5) live
    by (intro exI [of _ ori] exI [of _ ar] exI [of _ w1])
      (cases "ks_probe (en_store en) ori (sp_username p)", simp_all)
qed

lemma stored_action_is_truthful_witness:
  "\<exists>en' :: keystore engine. ks_probe (en_store en') ''https://example.com'' ''ann'' = Live"
proof -
  obtain sealed s1 w1 where
    "seal sample_libs (as_bytes ''pw'') 0 sample_session sample_world = (Inr sealed, s1, w1)"
    by (rule sample_sealed)
  note r = handle_store_approved [OF sample_aead(1) sample_hex _ _ _ this, of
      "\<lparr>sp_origin = ''https://example.com'', sp_username = ''ann'', sp_label = None,
        sp_password_sealed = sealed, sp_request_nonce = 1\<rparr>" "''https://example.com''" 2000
      "sample_engine sample_keystore" _ "\<lambda>ks w. (True, w)" "''1''" sample_world]
  have "str_ok ''pw''" by code_simp
  moreover have "check_names ''ann'' None = Inr ()"
    by (simp add: check_names_def check_str_len_def check_opt_len_def MAX_USERNAME_BYTES_def)
  ultimately obtain act ks w2 where "handle sample_libs (keystore_ops sample_libs) (\<lambda>ks w. (True, w)) (\<lambda>_. Approve)
      \<lparr>rq_id = ''1'', rq_method = StoreCredential \<lparr>sp_origin = ''https://example.com'', sp_username = ''ann'',
        sp_label = None, sp_password_sealed = sealed, sp_request_nonce = 1\<rparr>\<rparr> 2000
      (sample_engine sample_keystore) sample_world = Some (RespOk ''1'' (CredentialStored act), ks, w2)"
    using r sample_gate [of 1 sample_keystore] sample_canonical(2)
    by (force simp: MAX_PASSWORD_BYTES_def)
  from stored_action_is_truthful [OF this] show ?thesis using sample_canonical(2) by auto
qed

text \<open>
  C24: a generated password is strong, stored and the one the host gets. On success the keystore
  releases for this origin and user name exactly the password that the host opens from the
  answer, its length is the requested one clamped to 16..64, and it holds a character of
  every enabled class.
\<close>

theorem generated_password_is_stored_and_sealed:
  fixes hook :: "(keystore, 'z world_scheme) on_write_hook"
  assumes laws: "aead_ok L" "hex_ok L" and inv: "session_inv (en_session en)"
    and h: "handle L (keystore_ops L) hook decide \<lparr>rq_id = i, rq_method = GeneratePassword p\<rparr> now en w =
             Some (RespOk j (PasswordGenerated sealed act), en', w')"
    and host: "ss_state host = Active" "ss_key host = ss_key (en_session en)"
  shows "\<exists>ori pw. canonicalize_origin L (gp_origin p) = Inr ori \<and>
     hinted (keystore_ops L :: (_, _, 'z world_scheme) store_ops) (en_store en') ori (gp_username p) =
       Some \<lparr>cm_username = gp_username p, cm_password = pw\<rparr> \<and>
     fst (open_sealed L sealed t host) = Inr (as_bytes pw) \<and>
     length pw = unat (clamp_length (gp_length p)) \<and>
     (\<forall>cl \<in> set (charset_classes (case gp_charset p of None \<Rightarrow> charset_hint_default | Some c \<Rightarrow> c)).
        set (as_bytes pw) \<inter> set cl \<noteq> {})"
  using h
proof (cases rule: handle_cases)
  case (asked ar k en1 r)
  let ?cs = "case gp_charset p of None \<Rightarrow> charset_hint_default | Some c \<Rightarrow> c"
  let ?n = "unat (clamp_length (gp_length p))"
  have "decide ar = Approve" using asked(4,5) by (cases "decide ar = Approve") (auto simp: resume_denied)
  then have ra: "resume_approved L (keystore_ops L) hook k en1 w = Some (Inr (PasswordGenerated sealed act), en', w')"
    using asked(4,5) by (simp add: resume_def)
  from asked(1) obtain ori a where c: "canonicalize_origin L (gp_origin p) = Inr ori"
    and k: "k = AfterGenerate ori (gp_username p) (gp_label p) ?n ?cs a now"
    by (auto simp: generate_begin_def Let_def split: sum.splits prod.splits option.splits if_splits)
  from ra k obtain pw w0 en2 w2 where g: "generate_password ?n ?cs w = Some (pw, w0)"
    and cm: "commit_store_mutation (keystore_ops L) hook
               (upsert_mutation (keystore_ops L) ori (gp_username p) pw (gp_label p)) en1 w0 = (Inr (), en2, w2)"
    and sp: "seal_password L pw now en2 w2 = (Inr sealed, en', w')"
    by (auto split: prod.splits sum.splits option.splits)
  from cm obtain s w3 where u: "ks_upsert L ori (gp_username p) pw (gp_label p) (en_store en1) w0 = (Inr (), s, w3)"
    and e2: "en2 = en1\<lparr>en_store := s\<rparr>"
    by (cases rule: ks_engine.commit_upsert_cases) (auto simp: keystore_ops_def)
  have s1: "session_inv (en_session en1)" "ss_key (en_session en1) = ss_key (en_session en)"
    using dispatch_Ask [OF asked(1)] inv by (auto simp: session_inv_def)
  from seal_password_Inr [OF sp] obtain s' where "seal L (as_bytes pw) now (en_session en2) w2 = (Inr sealed, s', w')" by auto
  from open_of_seal [OF laws _ this host(1), of t] s1 host(2) e2
  have op: "fst (open_sealed L sealed t host) = Inr (as_bytes pw)" by simp
  have cs: "charset_alphabet ?cs \<noteq> []" and len: "16 \<le> ?n" "?n < 2 ^ 32"
    using asked(2) k clamp_length_bounds [of "gp_length p"] by auto
  have "length (charset_classes ?cs) \<le> ?n" using len(1) by (simp add: charset_classes_def)
  with generate_password_spec [OF g _ len(2) cs] len(1) c op ks_upsert_hinted [OF u] seal_password_frame [OF sp] e2
  show ?thesis by auto
qed simp


lemma generated_password_is_stored_and_sealed_witness:
  "\<exists>resp en' w'. handle sample_libs (keystore_ops sample_libs) (\<lambda>ks w. (True, w)) (\<lambda>_. Approve)
     \<lparr>rq_id = ''7'', rq_method = GeneratePassword \<lparr>gp_origin = ''https://example.com'', gp_username = ''bob'',
        gp_label = None, gp_length = None, gp_charset = None, gp_request_nonce = 1\<rparr>\<rparr>
     2000 (sample_engine sample_keystore) sample_world = Some (resp, en', w') \<and>
     (\<exists>pw. hinted (keystore_ops sample_libs :: (_, _, world) store_ops) (en_store en') ''https://example.com'' ''bob'' =
       Some \<lparr>cm_username = ''bob'', cm_password = pw\<rparr> \<and> length pw = 24)"
proof -
  let ?p = "\<lparr>gp_origin = ''https://example.com'', gp_username = ''bob'', gp_label = None, gp_length = None,
             gp_charset = None, gp_request_nonce = 1\<rparr>"
  let ?e = "(sample_engine sample_keystore)\<lparr>en_session := sample_session\<lparr>ss_last_nonce := 1, ss_last_activity := 2000\<rparr>\<rparr>"
  have n: "check_names ''bob'' None = Inr ()"
    by (simp add: check_names_def check_str_len_def check_opt_len_def MAX_USERNAME_BYTES_def)
  have b: "generate_begin sample_libs (keystore_ops sample_libs :: (_, _, world) store_ops) ?p 2000 (sample_engine sample_keystore) =
    (Ask \<lparr>ar_action = Generate, ar_origin = ''https://example.com'', ar_username = ''bob'', ar_request_nonce = 1\<rparr>
       (AfterGenerate ''https://example.com'' ''bob'' None 24 charset_hint_default Saved 2000), ?e)"
    by (simp add: generate_begin_def sample_canonical n sample_gate clamp_length_def Let_def charset_hint_default_def
        DEFAULT_GENERATED_LENGTH_def MIN_GENERATED_LENGTH_def MAX_GENERATED_LENGTH_def ks_probe_def
        sample_keystore_def matches_key_def)
  obtain pw w0 where g: "generate_password 24 charset_hint_default sample_world = Some (pw, w0)"
    using generate_password_returns [OF sample_fair, of 24 charset_hint_default] by auto
  obtain s w1 where u: "ks_upsert sample_libs ''https://example.com'' ''bob'' pw None sample_keystore w0 = (Inr (), s, w1)"
    using ks_upsert_total [of sample_libs "''https://example.com''" "''bob''" pw None sample_keystore w0]
    by (auto simp: keystore_ops_def)
  have "charset_alphabet charset_hint_default \<noteq> []" by (simp add: charset_nonempty charset_hint_default_def)
  then have "length pw = 24" using generate_password_spec [OF g] by simp
  then obtain h s2 w2 where sp: "seal_password sample_libs pw 2000 (?e\<lparr>en_store := s\<rparr>) w1 =
      (Inr h, (?e\<lparr>en_store := s\<rparr>)\<lparr>en_session := s2\<rparr>, w2)"
    using seal_password_total [OF sample_aead(2), of "?e\<lparr>en_store := s\<rparr>" pw 2000 w1]
    by (auto simp: session_inv_def sample_session_def)
  have hd: "handle sample_libs (keystore_ops sample_libs) (\<lambda>ks w. (True, w)) (\<lambda>_. Approve)
     \<lparr>rq_id = ''7'', rq_method = GeneratePassword ?p\<rparr> 2000 (sample_engine sample_keystore) sample_world =
     Some (RespOk ''7'' (PasswordGenerated h Saved), (?e\<lparr>en_store := s\<rparr>)\<lparr>en_session := s2\<rparr>, w2)"
    using b g u sp by (simp add: handle_def resume_def commit_store_mutation_def upsert_mutation_def
        keystore_ops_def Let_def)
  from generated_password_is_stored_and_sealed [OF sample_aead(1) sample_hex _ this, of sample_session]
  have "\<exists>pw. hinted (keystore_ops sample_libs :: (_, _, world) store_ops) s ''https://example.com'' ''bob'' =
       Some \<lparr>cm_username = ''bob'', cm_password = pw\<rparr> \<and> length pw = 24"
    by (auto simp: sample_canonical clamp_length_def DEFAULT_GENERATED_LENGTH_def MIN_GENERATED_LENGTH_def
        MAX_GENERATED_LENGTH_def)
  with hd show ?thesis by auto
qed

end
