(* ===== verification/Backup.thy ===== *)
theory Backup
  imports Keystore
begin

text \<open>
  Encryption at rest and portable backups
  (\<open>logic/vaults-bridge-keystore/src/lib.rs\<close>): key derivation, \<open>seal\<close>/\<open>unseal\<close>,
  \<open>Keystore::open\<close> and \<open>Keystore::seal\<close>, the passphrase key by PBKDF2-HMAC-SHA256, and
  the export and import of backup files. The JSON text of a record list and of a backup
  file is made and read by derived \<open>serde\<close> code: four functions that extend the
  parameter record, with the law that reading inverts writing.
\<close>

unbundle bit_operations_syntax

record backup_file =
  bf_magic :: string
  bf_version :: byte
  bf_kdf :: string
  bf_iterations :: u32
  bf_salt_hex :: string
  bf_nonce_hex :: string
  bf_ciphertext_hex :: string

record json_libs = libs +
  json_of_records :: "credential_record list \<Rightarrow> string + bytes"
  records_of_json :: "bytes \<Rightarrow> string + credential_record list"
  json_of_backup :: "backup_file \<Rightarrow> string + bytes"
  backup_of_json :: "bytes \<Rightarrow> string + backup_file"

definition json_ok :: "'l json_libs_scheme \<Rightarrow> bool" where
  "json_ok L \<longleftrightarrow>
     (\<forall>rs bs. json_of_records L rs = Inr bs \<longrightarrow> records_of_json L bs = Inr rs) \<and>
     (\<forall>f bs. json_of_backup L f = Inr bs \<longrightarrow> backup_of_json L bs = Inr f)"

section \<open>Constants and keys\<close>

definition KEY_INFO :: bytes where "KEY_INFO = as_bytes ''vaults-bridge keystore v1''"
definition BACKUP_MAGIC :: string where "BACKUP_MAGIC = ''vaults-bridge-backup''"
definition BACKUP_VERSION :: byte where "BACKUP_VERSION = 1"
definition BACKUP_KDF :: string where "BACKUP_KDF = ''pbkdf2-hmac-sha256''"
definition BACKUP_KDF_ITERATIONS :: u32 where "BACKUP_KDF_ITERATIONS = 200000"
definition BACKUP_SALT_BYTES :: nat where "BACKUP_SALT_BYTES = 16"

definition derive_key :: "'l libs_scheme \<Rightarrow> bytes \<Rightarrow> bytes" where
  "derive_key L master = hkdf_expand32 L master KEY_INFO"

definition hmac_sha256 :: "'l libs_scheme \<Rightarrow> bytes \<Rightarrow> bytes \<Rightarrow> keystore_error + bytes" where
  "hmac_sha256 L key data =
     (case hmac_mac L key data of None \<Rightarrow> Inl BackupMalformed | Some out \<Rightarrow> Inr out)"

text \<open>\<open>for (dst, src) in out.iter_mut().zip(u.iter()) { *dst ^= *src }\<close>.\<close>

definition xor_bytes :: "bytes \<Rightarrow> bytes \<Rightarrow> bytes" where
  "xor_bytes out u = map2 (XOR) out u @ drop (length u) out"

text \<open>The loop \<open>for _ in 1..iterations\<close>, with the rounds still to do.\<close>

fun backup_key_loop :: "'l libs_scheme \<Rightarrow> bytes \<Rightarrow> nat \<Rightarrow> bytes \<Rightarrow> bytes \<Rightarrow> keystore_error + bytes" where
  "backup_key_loop L passphrase 0 u out = Inr out"
| "backup_key_loop L passphrase (Suc n) u out =
     (case hmac_sha256 L passphrase u of
        Inl e \<Rightarrow> Inl e
      | Inr u' \<Rightarrow> backup_key_loop L passphrase n u' (xor_bytes out u'))"

definition derive_backup_key :: "'l libs_scheme \<Rightarrow> bytes \<Rightarrow> bytes \<Rightarrow> u32 \<Rightarrow> keystore_error + bytes" where
  "derive_backup_key L passphrase salt iterations =
     (if iterations = 0 then Inl BackupMalformed
      else case hmac_sha256 L passphrase (salt @ [0, 0, 0, 1]) of
             Inl e \<Rightarrow> Inl e
           | Inr u \<Rightarrow> backup_key_loop L passphrase (unat iterations - 1) u u)"

section \<open>Sealing\<close>

definition seal_blob ::
  "'l libs_scheme \<Rightarrow> bytes \<Rightarrow> bytes \<Rightarrow> 'z world_scheme \<Rightarrow> (keystore_error + bytes) \<times> 'z world_scheme"
where
  "seal_blob L key plaintext w =
     (case fill_bytes 12 w of (nonce, w') \<Rightarrow>
        (case aes_gcm_encrypt L key nonce plaintext of
           None \<Rightarrow> (Inl KSealFailed, w')
         | Some ct \<Rightarrow> (Inr (nonce @ ct), w')))"

definition unseal_blob :: "'l libs_scheme \<Rightarrow> bytes \<Rightarrow> bytes \<Rightarrow> keystore_error + bytes" where
  "unseal_blob L key blob =
     (if length blob < 12 + 16 then Inl KOpenFailed
      else case aes_gcm_decrypt L key (take 12 blob) (drop 12 blob) of
             None \<Rightarrow> Inl KOpenFailed
           | Some pt \<Rightarrow> Inr pt)"

definition keystore_new :: "'l libs_scheme \<Rightarrow> bytes \<Rightarrow> keystore" where
  "keystore_new L master = \<lparr>ks_records = [], ks_key = derive_key L master\<rparr>"

definition parse_records :: "'l json_libs_scheme \<Rightarrow> bytes \<Rightarrow> keystore_error + credential_record list" where
  "parse_records L raw = (case records_of_json L raw of Inl e \<Rightarrow> Inl (Serde e) | Inr rs \<Rightarrow> Inr rs)"

definition keystore_open :: "'l json_libs_scheme \<Rightarrow> bytes \<Rightarrow> bytes \<Rightarrow> keystore_error + keystore" where
  "keystore_open L master sealed =
     (let key = derive_key L master in
      case unseal_blob L key sealed of
        Inl e \<Rightarrow> Inl e
      | Inr raw \<Rightarrow>
          (case parse_records L raw of
             Inl e \<Rightarrow> Inl e
           | Inr rs \<Rightarrow> Inr \<lparr>ks_records = rs, ks_key = key\<rparr>))"

definition keystore_seal ::
  "'l json_libs_scheme \<Rightarrow> keystore \<Rightarrow> 'z world_scheme \<Rightarrow> (keystore_error + bytes) \<times> 'z world_scheme"
where
  "keystore_seal L ks w =
     (case json_of_records L (ks_records ks) of
        Inl e \<Rightarrow> (Inl (Serde e), w)
      | Inr raw \<Rightarrow> seal_blob L (ks_key ks) raw w)"

section \<open>Backups\<close>

definition export_backup ::
  "'l json_libs_scheme \<Rightarrow> bytes \<Rightarrow> keystore \<Rightarrow> 'z world_scheme \<Rightarrow>
   (keystore_error + bytes) \<times> 'z world_scheme"
where
  "export_backup L passphrase ks w =
     (if passphrase = [] then (Inl BackupPassphraseRequired, w)
      else case json_of_records L (ks_records ks) of
        Inl e \<Rightarrow> (Inl (Serde e), w)
      | Inr raw \<Rightarrow>
          (case fill_bytes BACKUP_SALT_BYTES w of (salt, w1) \<Rightarrow>
             (case derive_backup_key L passphrase salt BACKUP_KDF_ITERATIONS of
                Inl e \<Rightarrow> (Inl e, w1)
              | Inr key \<Rightarrow>
                  (case seal_blob L key raw w1 of
                     (Inl e, w2) \<Rightarrow> (Inl e, w2)
                   | (Inr sealed, w2) \<Rightarrow>
                       (case json_of_backup L
                               \<lparr>bf_magic = BACKUP_MAGIC, bf_version = BACKUP_VERSION, bf_kdf = BACKUP_KDF,
                                bf_iterations = BACKUP_KDF_ITERATIONS,
                                bf_salt_hex = hex_encode L salt,
                                bf_nonce_hex = hex_encode L (take 12 sealed),
                                bf_ciphertext_hex = hex_encode L (drop 12 sealed)\<rparr> of
                          Inl e \<Rightarrow> (Inl (Serde e), w2)
                        | Inr b \<Rightarrow> (Inr b, w2))))))"

text \<open>The four header fields that must match exactly.\<close>

definition backup_supported :: "backup_file \<Rightarrow> bool" where
  "backup_supported f \<longleftrightarrow>
     \<not> (bf_magic f \<noteq> BACKUP_MAGIC \<or> bf_version f \<noteq> BACKUP_VERSION \<or> bf_kdf f \<noteq> BACKUP_KDF \<or>
        bf_iterations f \<noteq> BACKUP_KDF_ITERATIONS)"

definition records_from_backup ::
  "'l json_libs_scheme \<Rightarrow> bytes \<Rightarrow> bytes \<Rightarrow> keystore_error + credential_record list"
where
  "records_from_backup L passphrase backup =
     (if passphrase = [] then Inl BackupPassphraseRequired
      else case backup_of_json L backup of
        Inl e \<Rightarrow> Inl (Serde e)
      | Inr file \<Rightarrow>
          (if \<not> backup_supported file then Inl BackupUnsupported
           else case hex_decode L (bf_salt_hex file) of
             None \<Rightarrow> Inl BackupMalformed
           | Some salt \<Rightarrow>
               (if length salt \<noteq> BACKUP_SALT_BYTES then Inl BackupMalformed
                else case hex_decode L (bf_nonce_hex file) of
                  None \<Rightarrow> Inl BackupMalformed
                | Some nonce \<Rightarrow>
                    (if length nonce \<noteq> 12 then Inl BackupMalformed
                     else case hex_decode L (bf_ciphertext_hex file) of
                       None \<Rightarrow> Inl BackupMalformed
                     | Some ciphertext \<Rightarrow>
                         (case derive_backup_key L passphrase salt (bf_iterations file) of
                            Inl e \<Rightarrow> Inl e
                          | Inr key \<Rightarrow>
                              (case unseal_blob L key (nonce @ ciphertext) of
                                 Inl e \<Rightarrow> Inl e
                               | Inr raw \<Rightarrow> parse_records L raw))))))"

definition open_backup ::
  "'l json_libs_scheme \<Rightarrow> bytes \<Rightarrow> bytes \<Rightarrow> bytes \<Rightarrow> keystore_error + keystore"
where
  "open_backup L master passphrase backup =
     (case records_from_backup L passphrase backup of
        Inl e \<Rightarrow> Inl e
      | Inr rs \<Rightarrow> Inr \<lparr>ks_records = rs, ks_key = derive_key L master\<rparr>)"

section \<open>Round trips\<close>

lemma seal_blob_Inr:
  assumes "seal_blob L k p w = (Inr b, w')"
  obtains n c where "length n = 12" "b = n @ c" "aes_gcm_encrypt L k n p = Some c"
  using assms length_fill_bytes [of 12 w] by (auto simp: seal_blob_def split: prod.splits option.splits)

lemma unseal_of_seal:
  assumes "aead_ok L" and "length k = 32" and "seal_blob L k p w = (Inr b, w')"
  shows "unseal_blob L k b = Inr p"
proof -
  from assms(3) obtain n c where n: "length n = 12" "b = n @ c" "aes_gcm_encrypt L k n p = Some c"
    by (rule seal_blob_Inr)
  from aead_okD [OF assms(1,2) n(1,3)] n(1,2) show ?thesis by (simp add: unseal_blob_def)
qed

lemma open_of_seal_keystore:
  assumes "aead_ok L" and "json_ok L" and "hkdf_ok L"
    and "ks_key ks = derive_key L master" and "keystore_seal L ks w = (Inr b, w')"
  shows "keystore_open L master b = Inr ks"
proof -
  from assms(5) obtain raw where raw: "json_of_records L (ks_records ks) = Inr raw"
    and s: "seal_blob L (ks_key ks) raw w = (Inr b, w')"
    by (auto simp: keystore_seal_def split: sum.splits)
  have "length (ks_key ks) = 32" using assms(3,4) by (simp add: derive_key_def)
  from unseal_of_seal [OF assms(1) this s] raw assms(2,4) show ?thesis
    by (simp add: keystore_open_def parse_records_def json_ok_def Let_def)
qed

lemma length_xor_bytes [simp]: "length (xor_bytes out u) = length out"
  by (auto simp: xor_bytes_def)

lemma backup_key_loop_length:
  "backup_key_loop L p n u out = Inr k \<Longrightarrow> length k = length out"
  by (induction n arbitrary: u out) (auto split: sum.splits)

lemma derive_backup_key_length:
  assumes "hmac_ok L" and "derive_backup_key L p salt n = Inr k"
  shows "length k = 32"
proof -
  from assms(2) obtain u where u: "hmac_sha256 L p (salt @ [0, 0, 0, 1]) = Inr u"
    and k: "backup_key_loop L p (unat n - 1) u u = Inr k"
    by (auto simp: derive_backup_key_def split: if_splits sum.splits)
  have "length u = 32"
    using u assms(1) by (auto simp: hmac_sha256_def hmac_ok_def split: option.splits)
      (metis option.inject)
  with backup_key_loop_length [OF k] show ?thesis by simp
qed

lemma records_from_export:
  assumes laws: "aead_ok L" "hex_ok L" "json_ok L" "hmac_ok L"
    and e: "export_backup L passphrase ks w = (Inr b, w')"
  shows "records_from_backup L passphrase b = Inr (ks_records ks)"
proof -
  obtain salt w1 where f: "fill_bytes BACKUP_SALT_BYTES w = (salt, w1)" by force
  from e f obtain raw key sealed w2 where
    ne: "passphrase \<noteq> []" and raw: "json_of_records L (ks_records ks) = Inr raw"
    and key: "derive_backup_key L passphrase salt BACKUP_KDF_ITERATIONS = Inr key"
    and s: "seal_blob L key raw w1 = (Inr sealed, w2)"
    and j: "json_of_backup L \<lparr>bf_magic = BACKUP_MAGIC, bf_version = BACKUP_VERSION, bf_kdf = BACKUP_KDF,
              bf_iterations = BACKUP_KDF_ITERATIONS, bf_salt_hex = hex_encode L salt,
              bf_nonce_hex = hex_encode L (take 12 sealed),
              bf_ciphertext_hex = hex_encode L (drop 12 sealed)\<rparr> = Inr b"
    by (auto simp: export_backup_def split: if_splits sum.splits prod.splits)
  have ls: "length salt = BACKUP_SALT_BYTES" using length_fill_bytes [OF f] .
  from s obtain n c where n: "length n = 12" "sealed = n @ c" by (rule seal_blob_Inr)
  have "unseal_blob L key sealed = Inr raw"
    using unseal_of_seal [OF laws(1) derive_backup_key_length [OF laws(4) key] s] .
  then show ?thesis
    using ne raw key j ls n laws(2,3)
    by (simp add: records_from_backup_def backup_supported_def json_ok_def parse_records_def)
qed

section \<open>The backup key is PBKDF2\<close>

text \<open>
  PBKDF2 (RFC 8018) for one block: \<open>U 1 = PRF(P, S || INT(1))\<close>,
  \<open>U (j + 1) = PRF(P, U j)\<close>, and the key is the exclusive or of \<open>U 1, ..., U c\<close>.
\<close>

fun pbkdf2_u :: "(bytes \<Rightarrow> bytes) \<Rightarrow> bytes \<Rightarrow> nat \<Rightarrow> bytes" where
  "pbkdf2_u prf salt 0 = prf (salt @ [0, 0, 0, 1])"
| "pbkdf2_u prf salt (Suc j) = prf (pbkdf2_u prf salt j)"

definition pbkdf2_block :: "(bytes \<Rightarrow> bytes) \<Rightarrow> bytes \<Rightarrow> nat \<Rightarrow> bytes" where
  "pbkdf2_block prf salt c =
     foldl (map2 (XOR)) (pbkdf2_u prf salt 0) (map (pbkdf2_u prf salt) [1..<c])"

lemma xor_bytes_same_length: "length u = length out \<Longrightarrow> xor_bytes out u = map2 (XOR) out u"
  by (simp add: xor_bytes_def)

lemma backup_key_loop_pbkdf2:
  assumes hm: "\<And>d. hmac_sha256 L p d = Inr (prf d) \<and> length (prf d) = 32"
  shows "length out = 32 \<Longrightarrow>
         backup_key_loop L p n (pbkdf2_u prf salt j) out =
           Inr (foldl (map2 (XOR)) out (map (pbkdf2_u prf salt) [Suc j..<Suc j + n]))"
proof (induction n arbitrary: j out)
  case 0
  then show ?case by simp
next
  case (Suc n)
  have "[Suc j..<Suc j + Suc n] = Suc j # [Suc (Suc j)..<Suc (Suc j) + n]"
    by (subst upt_conv_Cons) auto
  then show ?case
    using Suc.IH [of "map2 (XOR) out (pbkdf2_u prf salt (Suc j))" "Suc j"] Suc.prems
      hm [of "pbkdf2_u prf salt j"]
    by (simp add: xor_bytes_same_length)
qed

lemma derive_backup_key_pbkdf2:
  assumes "hmac_ok L" and "iterations \<noteq> 0"
  shows "derive_backup_key L p salt iterations =
         Inr (pbkdf2_block (\<lambda>d. the (hmac_mac L p d)) salt (unat iterations))"
proof -
  let ?hm = "\<lambda>d. the (hmac_mac L p d)"
  have hm: "hmac_sha256 L p d = Inr (?hm d) \<and> length (?hm d) = 32" for d
  proof -
    from assms(1) obtain m where "hmac_mac L p d = Some m" "length m = 32"
      unfolding hmac_ok_def by blast
    then show ?thesis by (simp add: hmac_sha256_def)
  qed
  have "0 < unat iterations" using assms(2) by (simp add: unat_gt_0)
  then show ?thesis
    using backup_key_loop_pbkdf2 [OF hm, of "?hm (salt @ [0, 0, 0, 1])" "unat iterations - 1" salt 0]
      hm assms(2)
    by (simp add: derive_backup_key_def pbkdf2_block_def)
qed

section \<open>A sample instance of the JSON parameters\<close>

text \<open>
  For the witnesses: the empty record list and one fixed list have a text, any backup
  file is stored field by field with a length byte. Both are enough to run a round trip.
\<close>

definition tlv_field :: "bytes \<Rightarrow> bytes" where
  "tlv_field bs = concat (map (\<lambda>b. [1, b]) bs) @ [0]"

fun tlv_unfield :: "bytes \<Rightarrow> (bytes \<times> bytes) option" where
  "tlv_unfield (t # rest) =
     (if t = 0 then Some ([], rest)
      else case rest of b # r \<Rightarrow> map_option (\<lambda>(bs, r'). (b # bs, r')) (tlv_unfield r) | [] \<Rightarrow> None)"
| "tlv_unfield [] = None"

lemma tlv_round_trip [simp]: "tlv_unfield (tlv_field bs @ r) = Some (bs, r)"
  by (induction bs) (simp_all add: tlv_field_def)

lemma tlv_round_trip_end [simp]: "tlv_unfield (tlv_field bs) = Some (bs, [])"
  using tlv_round_trip [of bs "[]"] by simp

definition sample_backup_json :: "backup_file \<Rightarrow> bytes" where
  "sample_backup_json f =
     tlv_field (as_bytes (bf_magic f)) @ tlv_field [bf_version f] @ tlv_field (as_bytes (bf_kdf f)) @
     tlv_field (map (\<lambda>i. of_bool (bit (bf_iterations f) i)) [0..<32]) @ tlv_field (as_bytes (bf_salt_hex f)) @
     tlv_field (as_bytes (bf_nonce_hex f)) @ tlv_field (as_bytes (bf_ciphertext_hex f))"

definition sample_backup_read :: "bytes \<Rightarrow> backup_file option" where
  "sample_backup_read bs =
     Option.bind (tlv_unfield bs) (\<lambda>(m, r1). Option.bind (tlv_unfield r1) (\<lambda>(v, r2).
     Option.bind (tlv_unfield r2) (\<lambda>(k, r3). Option.bind (tlv_unfield r3) (\<lambda>(it, r4).
     Option.bind (tlv_unfield r4) (\<lambda>(s, r5). Option.bind (tlv_unfield r5) (\<lambda>(n, r6).
     Option.bind (tlv_unfield r6) (\<lambda>(c, r7).
       Some \<lparr>bf_magic = of_bytes m, bf_version = hd v, bf_kdf = of_bytes k,
             bf_iterations = horner_sum of_bool 2 (map (\<lambda>b. b = 1) it), bf_salt_hex = of_bytes s,
             bf_nonce_hex = of_bytes n, bf_ciphertext_hex = of_bytes c\<rparr>)))))))"

lemma sample_backup_roundtrip: "sample_backup_read (sample_backup_json f) = Some f"
proof -
  have "map (\<lambda>b. b = 1) (map (\<lambda>i. of_bool (bit (bf_iterations f) i) :: byte) [0..<32]) =
        map (bit (bf_iterations f)) [0..<32]" by simp
  moreover have "horner_sum of_bool 2 (map (bit (bf_iterations f)) [0..<32]) = bf_iterations f"
    by (simp add: horner_sum_bit_eq_take_bit take_bit_word_eq_self)
  ultimately show ?thesis
    by (simp add: sample_backup_read_def sample_backup_json_def del: map_map)
qed

definition sample_json :: "credential_record list \<Rightarrow> json_libs" where
  "sample_json rs = libs.extend sample_libs
     \<lparr>json_of_records = (\<lambda>xs. if xs = rs then Inr [1] else if xs = [] then Inr [0] else Inl ''unsupported''),
      records_of_json = (\<lambda>bs. if bs = [1] then Inr rs else if bs = [0] then Inr [] else Inl ''unsupported''),
      json_of_backup = (\<lambda>f. Inr (sample_backup_json f)),
      backup_of_json = (\<lambda>bs. case sample_backup_read bs of None \<Rightarrow> Inl ''malformed'' | Some f \<Rightarrow> Inr f)\<rparr>"

lemma sample_json_sel:
  "url_parse (sample_json rs) = url_parse sample_libs"
  "hex_encode (sample_json rs) = hex_encode sample_libs"
  "hex_decode (sample_json rs) = hex_decode sample_libs"
  "aes_gcm_encrypt (sample_json rs) = aes_gcm_encrypt sample_libs"
  "aes_gcm_decrypt (sample_json rs) = aes_gcm_decrypt sample_libs"
  "hkdf_expand32 (sample_json rs) = hkdf_expand32 sample_libs"
  "hmac_mac (sample_json rs) = hmac_mac sample_libs"
  "x25519_public (sample_json rs) = x25519_public sample_libs"
  "x25519_shared (sample_json rs) = x25519_shared sample_libs"
  "uuid_from_random (sample_json rs) = uuid_from_random sample_libs"
  by (simp_all add: sample_json_def libs.defs)

lemma sample_json_laws:
  "aead_ok (sample_json rs)" "aead_total (sample_json rs)" "hex_ok (sample_json rs)"
  "hkdf_ok (sample_json rs)" "hmac_ok (sample_json rs)" "dh_ok (sample_json rs)"
  "url_ok (sample_json rs)"
  by (fact sample_laws [unfolded aead_ok_def aead_total_def hex_ok_def hkdf_ok_def hmac_ok_def dh_ok_def
        url_ok_def, folded sample_json_sel [of rs], folded aead_ok_def aead_total_def hex_ok_def
        hkdf_ok_def hmac_ok_def dh_ok_def url_ok_def])+

lemma sample_json_ok: "json_ok (sample_json rs)"
proof -
  have "json_of_records (sample_json rs) =
      (\<lambda>xs. if xs = rs then Inr [1] else if xs = [] then Inr [0] else Inl ''unsupported'')"
    "records_of_json (sample_json rs) =
      (\<lambda>bs. if bs = [1] then Inr rs else if bs = [0] then Inr [] else Inl ''unsupported'')"
    "json_of_backup (sample_json rs) = (\<lambda>f. Inr (sample_backup_json f))"
    "backup_of_json (sample_json rs) =
      (\<lambda>bs. case sample_backup_read bs of None \<Rightarrow> Inl ''malformed'' | Some f \<Rightarrow> Inr f)"
    by (simp_all add: sample_json_def libs.defs)
  then show ?thesis
    by (auto simp: json_ok_def sample_backup_roundtrip split: if_splits)
qed

end
