(* ===== verification/KeystoreProps.thy ===== *)
theory KeystoreProps
  imports Bridge Backup "HOL-Library.Multiset"
begin

text \<open>
  Properties of the keystore: archiving, deletion, editing, the conflict policies of bulk
  import and restore, encryption at rest, and portable backups.
\<close>

section \<open>Archive, restore, delete, edit\<close>

lemma update_first_split:
  assumes "distinct_ids ks" and "ks_get i ks = Some r"
  obtains pre post where "ks_records ks = pre @ r # post" "cr_id r = i" "\<forall>x \<in> set pre. cr_id x \<noteq> i"
    "\<And>f. update_first (\<lambda>x. cr_id x = i) f (ks_records ks) = pre @ f r # post"
proof -
  have i: "r \<in> set (ks_records ks)" "cr_id r = i" using assms(2) by (auto simp: ks_get_def dest: find_Some_set)
  then obtain pre post where s: "ks_records ks = pre @ r # post" by (auto simp: in_set_conv_decomp)
  have pre: "\<forall>x \<in> set pre. cr_id x \<noteq> i"
  proof -
    have "cr_id r \<notin> cr_id ` set pre" using assms(1) by (simp add: distinct_ids_def s)
    then show ?thesis using i(2) by (metis imageI)
  qed
  then have u: "update_first (\<lambda>x. cr_id x = i) f (ks_records ks) = pre @ f r # post" for f
    unfolding s using i(2) by (induction pre) auto
  show ?thesis by (rule that [OF s i(2) pre u])
qed

text \<open>
  Archiving hides exactly one credential and nothing is lost. Archiving a live record
  removes its entry, and only that, from what a host can find at its origin, leaves the other
  origins alone and makes the keystore report the pair as archived unless a live twin
  remains; restoring it gives back the keystore as it was.
\<close>

lemma archive_hides_and_restore_undoes:
  assumes "distinct_ids ks" and "ks_get i ks = Some r" and "\<not> cr_archived r"
  shows "\<exists>ks'. ks_set_archived i True ks = (Inr (), ks') \<and>
     mset (ks_find_by_origin ks (cr_origin r)) = add_mset (mk_match r) (mset (ks_find_by_origin ks' (cr_origin r))) \<and>
     (\<forall>ori. ori \<noteq> cr_origin r \<longrightarrow> ks_find_by_origin ks' ori = ks_find_by_origin ks ori) \<and>
     live_count ks = Suc (live_count ks') \<and> archived_count ks' = Suc (archived_count ks) \<and>
     ks_set_archived i False ks' = (Inr (), ks)"
proof -
  from update_first_split [OF assms(1,2)] obtain pre post where
    s: "ks_records ks = pre @ r # post" "cr_id r = i" and pre: "\<forall>x \<in> set pre. cr_id x \<noteq> i"
    and u: "\<And>f. update_first (\<lambda>x. cr_id x = i) f (ks_records ks) = pre @ f r # post" by blast
  let ?ks' = "ks\<lparr>ks_records := pre @ r\<lparr>cr_archived := True\<rparr> # post\<rparr>"
  have a: "ks_set_archived i True ks = (Inr (), ?ks')"
    using assms(2) u by (simp add: ks_set_archived_def with_record_def)
  have g: "ks_get i ?ks' \<noteq> None" using s(2) by (auto simp: ks_get_None)
  have "update_first (\<lambda>x. cr_id x = i) f (pre @ r' # post) = pre @ f r' # post" if "cr_id r' = i" for f r'
    using pre that by (induction pre) auto
  then have b: "ks_set_archived i False ?ks' = (Inr (), ks)"
    using g s assms(3) by (simp add: ks_set_archived_def with_record_def)
  show ?thesis
    using a b s assms(3)
    by (intro exI [of _ ?ks'])
      (auto simp: ks_find_by_origin_def live_at_def mk_match_def live_count_def archived_count_def)
qed

lemma sample_keystore_ids: "distinct_ids sample_keystore" "ks_get 1 sample_keystore \<noteq> None"
  by (simp_all add: sample_keystore_def distinct_ids_def ks_get_def)

text \<open>
  Only an archived record can be deleted for ever. \<open>delete_forever\<close> removes exactly the
  first record with the given identifier when that record is archived; otherwise it fails
  with \<open>NotFound\<close> or \<open>NotArchived\<close> and changes nothing.
\<close>

lemma delete_forever_only_archived:
  shows "case ks_delete_forever i ks of
       (Inr _, ks') \<Rightarrow> ks_key ks' = ks_key ks \<and>
         (\<exists>pre r post. ks_records ks = pre @ r # post \<and> cr_id r = i \<and> cr_archived r \<and>
            (\<forall>x \<in> set pre. cr_id x \<noteq> i) \<and> ks_records ks' = pre @ post)
     | (Inl e, ks') \<Rightarrow> ks' = ks \<and>
         e = (if ks_get i ks = None then NotFound else NotArchived) \<and>
         (\<forall>r. ks_get i ks = Some r \<longrightarrow> \<not> cr_archived r)"
proof (cases "ks_delete_forever i ks")
  case (Pair res ks')
  show ?thesis
  proof (cases res)
    case (Inl e)
    with Pair have "ks' = ks" by (auto dest: delete_forever_Inl)
    moreover have "Inl e = (case ks_get i ks of None \<Rightarrow> Inl NotFound
        | Some r \<Rightarrow> if cr_archived r then Inr () else Inl NotArchived)"
      using delete_forever_result [of i ks] Pair Inl by simp
    ultimately show ?thesis
      using Pair Inl by (auto split: option.splits if_splits)
  next
    case (Inr u)
    with Pair have d: "ks_delete_forever i ks = (Inr (), ks')" by simp
    then have "ks_key ks' = ks_key ks"
      by (auto simp: ks_delete_forever_def split: option.splits if_splits)
    with delete_forever_Inr [OF d] d show ?thesis by simp
  qed
qed

text \<open>
  An edit changes the four fields of one record. \<open>edit\<close> sets label, colour, user name and
  password of the record with that identifier and nothing else of it; every other record,
  the order and the identifiers stay; an unknown identifier is refused without a change.
\<close>

lemma edit_changes_one_record:
  shows "case ks_edit i label color username password ks of
       (Inr _, ks') \<Rightarrow>
         map cr_id (ks_records ks') = map cr_id (ks_records ks) \<and> ks_key ks' = ks_key ks \<and>
         (\<exists>r. ks_get i ks = Some r \<and>
            ks_get i ks' = Some (r\<lparr>cr_label := label, cr_color := color, cr_username := username,
                                  cr_password := password\<rparr>)) \<and>
         (\<forall>j. j \<noteq> i \<longrightarrow> ks_get j ks' = ks_get j ks)
     | (Inl e, ks') \<Rightarrow> e = NotFound \<and> ks' = ks \<and> ks_get i ks = None"
proof (cases "ks_edit i label color username password ks")
  case (Pair res ks')
  let ?f = "\<lambda>r. r\<lparr>cr_label := label, cr_color := color, cr_username := username, cr_password := password\<rparr>"
  from Pair have w: "with_record i ?f ks = (res, ks')" by (simp add: ks_edit_def)
  show ?thesis
  proof (cases res)
    case (Inl e)
    with w Pair show ?thesis by (auto dest: with_record_error)
  next
    case (Inr u)
    with w have w': "with_record i ?f ks = (Inr (), ks')" by simp
    then have "ks_key ks' = ks_key ks" "ks_get i ks \<noteq> None" by (auto simp: with_record_def split: if_splits)
    with with_record_get [OF w'] with_record_ids [OF w'] Pair Inr show ?thesis by auto
  qed
qed

lemma edit_changes_one_record_witness:
  "\<exists>ks'. ks_edit 1 ''Work'' 3 ''ann'' ''new'' sample_keystore = (Inr (), ks') \<and>
     map cr_id (ks_records ks') = [1]"
proof -
  obtain res ks' where e: "ks_edit 1 ''Work'' 3 ''ann'' ''new'' sample_keystore = (res, ks')" by force
  moreover have "res = Inr ()" using e sample_keystore_ids by (auto simp: ks_edit_def with_record_def)
  moreover have "map cr_id (ks_records sample_keystore) = [1]" by (simp add: sample_keystore_def)
  ultimately show ?thesis
    using edit_changes_one_record [where i = 1 and label = "''Work''" and color = 3 and
        username = "''ann''" and password = "''new''" and ks = sample_keystore] by simp
qed

section \<open>Conflict policies\<close>

text \<open>
  Bulk import accounts for every item. Each item is counted once as imported, skipped or
  replaced; the number of new records is the imported count; afterwards every item's origin
  and user name is in the keystore; no record that was there loses its place or its key, and
  unless the policy is \<open>Replace\<close> the old records are untouched.
\<close>

lemma import_many_accounts_for_every_item:
  assumes "import_many L items policy ks w = (ks', t, w')"
  shows "is_imported t + is_skipped t + is_replaced t = length items \<and>
     length (ks_records ks') = length (ks_records ks) + is_imported t \<and>
     item_key ` set items \<subseteq> rec_key ` set (ks_records ks') \<and>
     take (length (ks_records ks)) (map rec_key (ks_records ks')) = map rec_key (ks_records ks) \<and>
     (policy \<noteq> Replace \<longrightarrow> take (length (ks_records ks)) (ks_records ks') = ks_records ks)"
  using import_many_spec [OF assms] by (auto simp: extends_keys_def)

definition sample_item :: import_item where
  "sample_item = \<lparr>ii_origin = ''https://example.com'', ii_username = ''ann'', ii_password = ''x'',
     ii_label = [], ii_notes = []\<rparr>"

text \<open>
  C31: restoring a backup returns, accounts for every record and keeps identifiers distinct.
  When the random tape still holds unused identifiers the loop ends; each record is counted
  once; every backed-up origin and user name is present afterwards; the identifiers of the
  records that were there stay in place, and distinct identifiers stay distinct.
\<close>

theorem restore_many_accounts_for_every_record:
  assumes "uuids_fresh N L (w_rng w)" and "length (ks_records ks) + length rs \<le> N"
  shows "\<exists>ks' t w'. restore_many L rs policy ks w = Some (ks', t, w') \<and>
     is_imported t + is_skipped t + is_replaced t = length rs \<and>
     length (ks_records ks') = length (ks_records ks) + is_imported t \<and>
     rec_key ` set rs \<subseteq> rec_key ` set (ks_records ks') \<and>
     take (length (ks_records ks)) (map cr_id (ks_records ks')) = map cr_id (ks_records ks) \<and>
     (distinct_ids ks \<longrightarrow> distinct_ids ks')"
proof -
  have "restore_many L rs policy ks w \<noteq> None"
    unfolding restore_many_def by (rule restore_loop_returns [OF assms])
  then obtain ks' t w' where r: "restore_many L rs policy ks w = Some (ks', t, w')" by auto
  from restore_many_spec(6) [OF r] have
    "take (length (ks_records ks)) (map cr_id (ks_records ks')) = map cr_id (ks_records ks)"
    by auto
  with r restore_many_spec [OF r] show ?thesis by (intro exI [of _ ks'] exI [of _ t] exI [of _ w']) simp
qed


text \<open>A tape that counts: any sixteen blocks in a row make sixteen identifiers.\<close>

definition counting_tape :: "byte stream" where
  "counting_tape = smap word_of_nat nats"

lemma counting_block_low:
  "ucast (uuid_from_random sample_libs (stake 16 (sdrop m counting_tape))) = (word_of_nat m :: byte)"
proof -
  have "stake 16 (sdrop m counting_tape) = counting_tape !! m # stake 15 (sdrop (Suc m) counting_tape)"
    by (simp add: numeral_eq_Suc sdrop_simps)
  moreover have "counting_tape !! m = word_of_nat m" by (simp add: counting_tape_def)
  moreover have "ucast (word_of_int (uint b + 256 * x) :: uuid) = b" for b :: byte and x
  proof -
    have "ucast (word_of_int z :: uuid) = (word_of_int z :: byte)" for z
      by transfer simp
    moreover have "(word_of_int (uint b + 256 * x) :: byte) = b"
    proof -
      have z: "(256 :: byte) = 0" by simp
      show ?thesis by (simp only: of_int_add of_int_mult of_int_numeral z word_of_int_uint mult_zero_left add_0_right)
    qed
    ultimately show ?thesis by (simp only:)
  qed
  ultimately show ?thesis by (simp add: sample_libs_def)
qed


lemma counting_fresh: "uuids_fresh 15 sample_libs counting_tape"
  unfolding uuids_fresh_def
proof (intro allI impI)
  fix m and ids :: "uuid list"
  assume len: "length ids \<le> 15"
  let ?f = "\<lambda>k. uuid_from_random sample_libs (stake 16 (sdrop (m + 16 * k) counting_tape))"
  have inj: "inj_on ?f {..<16}"
  proof (rule inj_onI)
    fix j k assume jk: "j \<in> {..<16}" "k \<in> {..<16}" and "?f j = ?f k"
    then have "(word_of_nat (m + 16 * j) :: byte) = word_of_nat (m + 16 * k)"
      using counting_block_low by metis
    then have "unat (word_of_nat (m + 16 * j) :: byte) = unat (word_of_nat (m + 16 * k) :: byte)" by simp
    then have "(m + 16 * j) mod 256 = (m + 16 * k) mod 256"
      by (simp only: unat_of_nat take_bit_eq_mod) simp
    then have "int ((m + 16 * j) mod 256) = int ((m + 16 * k) mod 256)" by (rule arg_cong)
    then have "int (m + 16 * j) mod 256 = int (m + 16 * k) mod 256" by (simp only: zmod_int of_nat_numeral)
    then have "256 dvd int (m + 16 * j) - int (m + 16 * k)" by (simp only: mod_eq_dvd_iff)
    then obtain q where "int (m + 16 * j) - int (m + 16 * k) = 256 * q" by (auto simp: dvd_def)
    then have q: "int j - int k = 16 * q" by simp
    have "j < 16" "k < 16" using jk by simp_all
    with q have "q = 0" by linarith
    with q show "j = k" by simp
  qed
  have "\<not> ?f ` {..<16} \<subseteq> set ids"
  proof
    assume "?f ` {..<16} \<subseteq> set ids"
    then have "card (?f ` {..<16}) \<le> card (set ids)" by (intro card_mono) auto
    with card_image [OF inj] card_length [of ids] len show False by simp
  qed
  then show "\<exists>k. ?f k \<notin> set ids" by blast
qed

lemma restore_many_accounts_for_every_record_witness:
  "\<exists>ks' t w'. restore_many sample_libs (ks_records sample_keystore) KeepBoth sample_keystore
     \<lparr>w_rng = counting_tape, w_clock = sconst 0\<rparr> = Some (ks', t, w') \<and> distinct_ids ks'"
proof -
  have "length (ks_records sample_keystore) + length (ks_records sample_keystore) \<le> 15"
    by (simp add: sample_keystore_def)
  from restore_many_accounts_for_every_record [OF _ this, of sample_libs "\<lparr>w_rng = counting_tape, w_clock = sconst 0\<rparr>" KeepBoth]
  show ?thesis using counting_fresh sample_keystore_ids(1) by auto
qed


section \<open>Encryption at rest\<close>

text \<open>
  A sealed keystore opens again. Whatever \<open>seal\<close> wrote under a master key, \<open>open\<close> with the
  same master key returns the same records and key; and sealing succeeds whenever the record
  list has a JSON text of a size the cipher takes.
\<close>

lemma sealed_keystore_opens:
  assumes laws: "aead_ok L" "aead_total L" "json_ok L" "hkdf_ok L"
    and key: "ks_key ks = derive_key L master"
    and raw: "json_of_records L (ks_records ks) = Inr raw" "length raw < 2 ^ 32"
  shows "\<exists>b w'. keystore_seal L ks w = (Inr b, w') \<and> keystore_open L master b = Inr ks \<and>
     length b = 12 + length raw + 16"
proof -
  obtain n w' where n: "fill_bytes 12 w = (n, w')" by force
  have k: "length (ks_key ks) = 32" using key laws(4) by (simp add: derive_key_def)
  from n have ln: "length n = 12" by (rule length_fill_bytes)
  with laws(2) k raw(2) have "aes_gcm_encrypt L (ks_key ks) n raw \<noteq> None" unfolding aead_total_def by blast
  then obtain c where c: "aes_gcm_encrypt L (ks_key ks) n raw = Some c" by auto
  have s: "keystore_seal L ks w = (Inr (n @ c), w')"
    using n c raw(1) by (simp add: keystore_seal_def seal_blob_def)
  from aead_okD [OF laws(1) k ln c] open_of_seal_keystore [OF laws(1,3,4) key s] s ln show ?thesis
    by simp
qed

section \<open>Portable backups\<close>

text \<open>
  An exported backup restores on another device. A backup that \<open>export_backup\<close> wrote under a
  passphrase opens with that passphrase under any master key to a keystore with the same
  records, sealed under the new device's own key.
\<close>

lemma backup_restores_on_another_device:
  assumes "aead_ok L" "hex_ok L" "json_ok L" "hmac_ok L"
    and "export_backup L passphrase ks w = (Inr b, w')"
  shows "open_backup L master passphrase b =
     Inr \<lparr>ks_records = ks_records ks, ks_key = derive_key L master\<rparr>"
  using records_from_export [OF assms] by (simp add: open_backup_def)

text \<open>
  A backup file is checked before it is decrypted. With a non-empty passphrase, a file that
  does not parse is a JSON error; a foreign magic, version, KDF or iteration count is
  \<open>BackupUnsupported\<close>; a salt that is not 16 bytes of hex or a nonce that is not 12 is
  \<open>BackupMalformed\<close>; for each the answer is the same whatever the passphrase and ciphertext.
\<close>

lemma backup_header_is_checked_first:
  assumes "passphrase \<noteq> []"
  shows "(\<forall>e. backup_of_json L b = Inl e \<longrightarrow> records_from_backup L passphrase b = Inl (Serde e)) \<and>
     (\<forall>f. backup_of_json L b = Inr f \<longrightarrow>
        ((bf_magic f \<noteq> ''vaults-bridge-backup'' \<or> bf_version f \<noteq> 1 \<or> bf_kdf f \<noteq> ''pbkdf2-hmac-sha256'' \<or>
          bf_iterations f \<noteq> 200000) \<longrightarrow> records_from_backup L passphrase b = Inl BackupUnsupported) \<and>
        (backup_supported f \<longrightarrow>
          (map_option length (hex_decode L (bf_salt_hex f)) \<noteq> Some 16 \<or>
           map_option length (hex_decode L (bf_nonce_hex f)) \<noteq> Some 12) \<longrightarrow>
          records_from_backup L passphrase b = Inl BackupMalformed))"
  using assms
  by (auto simp: records_from_backup_def backup_supported_def BACKUP_MAGIC_def BACKUP_VERSION_def
      BACKUP_KDF_def BACKUP_KDF_ITERATIONS_def BACKUP_SALT_BYTES_def split: option.splits)

text \<open>
  C30: the passphrase key is PBKDF2-HMAC-SHA256 with one block. For every passphrase, salt and
  positive iteration count the in-place loop of \<open>derive_backup_key\<close> returns the exclusive or
  \<open>U 1 xor ... xor U c\<close> of RFC 8018, 32 bytes long.
\<close>

theorem backup_key_is_pbkdf2:
  assumes "hmac_ok L" and "0 < iterations"
  shows "derive_backup_key L passphrase salt iterations =
       Inr (pbkdf2_block (\<lambda>d. the (hmac_mac L passphrase d)) salt (unat iterations)) \<and>
     length (pbkdf2_block (\<lambda>d. the (hmac_mac L passphrase d)) salt (unat iterations)) = 32"
proof -
  have d: "derive_backup_key L passphrase salt iterations =
       Inr (pbkdf2_block (\<lambda>d. the (hmac_mac L passphrase d)) salt (unat iterations))"
    using derive_backup_key_pbkdf2 [OF assms(1)] assms(2) by (simp add: word_neq_0_conv)
  with derive_backup_key_length [OF assms(1) d] show ?thesis by simp
qed

lemma backup_key_is_pbkdf2_witness:
  "\<exists>k. derive_backup_key sample_libs [1] [2] 3 = Inr k \<and> length k = 32"
  using backup_key_is_pbkdf2 [OF sample_hmac, of 3 "[1]" "[2]"] by auto

end
