(* ===== verification/Frame.thy ===== *)
theory Frame
  imports Prelude
begin

text \<open>
  Newline framing. \<open>logic/vaults-bridge-protocol/src/frame.rs\<close>: \<open>frame\<close> and
  \<open>LineSplitter::push\<close>. \<open>src/transport/webusb.rs\<close>: the byte loop of \<open>reader_loop\<close>
  on the device and the 64-byte chunking of its writer. Both splitters satisfy one
  interface, the locale \<open>line_framing\<close>, whose main fact says that a sequence of framed
  lines comes back whatever the chunk boundaries of the transport are.
\<close>

section \<open>Constants and the frame function\<close>

definition MAX_LINE_BYTES :: nat where
  "MAX_LINE_BYTES = 16 * 1024"

definition NL :: byte where "NL = 0x0A"
definition CR :: byte where "CR = 0x0D"

lemma NL_neq_CR [simp]: "NL \<noteq> CR" "CR \<noteq> NL"
  by (simp_all add: NL_def CR_def)

lemma MAX_LINE_BYTES_pos [simp]: "0 < MAX_LINE_BYTES"
  by (simp add: MAX_LINE_BYTES_def)

definition frame :: "bytes \<Rightarrow> bytes" where
  "frame payload = payload @ [NL]"

section \<open>LineSplitter\<close>

datatype frame_error = LineTooLong

record line_splitter =
  ls_buf :: bytes

definition line_splitter_new :: line_splitter where
  "line_splitter_new = \<lparr>ls_buf = []\<rparr>"

text \<open>The loop of \<open>push\<close>: buffer, lines completed in this call, remaining bytes.\<close>

fun push_loop :: "bytes \<Rightarrow> bytes list \<Rightarrow> bytes \<Rightarrow> (frame_error + bytes list) \<times> bytes" where
  "push_loop buf out [] = (Inr out, buf)"
| "push_loop buf out (b # bs) =
     (if b = NL then push_loop [] (out @ [buf]) bs
      else if length buf \<ge> MAX_LINE_BYTES then (Inl LineTooLong, [])
      else push_loop (buf @ [b]) out bs)"

definition push :: "line_splitter \<Rightarrow> bytes \<Rightarrow> (frame_error + bytes list) \<times> line_splitter" where
  "push s bs =
     (case push_loop (ls_buf s) [] bs of (r, buf) \<Rightarrow> (r, s\<lparr>ls_buf := buf\<rparr>))"

section \<open>The reader loop of the WebUSB transport\<close>

text \<open>
  \<open>reader_chunk line chunk\<close>: the inner \<open>for\<close> over one chunk. It returns the payloads
  sent to the dispatcher and the in-progress line. An empty line is skipped, a carriage
  return is dropped, a byte that would exceed the cap clears the line and is lost.
\<close>

fun reader_chunk :: "bytes \<Rightarrow> bytes \<Rightarrow> bytes list \<times> bytes" where
  "reader_chunk line [] = ([], line)"
| "reader_chunk line (b # bs) =
     (if b = NL then
        (if line = [] then reader_chunk line bs
         else case reader_chunk [] bs of (ps, l) \<Rightarrow> (line # ps, l))
      else if b \<noteq> CR then
        (if length line \<ge> MAX_LINE_BYTES then reader_chunk [] bs
         else reader_chunk (line @ [b]) bs)
      else reader_chunk line bs)"

text \<open>One turn of the outer \<open>loop\<close>: what \<open>ep_out.read_buf\<close> returned.\<close>

datatype read_event = Read bytes | HostDisconnected | ReadFailed string

fun reader_step :: "bytes \<Rightarrow> read_event \<Rightarrow> bytes list \<times> bytes" where
  "reader_step line (Read chunk) = reader_chunk line chunk"
| "reader_step line HostDisconnected = ([], [])"
| "reader_step line (ReadFailed e) = ([], line)"

fun reader_run :: "bytes \<Rightarrow> read_event list \<Rightarrow> bytes list \<times> bytes" where
  "reader_run line [] = ([], line)"
| "reader_run line (e # es) =
     (case reader_step line e of (ps, l) \<Rightarrow>
        (case reader_run l es of (qs, l') \<Rightarrow> (ps @ qs, l')))"

text \<open>The writer splits a response into transfers of 64 bytes (\<open>chunks(64)\<close>).\<close>

fun chunks64 :: "bytes \<Rightarrow> bytes list" where
  "chunks64 [] = []"
| "chunks64 (b # bs) = take 64 (b # bs) # chunks64 (drop 63 bs)"

section \<open>The interface of a line splitter\<close>

text \<open>
  \<open>feed s bs\<close> consumes one chunk and yields the lines it completed, or \<open>None\<close> when it
  reports an error; \<open>good\<close> says which lines it accepts; \<open>idle\<close> that no partial line is
  buffered.
\<close>

fun feed_all :: "('s \<Rightarrow> bytes \<Rightarrow> bytes list option \<times> 's) \<Rightarrow> 's \<Rightarrow> bytes list \<Rightarrow> bytes list option \<times> 's"
where
  "feed_all feed s [] = (Some [], s)"
| "feed_all feed s (c # cs) =
     (case feed s c of
        (None, s') \<Rightarrow> (None, s')
      | (Some ls, s') \<Rightarrow>
          (case feed_all feed s' cs of
             (None, s'') \<Rightarrow> (None, s'')
           | (Some ms, s'') \<Rightarrow> (Some (ls @ ms), s'')))"

locale line_framing =
  fixes feed :: "'s \<Rightarrow> bytes \<Rightarrow> bytes list option \<times> 's"
    and good :: "bytes \<Rightarrow> bool"
    and idle :: "'s \<Rightarrow> bool"
  assumes feed_nil: "feed s [] = (Some [], s)"
    and feed_append:
      "feed s xs = (Some ls, s') \<Longrightarrow>
       feed s (xs @ ys) = (case feed s' ys of (None, s'') \<Rightarrow> (None, s'')
                                            | (Some ms, s'') \<Rightarrow> (Some (ls @ ms), s''))"
    and feed_append_fail: "fst (feed s xs) = None \<Longrightarrow> fst (feed s (xs @ ys)) = None"
    and feed_line:
      "idle s \<Longrightarrow> good l \<Longrightarrow> \<exists>s'. feed s (frame l) = (Some [l], s') \<and> idle s'"
begin

lemma feed_lines:
  "idle s \<Longrightarrow> list_all good ls \<Longrightarrow>
   \<exists>s'. feed s (concat (map frame ls)) = (Some ls, s') \<and> idle s'"
proof (induction ls arbitrary: s)
  case Nil
  then show ?case by (simp add: feed_nil)
next
  case (Cons l ls)
  from Cons.prems feed_line obtain s1 where s1: "feed s (frame l) = (Some [l], s1)" "idle s1"
    by fastforce
  from Cons.IH [OF s1(2)] Cons.prems obtain s2
    where "feed s1 (concat (map frame ls)) = (Some ls, s2)" "idle s2" by auto
  with feed_append [OF s1(1)] show ?case by simp
qed

lemma feed_all_concat:
  "feed s (concat cs) = (Some ls, s') \<Longrightarrow> feed_all feed s cs = (Some ls, s')"
proof (induction cs arbitrary: s ls)
  case Nil
  then show ?case by (simp add: feed_nil)
next
  case (Cons c cs)
  obtain r s1 where r: "feed s c = (r, s1)" by force
  show ?case
  proof (cases r)
    case None
    with r feed_append_fail [of s c "concat cs"] Cons.prems show ?thesis by simp
  next
    case (Some ms)
    with feed_append [of s c ms s1 "concat cs"] r Cons.prems
    obtain ns where ns: "feed s1 (concat cs) = (Some ns, s')" "ls = ms @ ns"
      by (auto split: prod.splits option.splits)
    from Cons.IH [OF ns(1)] r Some ns(2) show ?thesis by simp
  qed
qed

text \<open>However the bytes of the framed lines are cut into chunks, the lines come back.\<close>

lemma framed_lines_any_chunks:
  assumes "idle s" and "list_all good ls" and "concat cs = concat (map frame ls)"
  shows "\<exists>s'. feed_all feed s cs = (Some ls, s') \<and> idle s'"
proof -
  from feed_lines [OF assms(1,2)] obtain s'
    where "feed s (concat cs) = (Some ls, s')" "idle s'" using assms(3) by auto
  then show ?thesis using feed_all_concat by blast
qed

end

section \<open>LineSplitter is a line splitter\<close>

definition push_feed :: "line_splitter \<Rightarrow> bytes \<Rightarrow> bytes list option \<times> line_splitter" where
  "push_feed s bs = (case push s bs of (Inl _, s') \<Rightarrow> (None, s') | (Inr ls, s') \<Rightarrow> (Some ls, s'))"

definition splitter_good :: "bytes \<Rightarrow> bool" where
  "splitter_good l \<longleftrightarrow> NL \<notin> set l \<and> length l \<le> MAX_LINE_BYTES"

lemma push_loop_append:
  "push_loop buf out xs = (Inr ls, buf') \<Longrightarrow>
   push_loop buf out (xs @ ys) = push_loop buf' ls ys"
  by (induction buf out xs rule: push_loop.induct) (auto split: if_splits)

lemma push_loop_fail:
  "push_loop buf out xs = (Inl e, buf') \<Longrightarrow> push_loop buf out (xs @ ys) = (Inl e, buf')"
  by (induction buf out xs rule: push_loop.induct) (auto split: if_splits)

lemma push_loop_out:
  "push_loop buf (pre @ out) xs =
     (case push_loop buf out xs of (Inl e, b) \<Rightarrow> (Inl e, b) | (Inr ls, b) \<Rightarrow> (Inr (pre @ ls), b))"
proof (induction buf out xs rule: push_loop.induct)
  case (2 buf out b bs)
  then show ?case by (cases "b = NL"; cases "length buf \<ge> MAX_LINE_BYTES") simp_all
qed simp

lemma push_loop_plain:
  "NL \<notin> set xs \<Longrightarrow> length buf + length xs \<le> MAX_LINE_BYTES \<Longrightarrow>
   push_loop buf out xs = (Inr out, buf @ xs)"
  by (induction xs arbitrary: buf) auto

lemma push_loop_line:
  "NL \<notin> set l \<Longrightarrow> length l \<le> MAX_LINE_BYTES \<Longrightarrow>
   push_loop [] out (l @ NL # bs) = push_loop [] (out @ [l]) bs"
  using push_loop_append [OF push_loop_plain [of l "[]" out]] by simp

lemma push_loop_overlong:
  "NL \<notin> set p \<Longrightarrow> MAX_LINE_BYTES < length buf + length p \<Longrightarrow> length buf \<le> MAX_LINE_BYTES \<Longrightarrow>
   push_loop buf out p = (Inl LineTooLong, [])"
  by (induction p arbitrary: buf) auto

lemma push_loop_buf_bound:
  "push_loop buf out xs = (r, buf') \<Longrightarrow> length buf \<le> MAX_LINE_BYTES \<Longrightarrow>
   length buf' \<le> MAX_LINE_BYTES"
  by (induction buf out xs rule: push_loop.induct) (auto split: if_splits)

interpretation splitter: line_framing push_feed splitter_good "\<lambda>s. ls_buf s = []"
proof unfold_locales
  fix s :: line_splitter
  show "push_feed s [] = (Some [], s)"
    by (simp add: push_feed_def push_def)
next
  fix s s' :: line_splitter and xs ys ls
  assume h: "push_feed s xs = (Some ls, s')"
  then have p: "push_loop (ls_buf s) [] xs = (Inr ls, ls_buf s')" and s': "s' = s\<lparr>ls_buf := ls_buf s'\<rparr>"
    by (auto simp: push_feed_def push_def split: prod.splits sum.splits)
  show "push_feed s (xs @ ys) = (case push_feed s' ys of (None, s'') \<Rightarrow> (None, s'')
          | (Some ms, s'') \<Rightarrow> (Some (ls @ ms), s''))"
    using push_loop_append [OF p, of ys] push_loop_out [of "ls_buf s'" ls "[]" ys] s'
    by (auto simp: push_feed_def push_def split: prod.splits sum.splits)
next
  fix s :: line_splitter and xs ys
  assume "fst (push_feed s xs) = None"
  then show "fst (push_feed s (xs @ ys)) = None"
    by (auto simp: push_feed_def push_def push_loop_fail split: prod.splits sum.splits)
next
  fix s :: line_splitter and l
  assume "ls_buf s = []" and "splitter_good l"
  then show "\<exists>s'. push_feed s (frame l) = (Some [l], s') \<and> ls_buf s' = []"
    by (auto simp: push_feed_def push_def frame_def splitter_good_def push_loop_line)
qed

section \<open>The reader loop is a line splitter\<close>

definition reader_feed :: "bytes \<Rightarrow> bytes \<Rightarrow> bytes list option \<times> bytes" where
  "reader_feed line chunk = (case reader_chunk line chunk of (ps, l) \<Rightarrow> (Some ps, l))"

definition reader_good :: "bytes \<Rightarrow> bool" where
  "reader_good l \<longleftrightarrow> l \<noteq> [] \<and> NL \<notin> set l \<and> CR \<notin> set l \<and> length l \<le> MAX_LINE_BYTES"

lemma reader_chunk_append:
  "reader_chunk line (xs @ ys) =
     (case reader_chunk line xs of (ps, l) \<Rightarrow>
        (case reader_chunk l ys of (qs, l') \<Rightarrow> (ps @ qs, l')))"
  by (induction line xs rule: reader_chunk.induct) (auto split: prod.splits)

lemma reader_chunk_plain:
  "NL \<notin> set xs \<Longrightarrow> CR \<notin> set xs \<Longrightarrow> length line + length xs \<le> MAX_LINE_BYTES \<Longrightarrow>
   reader_chunk line xs = ([], line @ xs)"
  by (induction xs arbitrary: line) auto

lemma reader_chunk_bound:
  "reader_chunk line xs = (ps, l) \<Longrightarrow> length line \<le> MAX_LINE_BYTES \<Longrightarrow>
   length l \<le> MAX_LINE_BYTES \<and> (\<forall>p \<in> set ps. p \<noteq> [] \<and> length p \<le> MAX_LINE_BYTES)"
proof (induction xs arbitrary: line ps)
  case Nil
  then show ?case by simp
next
  case (Cons b bs)
  consider (skip) "b = NL" "line = []" | (emit) "b = NL" "line \<noteq> []"
    | (cr) "b = CR" | (full) "b \<noteq> NL" "b \<noteq> CR" "length line \<ge> MAX_LINE_BYTES"
    | (keep) "b \<noteq> NL" "b \<noteq> CR" "length line < MAX_LINE_BYTES"
    using linorder_not_le by blast
  then show ?case
  proof cases
    case emit
    then obtain qs where "reader_chunk [] bs = (qs, l)" "ps = line # qs"
      using Cons.prems(1) by (auto split: prod.splits)
    with Cons.IH [of "[]" qs] Cons.prems(2) emit show ?thesis by simp
  next
    case keep
    then have "reader_chunk (line @ [b]) bs = (ps, l)" using Cons.prems(1) by simp
    with Cons.IH [of "line @ [b]" ps] keep show ?thesis by simp
  qed (use Cons in simp_all)
qed

interpretation reader: line_framing reader_feed reader_good "\<lambda>l. l = []"
proof unfold_locales
  fix l :: bytes
  show "reader_feed l [] = (Some [], l)" by (simp add: reader_feed_def)
next
  fix s s' xs ys ls
  assume "reader_feed s xs = (Some ls, s')"
  then show "reader_feed s (xs @ ys) = (case reader_feed s' ys of (None, s'') \<Rightarrow> (None, s'')
          | (Some ms, s'') \<Rightarrow> (Some (ls @ ms), s''))"
    by (auto simp: reader_feed_def reader_chunk_append split: prod.splits)
next
  fix s xs ys
  assume "fst (reader_feed s xs) = None"
  then show "fst (reader_feed s (xs @ ys)) = None"
    by (auto simp: reader_feed_def split: prod.splits)
next
  fix s l :: bytes
  assume "s = []" and "reader_good l"
  then show "\<exists>s'. reader_feed s (frame l) = (Some [l], s') \<and> s' = []"
    by (simp add: reader_feed_def frame_def reader_good_def reader_chunk_append reader_chunk_plain)
qed

lemma reader_run_bound:
  "reader_run line es = (ps, l) \<Longrightarrow> length line \<le> MAX_LINE_BYTES \<Longrightarrow>
   length l \<le> MAX_LINE_BYTES \<and> (\<forall>p \<in> set ps. p \<noteq> [] \<and> length p \<le> MAX_LINE_BYTES)"
proof (induction es arbitrary: line ps)
  case Nil
  then show ?case by simp
next
  case (Cons e es)
  obtain qs m where s: "reader_step line e = (qs, m)" by force
  obtain rs where r: "reader_run m es = (rs, l)" "ps = qs @ rs"
    using Cons.prems(1) s by (auto split: prod.splits)
  have b: "length m \<le> MAX_LINE_BYTES \<and> (\<forall>p \<in> set qs. p \<noteq> [] \<and> length p \<le> MAX_LINE_BYTES)"
    using s Cons.prems(2) reader_chunk_bound by (cases e) auto
  with Cons.IH [OF r(1)] r(2) show ?case by auto
qed

text \<open>
  The tail of an overlong line is not skipped: one byte above the cap the buffer is
  cleared and what follows is collected as a line of its own.
\<close>

lemma reader_overlong_tail:
  assumes "NL \<notin> set p" and "CR \<notin> set p" and "length p = Suc MAX_LINE_BYTES" and "reader_good l"
  shows "reader_chunk [] (p @ frame l) = ([l], [])"
proof -
  obtain q x where p: "p = q @ [x]" using assms(3) by (cases p rule: rev_cases) auto
  have q: "reader_chunk [] q = ([], q)"
    using reader_chunk_plain [of q "[]"] assms(1-3) p by simp
  have "reader_chunk [] p = ([], [])"
    using q assms p by (auto simp: reader_chunk_append)
  moreover have "reader_chunk [] (frame l) = ([l], [])"
    using assms(4) by (simp add: frame_def reader_good_def reader_chunk_append reader_chunk_plain)
  ultimately show ?thesis by (simp add: reader_chunk_append)
qed

section \<open>Chunks of the writer\<close>

lemma concat_chunks64: "concat (chunks64 bs) = bs"
  by (induction bs rule: chunks64.induct) (simp_all add: drop_Cons')

lemma chunks64_bounds: "c \<in> set (chunks64 bs) \<Longrightarrow> c \<noteq> [] \<and> length c \<le> 64"
  by (induction bs rule: chunks64.induct) auto

end
