(* ===== verification/Sampling.thy ===== *)
theory Sampling
  imports Password
begin

text \<open>
  What rejection sampling gives. A sampler reads blocks of the random tape until it meets one
  that it accepts. The locale counts, among the tapes of a given number of blocks, those that
  make it return a given value whatever follows: as many for each value. The loops
  \<open>pick_byte\<close> and \<open>random_index\<close> of \<open>engine.rs\<close> are two such samplers.
\<close>

section \<open>Blocks of a tape\<close>

definition tapes :: "nat \<Rightarrow> bytes set" where
  "tapes n = {bs. length bs = n}"

lemma finite_tapes [simp]: "finite (tapes n)"
  using finite_lists_length_eq [of "UNIV :: byte set" n] by (simp add: tapes_def)

lemma card_tapes: "card (tapes n) = 256 ^ n"
  using card_lists_length_eq [of "UNIV :: byte set" n] by (simp add: tapes_def card_word)

lemma tapes_append: "tapes (m + n) = (\<lambda>(b, bs). b @ bs) ` (tapes m \<times> tapes n)"
proof (intro set_eqI iffI)
  fix bs assume "bs \<in> tapes (m + n)"
  then have "bs = take m bs @ drop m bs \<and> take m bs \<in> tapes m \<and> drop m bs \<in> tapes n"
    by (simp add: tapes_def)
  then show "bs \<in> (\<lambda>(b, bs). b @ bs) ` (tapes m \<times> tapes n)"
    by (intro image_eqI [of _ _ "(take m bs, drop m bs)"]) simp_all
qed (auto simp: tapes_def)

lemma inj_append: "inj_on (\<lambda>(b, bs). b @ bs) (tapes m \<times> tapes n)"
  by (auto simp: inj_on_def tapes_def)

section \<open>Rejection samplers\<close>

text \<open>The tapes of \<open>n\<close> bytes after which the sampler returns \<open>v\<close>, whatever follows.\<close>

definition returning :: "(byte stream \<Rightarrow> 'v option) \<Rightarrow> nat \<Rightarrow> 'v \<Rightarrow> bytes set" where
  "returning f n v = {bs \<in> tapes n. \<forall>s. f (bs @- s) = Some v}"

locale rejection_sampler =
  fixes f :: "byte stream \<Rightarrow> 'v option" and m :: nat and test :: "bytes \<Rightarrow> 'v option"
    and vals :: "'v set" and q :: nat
  assumes reads_block: "b \<in> tapes m \<Longrightarrow> f (b @- s) = (case test b of None \<Rightarrow> f s | Some v \<Rightarrow> Some v)"
    and in_values: "b \<in> tapes m \<Longrightarrow> test b = Some v \<Longrightarrow> v \<in> vals"
    and each_value: "v \<in> vals \<Longrightarrow> card {b \<in> tapes m. test b = Some v} = q"
    and some_tape: "0 < q"
    and two_values: "finite vals" "2 \<le> card vals"
begin

text \<open>Before its first block the sampler has not decided.\<close>

lemma undecided: "\<not> (\<forall>s. f s = Some v)"
proof
  assume v: "\<forall>s. f s = Some v"
  obtain u where u: "u \<in> vals" "u \<noteq> v"
  proof -
    have "\<not> vals \<subseteq> {v}" using two_values card_mono [of "{v}" vals] by auto
    then show ?thesis using that by blast
  qed
  then have "{b \<in> tapes m. test b = Some u} \<noteq> {}"
    using each_value [of u] some_tape by (metis card.empty not_less_zero)
  then obtain b where "b \<in> tapes m" "test b = Some u" by blast
  with reads_block [of b] v u(2) show False by simp
qed

lemma card_accepted: "card {b \<in> tapes m. test b \<noteq> None} = card vals * q"
proof -
  have "{b \<in> tapes m. test b \<noteq> None} = (\<Union>v \<in> vals. {b \<in> tapes m. test b = Some v})"
    using in_values by auto
  also have "card \<dots> = (\<Sum>v \<in> vals. card {b \<in> tapes m. test b = Some v})"
    using two_values(1) by (intro card_UN_disjoint) auto
  also have "\<dots> = card vals * q" using each_value by simp
  finally show ?thesis .
qed

lemma card_rejected: "card {b \<in> tapes m. test b = None} = 256 ^ m - card vals * q"
proof -
  have "{b \<in> tapes m. test b = None} = tapes m - {b \<in> tapes m. test b \<noteq> None}" by auto
  then have "card {b \<in> tapes m. test b = None} = card (tapes m) - card {b \<in> tapes m. test b \<noteq> None}"
    by (simp add: card_Diff_subset)
  then show ?thesis by (simp only: card_accepted card_tapes)
qed

lemma accepted_le: "card vals * q \<le> 256 ^ m"
proof -
  have "card {b \<in> tapes m. test b \<noteq> None} \<le> card (tapes m)" by (intro card_mono) auto
  then show ?thesis by (simp only: card_accepted card_tapes)
qed

text \<open>One more block: accepted with this value, or rejected.\<close>

lemma returning_Suc:
  assumes "v \<in> vals"
  shows "returning f (m + n) v = (\<lambda>(b, bs). b @ bs) `
    ({b \<in> tapes m. test b = Some v} \<times> tapes n \<union> {b \<in> tapes m. test b = None} \<times> returning f n v)"
proof -
  have "(\<forall>s. f ((b @ bs) @- s) = Some v) \<longleftrightarrow> test b = Some v \<or> (test b = None \<and> (\<forall>s. f (bs @- s) = Some v))"
    if "b \<in> tapes m" for b bs
    using reads_block [OF that] by (cases "test b") (simp_all add: shift_append)
  then show ?thesis unfolding returning_def tapes_append by fastforce
qed

lemma card_returning_Suc:
  assumes "v \<in> vals"
  shows "card (returning f (m + n) v) = q * 256 ^ n + (256 ^ m - card vals * q) * card (returning f n v)"
proof -
  let ?A = "{b \<in> tapes m. test b = Some v} \<times> tapes n" and ?B = "{b \<in> tapes m. test b = None} \<times> returning f n v"
  have fin: "finite (returning f n v)" by (simp add: returning_def)
  have "?A \<union> ?B \<subseteq> tapes m \<times> tapes n" by (auto simp: returning_def)
  then have "inj_on (\<lambda>(b, bs). b @ bs) (?A \<union> ?B)" by (rule inj_on_subset [OF inj_append])
  then have "card (returning f (m + n) v) = card (?A \<union> ?B)"
    using assms by (simp add: returning_Suc card_image)
  also have "\<dots> = card ?A + card ?B" using fin by (intro card_Un_disjoint) auto
  also have "\<dots> = q * 256 ^ n + (256 ^ m - card vals * q) * card (returning f n v)"
    using assms by (simp add: card_cartesian_product each_value card_tapes card_rejected)
  finally show ?thesis .
qed

text \<open>Of the tapes of \<open>k\<close> blocks, each value has the same share, and the rest is all rejected.\<close>

lemma uniform:
  assumes "v \<in> vals"
  shows "card vals * card (returning f (k * m) v) + (256 ^ m - card vals * q) ^ k = 256 ^ (k * m)"
proof (induction k)
  case 0
  have "returning f 0 v = {}" using undecided by (auto simp: returning_def tapes_def)
  then show ?case by simp
next
  case (Suc k)
  let ?r = "256 ^ m - card vals * q" and ?N = "card (returning f (k * m) v)"
  have "card vals * card (returning f (Suc k * m) v) + ?r ^ Suc k =
      card vals * q * 256 ^ (k * m) + ?r * (card vals * ?N + ?r ^ k)"
    using card_returning_Suc [OF assms, of "k * m"] by (simp add: algebra_simps)
  also have "\<dots> = (card vals * q + ?r) * 256 ^ (k * m)" by (simp add: Suc add_mult_distrib)
  also have "\<dots> = 256 ^ (Suc k * m)" using accepted_le by (simp add: power_add)
  finally show ?case .
qed

end

section \<open>The loop over bytes\<close>

definition byte_draw :: "bytes \<Rightarrow> 'z world_scheme \<Rightarrow> byte stream \<Rightarrow> byte option" where
  "byte_draw alphabet w s = map_option fst (pick_byte alphabet (w\<lparr>w_rng := s\<rparr>))"

definition byte_test :: "bytes \<Rightarrow> bytes \<Rightarrow> byte option" where
  "byte_test alphabet b =
     (if unat (b ! 0) < byte_limit (length alphabet) then Some (alphabet ! (unat (b ! 0) mod length alphabet)) else None)"

lemma byte_draw_block:
  assumes "b \<in> tapes 1"
  shows "byte_draw a w (b @- s) = (case byte_test a b of None \<Rightarrow> byte_draw a w s | Some v \<Rightarrow> Some v)"
proof -
  obtain x where b: "b = [x]" using assms by (auto simp: tapes_def length_Suc_conv)
  have "fill_bytes 1 (w\<lparr>w_rng := b @- s\<rparr>) = ([x], w\<lparr>w_rng := s\<rparr>)" by (simp add: fill_bytes_def b)
  then show ?thesis
    by (simp add: byte_draw_def byte_test_def b pick_byte.simps [of a "w\<lparr>w_rng := _\<rparr>"])
qed

lemma tapes_1: "tapes 1 = (\<lambda>x. [x]) ` UNIV"
  by (auto simp: tapes_def length_Suc_conv)

lemma byte_test_count:
  assumes "distinct a" and "0 < length a" "length a \<le> 256" and "v \<in> set a"
  shows "card {b \<in> tapes 1. byte_test a b = Some v} = 256 div length a"
proof -
  obtain i where i: "i < length a" "v = a ! i" using assms(4) by (auto simp: in_set_conv_nth)
  have "{b \<in> tapes 1. byte_test a b = Some v} =
      (\<lambda>x. [x]) ` {x. unat x < byte_limit (length a) \<and> unat x mod length a = i}"
    unfolding tapes_1 using assms(1,2) i by (auto simp: byte_test_def nth_eq_iff_index_eq)
  also have "card \<dots> = card {x :: byte. unat x < byte_limit (length a) \<and> unat x mod length a = i}"
    by (intro card_image) (simp add: inj_on_def)
  also have "\<dots> = 256 div length a" by (rule pick_byte_uniform [OF assms(2,3) i(1)])
  finally show ?thesis .
qed

lemma byte_sampler:
  assumes "distinct a" and "2 \<le> length a" "length a \<le> 256"
  shows "rejection_sampler (byte_draw a w) 1 (byte_test a) (set a) (256 div length a)"
proof
  show "byte_draw a w (b @- s) = (case byte_test a b of None \<Rightarrow> byte_draw a w s | Some v \<Rightarrow> Some v)"
    if "b \<in> tapes 1" for b s using that by (rule byte_draw_block)
  show "v \<in> set a" if "b \<in> tapes 1" "byte_test a b = Some v" for b v
  proof -
    have "unat (b ! 0) mod length a < length a" using assms(2) by (intro mod_less_divisor) linarith
    with that(2) show ?thesis by (auto simp: byte_test_def split: if_splits)
  qed
  show "card {b \<in> tapes 1. byte_test a b = Some v} = 256 div length a" if "v \<in> set a" for v
    using assms that by (intro byte_test_count) auto
  show "0 < 256 div length a" using assms(2,3) by (auto simp: div_greater_zero_iff)
qed (use assms distinct_card [OF assms(1)] in simp_all)

section \<open>The loop over indices\<close>

definition index_draw :: "nat \<Rightarrow> 'z world_scheme \<Rightarrow> byte stream \<Rightarrow> nat option" where
  "index_draw n w s = map_option fst (random_index n (w\<lparr>w_rng := s\<rparr>))"

definition index_test :: "nat \<Rightarrow> bytes \<Rightarrow> nat option" where
  "index_test n b =
     (if from_le_bytes b < index_limit (word_of_nat n) then Some (unat (from_le_bytes b mod word_of_nat n)) else None)"

lemma index_draw_block:
  assumes "b \<in> tapes 4"
  shows "index_draw n w (b @- s) = (case index_test n b of None \<Rightarrow> index_draw n w s | Some v \<Rightarrow> Some v)"
proof -
  have "length b = 4" using assms by (simp add: tapes_def)
  then have "fill_bytes 4 (w\<lparr>w_rng := b @- s\<rparr>) = (b, w\<lparr>w_rng := s\<rparr>)"
    by (simp add: fill_bytes_def stake_shift sdrop_shift)
  then show ?thesis
    by (simp add: index_draw_def index_test_def random_index.simps [of n "w\<lparr>w_rng := _\<rparr>"])
qed

text \<open>Four bytes are one word, and every word once.\<close>

definition le_value :: "bytes \<Rightarrow> nat" where
  "le_value bs = foldr (\<lambda>b acc. unat b + 256 * acc) bs 0"

lemma le_value_simps [simp]:
  "le_value [] = 0" "le_value (b # bs) = unat b + 256 * le_value bs"
  by (simp_all add: le_value_def)

lemma unat_byte: "unat (b :: byte) < 256"
  using unsigned_less [of b] by simp

lemma le_value_less: "le_value bs < 256 ^ length bs"
proof (induction bs)
  case (Cons b bs)
  have "unat b < 256" by (rule unat_byte)
  with Cons show ?case by simp
qed simp

lemma digit_eq: "a < 256 \<Longrightarrow> c < 256 \<Longrightarrow> a + 256 * x = c + 256 * y \<Longrightarrow> a = c \<and> x = (y :: nat)"
proof -
  assume a: "a < 256" "c < 256" and e: "a + 256 * x = c + 256 * y"
  have "(a + 256 * x) mod 256 = a" "(c + 256 * y) mod 256 = c" using a by simp_all
  with e have "a = c" by metis
  with e show "a = c \<and> x = y" by simp
qed

lemma le_value_inj: "length bs = length cs \<Longrightarrow> le_value bs = le_value cs \<Longrightarrow> bs = cs"
proof (induction bs arbitrary: cs)
  case (Cons b bs)
  then obtain c ds where cs: "cs = c # ds" by (cases cs) auto
  have "unat b = unat c \<and> le_value bs = le_value ds"
    using Cons.prems(2) by (intro digit_eq [OF unat_byte unat_byte]) (simp add: cs)
  with Cons cs show ?case by (simp add: unsigned_word_eqI)
qed simp

lemma from_le_bytes_bij: "bij_betw from_le_bytes (tapes 4) UNIV"
proof -
  have v: "unat (from_le_bytes bs) = le_value bs" if "bs \<in> tapes 4" for bs
  proof -
    have "le_value bs < 2 ^ 32" using le_value_less [of bs] that by (simp add: tapes_def)
    then show ?thesis using word_of_nat_u32 [of "le_value bs"] by (simp add: from_le_bytes_def le_value_def)
  qed
  have inj: "inj_on from_le_bytes (tapes 4)"
  proof (rule inj_onI)
    fix bs cs assume b: "bs \<in> tapes 4" "cs \<in> tapes 4" "from_le_bytes bs = from_le_bytes cs"
    then have "le_value bs = le_value cs" using v by metis
    with b show "bs = cs" by (intro le_value_inj) (simp_all add: tapes_def)
  qed
  have "card (from_le_bytes ` tapes 4) = CARD(u32)" using card_image [OF inj] by (simp add: card_tapes card_word)
  then have "from_le_bytes ` tapes 4 = UNIV" by (intro card_subset_eq) simp_all
  with inj show ?thesis by (simp add: bij_betw_def)
qed

lemma image_filter_UNIV: "f ` A = UNIV \<Longrightarrow> V = f ` {x \<in> A. f x \<in> V}"
  by (auto simp: set_eq_iff image_iff) metis

lemma index_test_count:
  assumes "0 < n" "n < 2 ^ 32" and "j < n"
  shows "card {b \<in> tapes 4. index_test n b = Some j} = (2 ^ 32 - 1) div n"
proof -
  let ?V = "{v :: u32. v < index_limit (word_of_nat n) \<and> unat (v mod word_of_nat n) = j}"
  have e: "{b \<in> tapes 4. index_test n b = Some j} = {b \<in> tapes 4. from_le_bytes b \<in> ?V}"
    by (auto simp: index_test_def split: if_splits)
  have "bij_betw from_le_bytes {b \<in> tapes 4. from_le_bytes b \<in> ?V} ?V"
  proof (rule bij_betw_subset [OF from_le_bytes_bij])
    have "from_le_bytes ` tapes 4 = UNIV" using from_le_bytes_bij by (simp add: bij_betw_def)
    then show "from_le_bytes ` {b \<in> tapes 4. from_le_bytes b \<in> ?V} = ?V" by (rule image_filter_UNIV [symmetric])
  qed blast
  then have "card {b \<in> tapes 4. from_le_bytes b \<in> ?V} = card ?V" by (rule bij_betw_same_card)
  also have "\<dots> = (2 ^ 32 - 1) div n" by (rule random_index_uniform [OF assms])
  finally show ?thesis unfolding e .
qed

lemma index_sampler:
  assumes "2 \<le> n" "n < 2 ^ 32"
  shows "rejection_sampler (index_draw n w) 4 (index_test n) {..<n} ((2 ^ 32 - 1) div n)"
proof
  show "index_draw n w (b @- s) = (case index_test n b of None \<Rightarrow> index_draw n w s | Some v \<Rightarrow> Some v)"
    if "b \<in> tapes 4" for b s using that by (rule index_draw_block)
  show "v \<in> {..<n}" if "b \<in> tapes 4" "index_test n b = Some v" for b v
    using that assms word_of_nat_u32 [of n] by (auto simp: index_test_def unat_mod_distrib split: if_splits)
  show "card {b \<in> tapes 4. index_test n b = Some v} = (2 ^ 32 - 1) div n" if "v \<in> {..<n}" for v
    using assms that by (intro index_test_count) auto
  show "0 < (2 ^ 32 - 1) div n" using assms by (simp add: div_greater_zero_iff)
qed (use assms in simp_all)

section \<open>The samplers of the program\<close>

lemma class_sampler_ok:
  "distinct LETTERS" "distinct DIGITS" "distinct SYMBOLS"
  "length LETTERS = 52" "length DIGITS = 10" "length SYMBOLS = 26"
  by code_simp+

lemma alphabet_distinct: "distinct (charset_alphabet hint)"
proof -
  have "distinct (LETTERS @ DIGITS @ SYMBOLS)" by code_simp
  then show ?thesis by (cases hint) (auto simp: charset_alphabet_def charset_classes_def)
qed

interpretation letter: rejection_sampler "byte_draw LETTERS w" 1 "byte_test LETTERS" "set LETTERS" "256 div length LETTERS"
  by (rule byte_sampler) (simp_all add: class_sampler_ok)

interpretation digit: rejection_sampler "byte_draw DIGITS w" 1 "byte_test DIGITS" "set DIGITS" "256 div length DIGITS"
  by (rule byte_sampler) (simp_all add: class_sampler_ok)

interpretation symbol: rejection_sampler "byte_draw SYMBOLS w" 1 "byte_test SYMBOLS" "set SYMBOLS" "256 div length SYMBOLS"
  by (rule byte_sampler) (simp_all add: class_sampler_ok)

interpretation shuffle_index: rejection_sampler "index_draw (max 2 (unat (n :: u32))) w" 4
    "index_test (max 2 (unat n))" "{..<max 2 (unat n)}" "(2 ^ 32 - 1) div max 2 (unat n)"
  by (rule index_sampler) (use unsigned_less [of n] in simp_all)

text \<open>The counts, in terms of the loops.\<close>

lemma byte_tapes:
  "returning (byte_draw a w) k c = {bs. length bs = k \<and> (\<forall>s. \<exists>w'. pick_byte a (w\<lparr>w_rng := bs @- s\<rparr>) = Some (c, w'))}"
  by (auto simp: returning_def tapes_def byte_draw_def)

lemma index_tapes:
  "returning (index_draw n w) k j = {bs. length bs = k \<and> (\<forall>s. \<exists>w'. random_index n (w\<lparr>w_rng := bs @- s\<rparr>) = Some (j, w'))}"
  by (auto simp: returning_def tapes_def index_draw_def)

lemma pick_byte_share:
  assumes "distinct a" "2 \<le> length a" "length a \<le> 256" and "c \<in> set a"
  shows "length a * card (returning (byte_draw a w) k c) + (256 mod length a) ^ k = 256 ^ k"
proof -
  have "256 - length a * (256 div length a) = 256 mod length a" by (rule minus_mult_div_eq_mod)
  with rejection_sampler.uniform [OF byte_sampler [OF assms(1-3)] assms(4), of w k] distinct_card [OF assms(1)]
  show ?thesis by simp
qed

lemma random_index_share:
  assumes "2 \<le> n" "n < 2 ^ 32" and "j < n"
  shows "n * card (returning (index_draw n w) (4 * k) j) + (2 ^ 32 - n * ((2 ^ 32 - 1) div n)) ^ k = (2 ^ 32) ^ k"
proof -
  have "(256 :: nat) ^ (k * 4) = (256 ^ 4) ^ k" by (simp only: power_mult [symmetric] mult.commute)
  with rejection_sampler.uniform [OF index_sampler [OF assms(1,2)], of j w k] assms(3)
  show ?thesis by (simp add: mult.commute)
qed

end
