(* ===== verification/ProtocolProps.thy ===== *)
theory ProtocolProps
  imports Frame Samples Sampling
begin

text \<open>
  Properties of the parts below the engine: line framing, origins and registrable domains,
  the session, and the password generator.
\<close>

section \<open>Framing\<close>

lemma feed_all_reader:
  "feed_all reader_feed line cs = (case reader_run line (map Read cs) of (ps, l) \<Rightarrow> (Some ps, l))"
  by (induction cs arbitrary: line) (auto simp: reader_feed_def split: prod.splits)

text \<open>
  Requests survive any chunking. However a host cuts the bytes of its framed requests into
  USB transfers, the reader loop of the device delivers exactly those requests, in order,
  and ends with an empty buffer (requests are non-empty, at most 16 KiB, without CR and LF).
\<close>

lemma requests_survive_chunking:
  assumes "list_all reader_good ls" and "concat cs = concat (map frame ls)"
  shows "reader_run [] (map Read cs) = (ls, [])"
  using reader.framed_lines_any_chunks [OF refl assms]
  by (auto simp: feed_all_reader split: prod.splits)

text \<open>
  Responses survive the writer and the host's splitter. The writer's transfers hold 1 to 64
  bytes and concatenate to the framed response, and a \<open>LineSplitter\<close> fed with them, or with
  any other cut of a sequence of framed responses, yields exactly those responses.
\<close>

lemma responses_survive_chunking:
  assumes "list_all splitter_good rs" and "concat cs = concat (map frame rs)"
  shows "feed_all push_feed line_splitter_new cs = (Some rs, line_splitter_new) \<and>
     (\<forall>r \<in> set rs. concat (chunks64 (frame r)) = frame r \<and>
        (\<forall>c \<in> set (chunks64 (frame r)). 1 \<le> length c \<and> length c \<le> 64) \<and>
        feed_all push_feed line_splitter_new (chunks64 (frame r)) = (Some [r], line_splitter_new))"
proof -
  have idle: "ls_buf s = [] \<longleftrightarrow> s = line_splitter_new" for s :: line_splitter
    by (cases s) (simp add: line_splitter_new_def)
  note all = splitter.framed_lines_any_chunks [unfolded idle, OF refl]
  have one: "feed_all push_feed line_splitter_new (chunks64 (frame r)) = (Some [r], line_splitter_new)"
    if "r \<in> set rs" for r
    using all [of "[r]" "chunks64 (frame r)"] assms(1) that by (auto simp: list_all_iff concat_chunks64)
  from all [OF assms] one show ?thesis
    using chunks64_bounds by (fastforce simp: concat_chunks64 Suc_le_eq)
qed

lemma responses_survive_chunking_witness:
  "feed_all push_feed line_splitter_new [[65], [66, 10, 10]] = (Some [[65, 66], []], line_splitter_new)"
  using responses_survive_chunking [of "[[65, 66], []]" "[[65], [66, 10, 10]]"]
  by (simp add: splitter_good_def frame_def NL_def MAX_LINE_BYTES_def)

text \<open>
  C37: the cap on a request line. Whatever bytes, disconnections and read errors arrive, the
  reader's line stays within 16 KiB and every payload it hands to the dispatcher is
  non-empty and within 16 KiB. But an overlong line is not skipped to its end: after the byte
  that exceeds the cap the reader starts afresh in the middle of the line, so the rest of the
  line, if it is a request of its own, is delivered as one.
\<close>

theorem reader_line_cap:
  "(case reader_run [] es of (ps, l) \<Rightarrow>
      length l \<le> 16 * 1024 \<and> (\<forall>p \<in> set ps. p \<noteq> [] \<and> length p \<le> 16 * 1024)) \<and>
   (\<forall>p l. NL \<notin> set p \<and> CR \<notin> set p \<and> length p = Suc MAX_LINE_BYTES \<and> reader_good l \<longrightarrow>
      reader_run [] [Read (p @ frame l)] = ([l], []))"
proof (intro conjI)
  show "case reader_run [] es of (ps, l) \<Rightarrow>
      length l \<le> 16 * 1024 \<and> (\<forall>p \<in> set ps. p \<noteq> [] \<and> length p \<le> 16 * 1024)"
  proof (cases "reader_run [] es")
    case (Pair ps l)
    from reader_run_bound [OF this] show ?thesis
      by (simp only: Pair prod.case MAX_LINE_BYTES_def) simp
  qed
next
  show "\<forall>p l. NL \<notin> set p \<and> CR \<notin> set p \<and> length p = Suc MAX_LINE_BYTES \<and> reader_good l \<longrightarrow>
      reader_run [] [Read (p @ frame l)] = ([l], [])"
    using reader_overlong_tail by simp
qed

lemma reader_line_cap_witness:
  "length (snd (reader_run [] [Read [65, 66], HostDisconnected, Read [67]])) \<le> 16 * 1024 \<and>
   reader_run [] [Read (replicate (Suc MAX_LINE_BYTES) 65 @ frame [66])] = ([[66]], [])"
proof
  show "length (snd (reader_run [] [Read [65, 66], HostDisconnected, Read [67]])) \<le> 16 * 1024"
    using reader_line_cap [of "[Read [65, 66], HostDisconnected, Read [67]]"] by (auto split: prod.splits)
  have "NL \<notin> set (replicate (Suc MAX_LINE_BYTES) 65)" "CR \<notin> set (replicate (Suc MAX_LINE_BYTES) 65)"
    "reader_good [66]" by (simp_all add: NL_def CR_def reader_good_def MAX_LINE_BYTES_def)
  then show "reader_run [] [Read (replicate (Suc MAX_LINE_BYTES) 65 @ frame [66])] = ([[66]], [])"
    by (intro conjunct2 [OF reader_line_cap [of "[]"], rule_format]) (simp del: replicate_Suc)
qed

section \<open>Origins\<close>

text \<open>
  Equal origins mean the same site. Two accepted URLs have the same canonical origin exactly
  when their schemes, their hosts up to ASCII case, and their ports agree, so exact matching
  on the canonical string never confuses two sites.
\<close>

lemma origin_equality_is_site_equality:
  assumes "url_ok L" and "origin_parse L s1 = Inr o1" and "origin_parse L s2 = Inr o2"
  shows "\<exists>u1 u2 h1 h2. url_parse L s1 = Inr u1 \<and> url_parse L s2 = Inr u2 \<and>
     u_host_str u1 = Some h1 \<and> u_host_str u2 = Some h2 \<and>
     (as_str o1 = as_str o2 \<longleftrightarrow>
        u_scheme u1 = u_scheme u2 \<and> to_ascii_lowercase h1 = to_ascii_lowercase h2 \<and> u_port u1 = u_port u2)"
proof -
  from origin_parse_Inr [OF assms(2)] obtain u1 h1 where u1: "url_parse L s1 = Inr u1"
    "u_scheme u1 \<in> {''http'', ''https''}" "u_host_str u1 = Some h1"
    "as_str o1 = u_scheme u1 @ ''://'' @ to_ascii_lowercase h1 @ port_suffix (u_port u1)" by blast
  from origin_parse_Inr [OF assms(3)] obtain u2 h2 where u2: "url_parse L s2 = Inr u2"
    "u_scheme u2 \<in> {''http'', ''https''}" "u_host_str u2 = Some h2"
    "as_str o2 = u_scheme u2 @ ''://'' @ to_ascii_lowercase h2 @ port_suffix (u_port u2)" by blast
  have hf: "host_form h" if "url_parse L s = Inr u" "u_scheme u \<in> {''http'', ''https''}" "u_host_str u = Some h"
    for s u h using assms(1) that unfolding url_ok_def host_form_def by blast
  note h1 = host_form_lower [OF hf [OF u1(1-3)]] and h2 = host_form_lower [OF hf [OF u2(1-3)]]
  from canonical_text_inj [OF u1(2) u2(2) h1 h2] u1(4) u2(4)
  have "as_str o1 = as_str o2 \<longleftrightarrow>
        u_scheme u1 = u_scheme u2 \<and> to_ascii_lowercase h1 = to_ascii_lowercase h2 \<and> u_port u1 = u_port u2"
    by metis
  with u1 u2 show ?thesis by blast
qed

text \<open>
  C36: what an origin is. \<open>Origin::parse\<close> accepts exactly the URLs with scheme \<open>http\<close> or \<open>https\<close>,
  no user info and a host; the result is \<open>scheme://host[:port]\<close> with the host in lower case;
  parsing a result again returns it unchanged. Two accepted URLs have the same origin exactly
  when their schemes, their hosts up to ASCII case, and their ports agree, so exact matching
  on the canonical string never confuses two sites.
\<close>

theorem origin_parse_canonical:
  assumes "url_ok L"
  shows "(origin_parse L s = Inr ori \<longleftrightarrow>
       (\<exists>u h. url_parse L s = Inr u \<and> u_scheme u \<in> {''http'', ''https''} \<and> u_username u = [] \<and>
          u_password u = None \<and> u_host_str u = Some h \<and>
          ori = Origin (u_scheme u @ ''://'' @ to_ascii_lowercase h @ port_suffix (u_port u)))) \<and>
     (origin_parse L s = Inr ori \<longrightarrow> origin_parse L (as_str ori) = Inr ori) \<and>
     (\<forall>s2 o2 u u2 h h2. origin_parse L s = Inr ori \<and> origin_parse L s2 = Inr o2 \<and>
        url_parse L s = Inr u \<and> u_host_str u = Some h \<and> url_parse L s2 = Inr u2 \<and> u_host_str u2 = Some h2 \<longrightarrow>
        (as_str ori = as_str o2 \<longleftrightarrow>
           u_scheme u = u_scheme u2 \<and> to_ascii_lowercase h = to_ascii_lowercase h2 \<and> u_port u = u_port u2))"
proof (intro conjI iffI impI)
  assume "origin_parse L s = Inr ori"
  from origin_parse_Inr [OF this] show "\<exists>u h. url_parse L s = Inr u \<and> u_scheme u \<in> {''http'', ''https''} \<and>
      u_username u = [] \<and> u_password u = None \<and> u_host_str u = Some h \<and>
      ori = Origin (u_scheme u @ ''://'' @ to_ascii_lowercase h @ port_suffix (u_port u))"
    by (cases ori) simp
next
  assume "\<exists>u h. url_parse L s = Inr u \<and> u_scheme u \<in> {''http'', ''https''} \<and> u_username u = [] \<and>
      u_password u = None \<and> u_host_str u = Some h \<and>
      ori = Origin (u_scheme u @ ''://'' @ to_ascii_lowercase h @ port_suffix (u_port u))"
  then show "origin_parse L s = Inr ori" by (elim exE conjE) (simp only: origin_parse_intro)
next
  assume "origin_parse L s = Inr ori"
  with assms show "origin_parse L (as_str ori) = Inr ori" by (rule origin_parse_fixed)
qed (use origin_equality_is_site_equality [OF assms] in fastforce)

lemma sample_origin: "origin_parse sample_libs ''https://Example.com/login'' = Inr (Origin ''https://example.com'')"
  by code_simp

lemma origin_parse_canonical_witness:
  "origin_parse sample_libs (as_str (Origin ''https://example.com'')) = Inr (Origin ''https://example.com'')"
  using origin_parse_canonical [OF sample_url_ok, of "''https://Example.com/login''"] sample_origin by blast

text \<open>
  Registrable domains. A registrable domain of a host is the host or follows a dot in it; it
  is one non-empty label in front of a known multi-label public suffix, or, where no known
  suffix applies, the last two non-empty labels. For a host without a leading dot and
  without empty labels it is never itself a public suffix of the table.
\<close>

lemma registrable_domain_is_registrable:
  assumes "registrable_domain host = Some d"
  shows "at_label d host \<and>
     (\<exists>l suffix. d = l @ ''.'' @ suffix \<and> l \<noteq> [] \<and> CHR ''.'' \<notin> set l \<and>
        (suffix \<in> set MULTI_LABEL_SUFFIXES \<or>
         (CHR ''.'' \<notin> set suffix \<and> suffix \<noteq> [] \<and> suffix_loop MULTI_LABEL_SUFFIXES host = None))) \<and>
     (\<not> starts_with ''.'' host \<longrightarrow> \<not> contains ''..'' host \<longrightarrow> d \<notin> set MULTI_LABEL_SUFFIXES)"
  using registrable_domain_cases [OF assms] registrable_not_suffix [OF assms] by blast

section \<open>The session\<close>

text \<open>
  C33: a handshake gives both ends one key. When the host's and the device's calls of a handshake
  succeed, both sessions are active with the same key, and what either end seals the other
  opens.
\<close>

theorem handshake_then_sealed_messages:
  assumes laws: "dh_ok L" "hex_ok L" "aead_ok L" "hkdf_ok L"
    and b: "begin_host L h0 w0 = ((host_pub, host_secret), h1, w1)"
    and a: "accept L (hex_encode L host_pub) info now d0 w1 = (Inr dev_hex, d1, w2)"
    and c: "complete_host L host_secret dev_hex info now' h1 = (r, h2)"
  shows "r = Inr () \<and> ss_key h2 = ss_key d1 \<and> session_inv d1 \<and> session_inv h2 \<and>
     (\<forall>p t x d3 w3 t'. seal L p t d1 w2 = (Inr x, d3, w3) \<longrightarrow> fst (open_sealed L x t' h2) = Inr p) \<and>
     (\<forall>p t x h3 w3 t'. seal L p t h2 w2 = (Inr x, h3, w3) \<longrightarrow> fst (open_sealed L x t' d1) = Inr p)"
proof -
  note k = handshake_same_key [OF laws(1,2) b a c]
  have id: "session_inv d1" by (rule accept_inv [OF laws(4) a])
  then have ih: "session_inv h2" using k by (simp add: session_inv_def)
  have "fst (open_sealed L x t' h2) = Inr p" if "seal L p t d1 w2 = (Inr x, d3, w3)" for p t x d3 w3 t'
    using open_of_seal [OF laws(3,2) id that, of h2 t'] k by simp
  moreover have "fst (open_sealed L x t' d1) = Inr p" if "seal L p t h2 w2 = (Inr x, h3, w3)" for p t x h3 w3 t'
    using open_of_seal [OF laws(3,2) ih that, of d1 t'] k by simp
  ultimately show ?thesis using k id ih by blast
qed

lemma handshake_then_sealed_messages_witness:
  "\<exists>d1 h2. session_inv d1 \<and> session_inv h2 \<and> ss_key h2 = ss_key d1 \<and> ss_state d1 = Active"
proof -
  let ?w = "\<lparr>w_rng = sconst 1, w_clock = sconst 0\<rparr> :: world"
  let ?L = sample_libs
  obtain sec w1 where f0: "fill_bytes 32 ?w = (sec, w1)" by force
  then have sec: "sec = replicate 32 1" and w1: "w1 = ?w"
    by (auto simp: fill_bytes_def numeral_eq_Suc)
  have b: "begin_host ?L session_new ?w = ((sec, sec), session_new\<lparr>ss_state := Handshaking\<rparr>, ?w)"
    using f0 w1 sec by (simp add: begin_host_def sample_libs_def pad32_def)
  have nz: "\<not> all_zero (x25519_shared ?L sec sec)"
    by (simp add: all_zero_def sample_libs_def sec pad32_def numeral_eq_Suc)
  let ?d1 = "activate (replicate 32 2) 5 (session_new\<lparr>ss_state := Handshaking\<rparr>)"
  have a: "accept ?L (hex_encode ?L sec) SESSION_INFO 5 session_new ?w = (Inr (hex_encode ?L sec), ?d1, ?w)"
    using f0 w1 sec nz
    by (simp add: accept_def parse_pubkey_def Let_def) (simp add: sample_libs_def pad32_def)
  obtain r h2 where c: "complete_host ?L sec (hex_encode ?L sec) SESSION_INFO 6
      (session_new\<lparr>ss_state := Handshaking\<rparr>) = (r, h2)" by force
  from handshake_then_sealed_messages [OF sample_dh sample_hex sample_aead(1) sample_hkdf b a c]
  show ?thesis by (intro exI [of _ ?d1] exI [of _ h2]) (simp add: activate_def)
qed

text \<open>
  C34: an idle session is dead until a new handshake. When the idle check fires, which is exactly
  when the session is active and at least the threshold has passed since its last use, the
  key is wiped and every seal, open and nonce is refused.
\<close>

theorem idle_session_is_unusable:
  assumes "check_idle now threshold s = (b, s')"
  shows "(b \<longleftrightarrow> ss_state s = Active \<and> unat threshold \<le> unat now - unat (ss_last_activity s)) \<and>
     (\<not> b \<longrightarrow> s' = s) \<and>
     (b \<longrightarrow> ss_key s' = None \<and>
        (\<forall>L p t w. fst (seal (L :: 'l libs_scheme) p t s' (w :: 'z world_scheme)) = Inl NotActive) \<and>
        (\<forall>L x t. open_sealed (L :: 'l libs_scheme) x t s' = (Inl NotActive, s')) \<and>
        (\<forall>n t. accept_nonce n t s' = (Inl NotActive, s')) \<and>
        (\<forall>t th. check_idle t th s' = (False, s')))"
proof -
  have "b \<longleftrightarrow> ss_state s = Active \<and> unat threshold \<le> unat now - unat (ss_last_activity s)"
    using check_idle_iff [of now threshold s] assms by simp
  moreover have "\<not> b \<longrightarrow> s' = s" using assms by (auto dest: check_idle_false)
  moreover have "b \<longrightarrow> s' = expire s" using assms by (auto simp: check_idle_def split: if_splits)
  ultimately show ?thesis
    by (auto simp: expire_def seal_def open_sealed_def accept_nonce_def check_idle_def)
qed

lemma idle_session_is_unusable_witness: "ss_key (snd (check_idle 901000 DEFAULT_IDLE_MS sample_session)) = None"
proof -
  obtain b s' where c: "check_idle 901000 DEFAULT_IDLE_MS sample_session = (b, s')" by force
  from idle_session_is_unusable [OF c] have "b \<and> ss_key s' = None" by (auto simp: sample_session_def)
  with c show ?thesis by simp
qed



section \<open>The password generator\<close>

text \<open>
  Generated passwords are well formed, and the generator ends. On a fair random tape
  \<open>generate_password\<close> returns a password of the requested length over the enabled alphabet
  with, where the length leaves room, a character of every enabled class.
\<close>

lemma generator_ends_and_is_well_formed:
  assumes "fair (w_rng w)" and "0 < len" "len < 2 ^ 32" and "charset_alphabet hint \<noteq> []"
  shows "\<exists>pw w'. generate_password len hint w = Some (pw, w') \<and> length pw = len \<and>
     set (as_bytes pw) \<subseteq> set (charset_alphabet hint) \<and>
     (length (charset_classes hint) \<le> len \<longrightarrow>
        (\<forall>cl \<in> set (charset_classes hint). set (as_bytes pw) \<inter> set cl \<noteq> {}))"
proof -
  from generate_password_returns [OF assms(1,3)] obtain pw w' where
    g: "generate_password len hint w = Some (pw, w')" by blast
  from generate_password_spec [OF g assms(2-4)] g show ?thesis by blast
qed

text \<open>
  C39: rejection sampling favours no character and no position. Run \<open>pick_byte\<close> on an alphabet of at
  least two different bytes from any world, and look at all random tapes of \<open>k\<close> bytes: every
  character of the alphabet is returned, whatever the tape goes on with, for the same number
  of them, and the share of tapes after which the loop is still rejecting is
  \<open>((256 mod n) / 256) ^ k\<close>, so it vanishes. The same holds of the positions \<open>random_index\<close>
  returns, on tapes of \<open>k\<close> blocks of four bytes, with the share of rejected words.
\<close>

theorem sampling_is_uniform:
  fixes w :: "'z world_scheme"
  assumes "distinct alphabet" and "2 \<le> length alphabet" "length alphabet \<le> 256" and "2 \<le> n" "n < 2 ^ 32"
  shows "(\<forall>k. \<forall>c \<in> set alphabet.
       length alphabet * card {bs. length bs = k \<and>
           (\<forall>s. \<exists>w'. pick_byte alphabet (w\<lparr>w_rng := bs @- s\<rparr>) = Some (c, w'))} +
         (256 mod length alphabet) ^ k = 256 ^ k) \<and>
     (\<forall>k. \<forall>j < n.
       n * card {bs. length bs = 4 * k \<and>
           (\<forall>s. \<exists>w'. random_index n (w\<lparr>w_rng := bs @- s\<rparr>) = Some (j, w'))} +
         (2 ^ 32 - n * ((2 ^ 32 - 1) div n)) ^ k = (2 ^ 32) ^ k)"
  using pick_byte_share [OF assms(1-3)] random_index_share [OF assms(4,5)]
  unfolding byte_tapes index_tapes by blast

lemma sampling_is_uniform_witness:
  "card {bs. length bs = 1 \<and>
      (\<forall>s. \<exists>w'. pick_byte DIGITS (sample_world\<lparr>w_rng := bs @- s\<rparr>) = Some (48, w'))} = 25"
proof -
  have d: "distinct DIGITS" "2 \<le> length DIGITS" "length DIGITS \<le> 256" "2 \<le> (2 :: nat)" "(2 :: nat) < 2 ^ 32"
    by (simp_all add: class_sampler_ok)
  have c: "48 \<in> set DIGITS" by code_simp
  from conjunct1 [OF sampling_is_uniform [OF d, of sample_world], rule_format, OF c, of 1]
  show ?thesis by (simp add: class_sampler_ok)
qed

end
