(* ===== verification/CsvImport.thy ===== *)
theory CsvImport
  imports Externals
begin

text \<open>
  The CSV import crate (\<open>logic/vaults-bridge-import/src/lib.rs\<close>): the row iterator, the
  detection of the source by its header, the column mapping, and \<open>parse\<close>. The separators
  and the quote are ASCII, so the iterator over characters is the same iterator over the
  UTF-8 bytes of the text.
\<close>

section \<open>Rows\<close>

definition DQ :: char where "DQ = CHR 0x22"
definition COMMA :: char where "COMMA = CHR '',''"
definition LF :: char where "LF = CHR 0x0A"
definition CRET :: char where "CRET = CHR 0x0D"

lemmas csv_chars = DQ_def COMMA_def LF_def CRET_def

text \<open>
  \<open>RowIter::next\<close>: \<open>saw_any\<close>, \<open>in_quotes\<close>, the fields so far, the current field, the rest
  of the text. The result is the row and the text after it.
\<close>

fun row_loop :: "bool \<Rightarrow> bool \<Rightarrow> string list \<Rightarrow> string \<Rightarrow> string \<Rightarrow> string list option \<times> string" where
  "row_loop saw_any in_quotes fs cur [] =
     (if \<not> saw_any then (None, [])
      else let row = fs @ [cur] in
           if list_all (\<lambda>s. s = []) row then (None, []) else (Some row, []))"
| "row_loop saw_any in_quotes fs cur (ch # rest) =
     (if in_quotes then
        (if ch = DQ then
           (case rest of
              c # rest' \<Rightarrow>
                if c = DQ then row_loop True True fs (cur @ [DQ]) rest'
                else row_loop True False fs cur (c # rest')
            | [] \<Rightarrow> row_loop True False fs cur [])
         else row_loop True True fs (cur @ [ch]) rest)
      else if ch = DQ then row_loop True True fs cur rest
      else if ch = COMMA then row_loop True False (fs @ [cur]) [] rest
      else if ch = LF then (Some (fs @ [cur]), rest)
      else if ch = CRET then
        (Some (fs @ [cur]), if take 1 rest = [LF] then drop 1 rest else rest)
      else row_loop True False fs (cur @ [ch]) rest)"

definition row_next :: "string \<Rightarrow> string list option \<times> string" where
  "row_next s = row_loop False False [] [] s"

lemma row_loop_length: "row_loop saw q fs cur s = (r, rest) \<Longrightarrow> length rest \<le> length s"
proof (induction saw q fs cur s rule: row_loop.induct)
  case (2 saw q fs cur ch s)
  from 2 show ?case by (cases s) (auto split: if_splits intro: le_SucI)
qed (auto simp: Let_def split: if_splits)

lemma row_next_shorter: "row_next s = (Some r, rest) \<Longrightarrow> length rest < length s"
  by (cases s)
    (auto simp: row_next_def DQ_def COMMA_def LF_def CRET_def split: if_splits dest!: row_loop_length)

text \<open>All rows: \<open>next\<close> until it returns \<open>None\<close>.\<close>

function csv_rows :: "string \<Rightarrow> string list list" where
  "csv_rows s = (case row_next s of (None, _) \<Rightarrow> [] | (Some r, rest) \<Rightarrow> r # csv_rows rest)"
  by pat_completeness auto
termination
  by (relation "measure length") (auto dest: row_next_shorter [OF sym])

declare csv_rows.simps [simp del]

section \<open>Sources and columns\<close>

datatype import_source = Google | Proton | OnePassword | Bitwarden | AppleKeychain | Lastpass | Generic

fun source_label :: "import_source \<Rightarrow> string" where
  "source_label Google = ''Google Passwords''"
| "source_label Proton = ''Proton Pass''"
| "source_label OnePassword = ''1Password''"
| "source_label Bitwarden = ''Bitwarden''"
| "source_label AppleKeychain = ''Apple Keychain''"
| "source_label Lastpass = ''LastPass''"
| "source_label Generic = ''Generic CSV''"

text \<open>The closure \<open>has\<close>, on the lower-case names \<open>lc\<close>.\<close>

definition header_has :: "string list \<Rightarrow> string \<Rightarrow> bool" where
  "header_has header needle \<longleftrightarrow> needle \<in> set (map (\<lambda>s. to_ascii_lowercase (trim s)) header)"

definition detect_source :: "string list \<Rightarrow> import_source option" where
  "detect_source header =
     (let has = header_has header in
      if has ''name'' \<and> has ''url'' \<and> has ''username'' \<and> has ''password'' \<and> has ''note'' then Some Google
      else if has ''name'' \<and> has ''url'' \<and> has ''password'' \<and> (has ''email'' \<or> has ''note'') then Some Proton
      else if has ''title'' \<and> has ''url'' \<and> has ''username'' \<and> has ''password'' \<and> has ''notes''
        then Some OnePassword
      else if has ''login_uri'' \<and> has ''login_username'' \<and> has ''login_password'' then Some Bitwarden
      else if has ''title'' \<and> has ''url'' \<and> has ''username'' \<and> has ''password'' then Some AppleKeychain
      else if has ''url'' \<and> has ''username'' \<and> has ''password'' \<and> has ''extra'' \<and> has ''grouping''
        then Some Lastpass
      else if has ''url'' \<and> has ''username'' \<and> has ''password'' then Some Generic
      else None)"

record mapping_cols =
  mp_name :: "nat option"
  mp_url :: "nat option"
  mp_username :: "nat option"
  mp_password :: "nat option"
  mp_notes :: "nat option"

definition find_column :: "string list \<Rightarrow> string \<Rightarrow> nat option" where
  "find_column header needle = position (\<lambda>c. eq_ignore_ascii_case (trim c) needle) header"

text \<open>\<open>a.or_else(|| b)\<close>\<close>

definition or_else :: "'a option \<Rightarrow> 'a option \<Rightarrow> 'a option" where
  "or_else a b = (case a of None \<Rightarrow> b | Some x \<Rightarrow> Some x)"

definition column_mapping :: "import_source \<Rightarrow> string list \<Rightarrow> mapping_cols" where
  "column_mapping source header =
     (let f = find_column header in
      case source of
        Google \<Rightarrow> \<lparr>mp_name = f ''name'', mp_url = f ''url'', mp_username = f ''username'',
                   mp_password = f ''password'', mp_notes = f ''note''\<rparr>
      | Proton \<Rightarrow> \<lparr>mp_name = f ''name'', mp_url = f ''url'',
                   mp_username = or_else (f ''username'') (f ''email''),
                   mp_password = f ''password'', mp_notes = or_else (f ''note'') (f ''notes'')\<rparr>
      | OnePassword \<Rightarrow> \<lparr>mp_name = f ''title'', mp_url = f ''url'', mp_username = f ''username'',
                   mp_password = f ''password'', mp_notes = f ''notes''\<rparr>
      | Bitwarden \<Rightarrow> \<lparr>mp_name = f ''name'', mp_url = f ''login_uri'', mp_username = f ''login_username'',
                   mp_password = f ''login_password'', mp_notes = f ''notes''\<rparr>
      | AppleKeychain \<Rightarrow> \<lparr>mp_name = f ''title'', mp_url = f ''url'', mp_username = f ''username'',
                   mp_password = f ''password'', mp_notes = f ''notes''\<rparr>
      | Lastpass \<Rightarrow> \<lparr>mp_name = f ''name'', mp_url = f ''url'', mp_username = f ''username'',
                   mp_password = f ''password'', mp_notes = f ''extra''\<rparr>
      | Generic \<Rightarrow> \<lparr>mp_name = or_else (f ''name'') (f ''title''), mp_url = f ''url'',
                   mp_username = f ''username'', mp_password = f ''password'',
                   mp_notes = or_else (f ''notes'') (f ''note'')\<rparr>)"

section \<open>Records\<close>

record imported_record =
  ir_origin :: string
  ir_username :: string
  ir_password :: string
  ir_label :: string
  ir_notes :: string

text \<open>
  \<open>canonicalise_origin\<close> keeps the scheme and host as the URL parser gives them and drops the
  rest; a bare domain gets \<open>https://\<close>; anything else is kept.
\<close>

definition canonicalise_origin :: "'l libs_scheme \<Rightarrow> string \<Rightarrow> string" where
  "canonicalise_origin L raw0 =
     (let raw = trim raw0;
          fallback = (if contains ''.'' raw \<and> \<not> contains '' '' raw then ''https://'' @ raw else raw)
      in if raw = [] then []
         else case url_parse L raw of
                Inr u \<Rightarrow>
                  (case u_host_str u of
                     Some host \<Rightarrow> u_scheme u @ ''://'' @ host @
                       (case u_port u of None \<Rightarrow> [] | Some port \<Rightarrow> '':'' @ show_nat (unat port))
                   | None \<Rightarrow> fallback)
              | Inl _ \<Rightarrow> fallback)"

definition pick_field :: "string list \<Rightarrow> nat option \<Rightarrow> string" where
  "pick_field row idx =
     (case idx of None \<Rightarrow> [] | Some i \<Rightarrow> if i < length row then row ! i else [])"

definition build_record :: "'l libs_scheme \<Rightarrow> string list \<Rightarrow> mapping_cols \<Rightarrow> imported_record" where
  "build_record L row m =
     \<lparr>ir_origin = canonicalise_origin L (pick_field row (mp_url m)),
      ir_username = pick_field row (mp_username m), ir_password = pick_field row (mp_password m),
      ir_label = pick_field row (mp_name m), ir_notes = pick_field row (mp_notes m)\<rparr>"

section \<open>parse\<close>

datatype import_error = EmptyFile | NotUtf8 | UnrecognisedHeader | NoRows

definition strip_bom :: "bytes \<Rightarrow> bytes" where
  "strip_bom bs = (if take 3 bs = [0xEF, 0xBB, 0xBF] then drop 3 bs else bs)"

text \<open>The loop over the data rows: blank rows and rows without any secret are skipped.\<close>

definition usable_record :: "imported_record \<Rightarrow> bool" where
  "usable_record rec \<longleftrightarrow> \<not> (ir_password rec = [] \<and> ir_username rec = [])"

fun parse_loop :: "'l libs_scheme \<Rightarrow> mapping_cols \<Rightarrow> string list list \<Rightarrow> imported_record list" where
  "parse_loop L m [] = []"
| "parse_loop L m (row # rows) =
     (if list_all (\<lambda>s. s = []) row then parse_loop L m rows
      else let rec = build_record L row m in
           if usable_record rec then rec # parse_loop L m rows else parse_loop L m rows)"

definition parse_csv :: "'l libs_scheme \<Rightarrow> bytes \<Rightarrow> import_error + import_source \<times> imported_record list" where
  "parse_csv L bs =
     (if bs = [] then Inl EmptyFile
      else case from_utf8 (strip_bom bs) of
        None \<Rightarrow> Inl NotUtf8
      | Some text \<Rightarrow>
          (case csv_rows text of
             [] \<Rightarrow> Inl EmptyFile
           | header # rows \<Rightarrow>
               (case detect_source header of
                  None \<Rightarrow> Inl UnrecognisedHeader
                | Some source \<Rightarrow>
                    (let records = parse_loop L (column_mapping source header) rows in
                     if records = [] then Inl NoRows else Inr (source, records)))))"


section \<open>Reading back what was written\<close>

text \<open>RFC 4180 quoting: every field between quotes, quotes doubled, LF or CRLF at the end.\<close>

fun escape_field :: "string \<Rightarrow> string" where
  "escape_field [] = []"
| "escape_field (c # cs) = (if c = DQ then DQ # DQ # escape_field cs else c # escape_field cs)"

definition quote_field :: "string \<Rightarrow> string" where
  "quote_field f = DQ # escape_field f @ [DQ]"

fun write_fields :: "string list \<Rightarrow> string" where
  "write_fields [] = []"
| "write_fields [f] = quote_field f"
| "write_fields (f # g # fs) = quote_field f @ COMMA # write_fields (g # fs)"

definition write_row :: "bool \<Rightarrow> string list \<Rightarrow> string" where
  "write_row crlf row = write_fields row @ (if crlf then [CRET, LF] else [LF])"

definition no_quote_first :: "string \<Rightarrow> bool" where
  "no_quote_first s \<longleftrightarrow> take 1 s \<noteq> [DQ]"

lemma csv_chars_distinct [simp]:
  "COMMA \<noteq> DQ" "LF \<noteq> DQ" "CRET \<noteq> DQ" "DQ \<noteq> COMMA" "LF \<noteq> COMMA" "CRET \<noteq> COMMA" "CRET \<noteq> LF" "LF \<noteq> CRET"
  by (simp_all add: csv_chars)

lemma row_loop_escaped:
  "no_quote_first rest \<Longrightarrow>
   row_loop True True fs cur (escape_field f @ DQ # rest) = row_loop True False fs (cur @ f) rest"
proof (induction f arbitrary: cur)
  case Nil
  then show ?case by (cases rest) (auto simp: no_quote_first_def)
qed auto

lemma row_loop_quoted:
  "no_quote_first rest \<Longrightarrow>
   row_loop saw False fs [] (quote_field f @ rest) = row_loop True False fs f rest"
  by (simp add: quote_field_def row_loop_escaped)

lemma row_loop_fields:
  assumes "row \<noteq> []" and "no_quote_first rest"
    and "\<And>fs cur. row_loop True False fs cur rest = (Some (fs @ [cur]), rest')"
  shows "row_loop saw False fs [] (write_fields row @ rest) = (Some (fs @ row), rest')"
  using assms(1)
proof (induction row arbitrary: saw fs rule: write_fields.induct)
  case (2 f)
  then show ?case using assms(2,3) by (simp add: row_loop_quoted)
next
  case (3 f g gs)
  have "no_quote_first (COMMA # write_fields (g # gs) @ rest)" by (simp add: no_quote_first_def)
  then show ?case using "3.IH" [of True "fs @ [f]"] by (simp add: row_loop_quoted)
qed simp

lemma row_next_written:
  assumes "row \<noteq> []"
  shows "row_next (write_row crlf row @ rest) = (Some row, rest)"
  using row_loop_fields [of row "LF # rest" rest False "[]"] row_loop_fields [of row "CRET # LF # rest" rest False "[]"]
    assms by (cases crlf) (auto simp: write_row_def row_next_def no_quote_first_def)

lemma csv_rows_written:
  "list_all (\<lambda>(crlf, row). row \<noteq> []) rows \<Longrightarrow>
   csv_rows (concat (map (\<lambda>(crlf, row). write_row crlf row) rows)) = map snd rows"
proof (induction rows)
  case Nil
  then show ?case by (subst csv_rows.simps) (simp add: row_next_def)
next
  case (Cons r rows)
  obtain crlf row where r: "r = (crlf, row)" by force
  then show ?case
    using Cons row_next_written [of row crlf "concat (map (\<lambda>(crlf, row). write_row crlf row) rows)"]
    by (subst csv_rows.simps) simp
qed

section \<open>Columns\<close>

lemma lower_column_names:
  "to_ascii_lowercase n = n" if "n \<in> {''name'', ''url'', ''username'', ''password'', ''note'', ''notes'', ''email'', ''title'',
     ''login_uri'', ''login_username'', ''login_password'', ''extra'', ''grouping''}"
  using that by (elim insertE emptyE) (simp_all, code_simp+)

lemma find_column_has:
  assumes "to_ascii_lowercase needle = needle"
  shows "header_has header needle \<longleftrightarrow> (\<exists>i < length header. find_column header needle = Some i \<and>
           to_ascii_lowercase (trim (header ! i)) = needle)"
proof
  assume "header_has header needle"
  then have "find_column header needle \<noteq> None"
    using assms by (auto simp: header_has_def find_column_def position_None eq_ignore_ascii_case_def)
  then obtain i where i: "find_column header needle = Some i" by auto
  with position_Some [of "\<lambda>c. eq_ignore_ascii_case (trim c) needle" header i] assms
  show "\<exists>i < length header. find_column header needle = Some i \<and> to_ascii_lowercase (trim (header ! i)) = needle"
    by (auto simp: find_column_def eq_ignore_ascii_case_def)
qed (auto simp: header_has_def)


section \<open>Properties\<close>

text \<open>
  C38: quoted CSV reads back. A table written with every field quoted and quotes doubled, each row
  ended by LF or CRLF, is read back row by row and field by field, whatever the fields hold:
  commas, quotes, line breaks or nothing.
\<close>

theorem csv_round_trip:
  assumes "list_all (\<lambda>(crlf, row). row \<noteq> []) rows"
  shows "csv_rows (concat (map (\<lambda>(crlf, row). write_row crlf row) rows)) = map snd rows"
  using assms by (rule csv_rows_written)

lemma csv_round_trip_witness:
  "csv_rows (write_row True [''a,b'', [DQ, LF]] @ write_row False [[]]) = [[''a,b'', [DQ, LF]], [[]]]"
  using csv_round_trip [of "[(True, [''a,b'', [DQ, LF]]), (False, [[]])]"] by simp

text \<open>
  The columns of a detected source exist. Whenever a header is recognised, the mapping gives a
  column inside the header for the URL, the password and (but for Proton, which may have
  none) the user name, and each is the column whose trimmed name is, up to ASCII case, the
  name that source uses.
\<close>

lemma detected_columns_exist:
  assumes "detect_source header = Some source"
  shows "let m = column_mapping source header;
             named = (\<lambda>col n. \<exists>i < length header. col = Some i \<and> to_ascii_lowercase (trim (header ! i)) = n);
             login = (if source = Bitwarden then ''login_'' else [])
         in named (mp_url m) (if source = Bitwarden then ''login_uri'' else ''url'') \<and>
            named (mp_password m) (login @ ''password'') \<and>
            (source \<noteq> Proton \<longrightarrow> named (mp_username m) (login @ ''username''))"
proof -
  have n: "header_has header n \<longleftrightarrow> (\<exists>i < length header. find_column header n = Some i \<and>
           to_ascii_lowercase (trim (header ! i)) = n)"
    if "n \<in> {''url'', ''username'', ''password'', ''login_uri'', ''login_username'', ''login_password''}" for n
    by (rule find_column_has [OF lower_column_names]) (use that in auto)
  show ?thesis
    using assms n [of "''url''"] n [of "''username''"] n [of "''password''"]
      n [of "''login_uri''"] n [of "''login_username''"] n [of "''login_password''"]
    by (cases source) (auto simp: detect_source_def column_mapping_def Let_def split: if_splits)
qed

definition google_header :: "string list" where
  "google_header = [''name'', ''url'', ''username'', ''password'', ''note'']"

lemma detect_google: "detect_source google_header = Some Google"
  by code_simp

definition google_row :: "imported_record \<Rightarrow> string list" where
  "google_row r = [ir_label r, ir_origin r, ir_username r, ir_password r, ir_notes r]"

definition google_file :: "bool \<Rightarrow> imported_record list \<Rightarrow> string" where
  "google_file crlf rs = concat (map (write_row crlf) (google_header # map google_row rs))"

lemma google_mapping: "column_mapping Google google_header =
    \<lparr>mp_name = Some 0, mp_url = Some 1, mp_username = Some 2, mp_password = Some 3, mp_notes = Some 4\<rparr>"
  by code_simp

lemma parse_loop_google:
  "list_all usable_record rs \<Longrightarrow>
   parse_loop L (column_mapping Google google_header) (map google_row rs) =
     map (\<lambda>r. r\<lparr>ir_origin := canonicalise_origin L (ir_origin r)\<rparr>) rs"
proof (induction rs)
  case (Cons r rs)
  then show ?case
    by (cases r) (auto simp: google_mapping google_row_def build_record_def pick_field_def usable_record_def)
qed simp

text \<open>
  A password manager's export is imported entry by entry. A file with the Google header and
  one quoted row per entry yields, in order, one record for each entry with the entry's
  name, user name, password and note and its URL reduced to an origin, when every entry has
  a user name or a password.
\<close>

lemma google_export_is_imported:
  assumes "rs \<noteq> []" and "list_all usable_record rs" and "str_ok (google_file crlf rs)"
  shows "parse_csv L (as_bytes (google_file crlf rs)) =
     Inr (Google, map (\<lambda>r. r\<lparr>ir_origin := canonicalise_origin L (ir_origin r)\<rparr>) rs)"
proof -
  have "csv_rows (concat (map (\<lambda>(c, row). write_row c row) (map (Pair crlf) (google_header # map google_row rs)))) =
      map snd (map (Pair crlf) (google_header # map google_row rs))"
    by (rule csv_rows_written) (auto simp: list_all_iff google_header_def google_row_def)
  then have rows: "csv_rows (google_file crlf rs) = google_header # map google_row rs"
    by (simp add: google_file_def comp_def)
  obtain t where t: "google_file crlf rs = DQ # t"
    by (simp add: google_file_def google_header_def write_row_def quote_field_def)
  then have bom: "strip_bom (as_bytes (google_file crlf rs)) = as_bytes (google_file crlf rs)"
    by (cases t) (auto simp: strip_bom_def as_bytes_def byte_of_char_def DQ_def)
  have "as_bytes (google_file crlf rs) \<noteq> []" by (simp add: t as_bytes_def)
  with rows bom assms show ?thesis
    by (simp add: parse_csv_def from_utf8_as_bytes detect_google parse_loop_google Let_def)
qed

text \<open>A row and its file.\<close>

definition sample_row :: imported_record where
  "sample_row = \<lparr>ir_origin = ''https://a.b/x'', ir_username = ''u'', ir_password = ''p'', ir_label = [], ir_notes = []\<rparr>"

lemma sample_file:
  "list_all usable_record [sample_row]" "str_ok (google_file False [sample_row])"
  "length (google_file False [sample_row]) \<le> 100"
proof -
  have "list_all (\<lambda>b. b < 0x80) (as_bytes (google_file False [sample_row]))"
    by (simp add: google_file_def google_header_def google_row_def write_row_def quote_field_def csv_chars
        as_bytes_def byte_of_char_def sample_row_def)
  then show "str_ok (google_file False [sample_row])"
    by (simp add: str_ok_def utf8_valid_ascii list_all_iff)
  show "length (google_file False [sample_row]) \<le> 100"
    by (simp add: google_file_def google_header_def google_row_def write_row_def quote_field_def csv_chars sample_row_def)
qed (simp add: usable_record_def sample_row_def)

text \<open>
  Which source a documented header is taken for. Google's, Bitwarden's and LastPass's headers
  are recognised as such; the documented Apple Keychain header, which has a \<open>Notes\<close> column,
  is taken for 1Password, and the documented Proton header, which has \<open>username\<close> and \<open>note\<close>
  columns, for Google.
\<close>

lemma documented_headers:
  shows "detect_source [''name'', ''url'', ''username'', ''password'', ''note''] = Some Google \<and>
     detect_source [''folder'', ''favorite'', ''type'', ''name'', ''notes'', ''fields'', ''reprompt'', ''login_uri'',
        ''login_username'', ''login_password'', ''login_totp''] = Some Bitwarden \<and>
     detect_source [''url'', ''username'', ''password'', ''totp'', ''extra'', ''name'', ''grouping'', ''fav''] = Some Lastpass \<and>
     detect_source [''Title'', ''URL'', ''Username'', ''Password'', ''Notes'', ''OTPAuth''] = Some OnePassword \<and>
     detect_source [''name'', ''url'', ''email'', ''username'', ''password'', ''note''] = Some Google"
  by (intro conjI; code_simp)

end
