(* ===== verification/View.thy ===== *)
theory View
  imports Backup Bridge
begin

text \<open>
  The list on the screen (\<open>src/state.rs\<close>): the search filter, the rows built from records,
  and the refresh that fills the Slint model. Three functions of crates and of the Unicode
  tables are parameters: the text form of a \<open>Uuid\<close> and its parser, and
  \<open>str::to_lowercase\<close>.
\<close>

record app_libs = json_libs +
  uuid_to_string :: "uuid \<Rightarrow> string"
  uuid_parse_str :: "string \<Rightarrow> uuid option"
  str_to_lowercase :: "string \<Rightarrow> string"

text \<open>Parsing a printed identifier gives it back; lower case agrees with ASCII on ASCII text.\<close>

definition uuid_ok :: "'l app_libs_scheme \<Rightarrow> bool" where
  "uuid_ok L \<longleftrightarrow> (\<forall>i. uuid_parse_str L (uuid_to_string L i) = Some i)"

definition lower_ok :: "'l app_libs_scheme \<Rightarrow> bool" where
  "lower_ok L \<longleftrightarrow>
     (\<forall>s. list_all (\<lambda>c. (of_char c :: nat) < 128) s \<longrightarrow> str_to_lowercase L s = to_ascii_lowercase s)"

record stored_credential =
  sc_uuid :: string
  sc_label :: string
  sc_origin :: string
  sc_host :: string
  sc_username :: string
  sc_color :: int
  sc_archived :: bool
  sc_last_used :: string

definition matches_search :: "'l app_libs_scheme \<Rightarrow> credential_record \<Rightarrow> string \<Rightarrow> bool" where
  "matches_search L r q =
     (if q = [] then True
      else contains q (str_to_lowercase L (cr_label r)) \<or>
           contains q (str_to_lowercase L (cr_username r)) \<or>
           contains q (str_to_lowercase L (cr_origin r)))"

definition host_from_origin :: "string \<Rightarrow> string" where
  "host_from_origin origin =
     (case strip_prefix ''https://'' origin of
        Some h \<Rightarrow> h
      | None \<Rightarrow> (case strip_prefix ''http://'' origin of Some h \<Rightarrow> h | None \<Rightarrow> origin))"

text \<open>\<open>n unit\<close>s ago, or the given text when \<open>n\<close> is 1.\<close>

definition ago :: "nat \<Rightarrow> string \<Rightarrow> string \<Rightarrow> string" where
  "ago n single unit = (if n = 1 then single else show_nat n @ '' '' @ unit @ ''s ago'')"

definition elapsed_text :: "nat \<Rightarrow> string" where
  "elapsed_text elapsed =
     (if elapsed < 30 then ''Just now''
      else if elapsed < 60 then show_nat elapsed @ '' seconds ago''
      else if elapsed < 3600 then ago (elapsed div 60) ''1 minute ago'' ''minute''
      else if elapsed < 86400 then ago (elapsed div 3600) ''1 hour ago'' ''hour''
      else if elapsed < 604800 then ago (elapsed div 86400) ''Yesterday'' ''day''
      else if elapsed < 2592000 then ago (elapsed div 604800) ''1 week ago'' ''week''
      else ago (elapsed div 2592000) ''1 month ago'' ''month'')"

definition format_last_used :: "u64 \<Rightarrow> 'z world_scheme \<Rightarrow> string \<times> 'z world_scheme" where
  "format_last_used secs w =
     (if secs = 0 then ([], w)
      else case now_secs w of (now, w') \<Rightarrow> (elapsed_text (unat (saturating_sub now secs)), w'))"

definition record_to_view ::
  "'l app_libs_scheme \<Rightarrow> credential_record \<Rightarrow> 'z world_scheme \<Rightarrow> stored_credential \<times> 'z world_scheme"
where
  "record_to_view L r w =
     (case format_last_used (cr_last_used_at r) w of (last_used, w') \<Rightarrow>
        (\<lparr>sc_uuid = uuid_to_string L (cr_id r), sc_label = cr_label r, sc_origin = cr_origin r,
          sc_host = host_from_origin (cr_origin r), sc_username = cr_username r, sc_color = cr_color r,
          sc_archived = cr_archived r, sc_last_used = last_used\<rparr>, w'))"

text \<open>\<open>.map(record_to_view).collect()\<close>; every row that was used reads the clock.\<close>

fun collect_views ::
  "'l app_libs_scheme \<Rightarrow> credential_record list \<Rightarrow> 'z world_scheme \<Rightarrow> stored_credential list \<times> 'z world_scheme"
where
  "collect_views L [] w = ([], w)"
| "collect_views L (r # rs) w =
     (case record_to_view L r w of (v, w1) \<Rightarrow> (case collect_views L rs w1 of (vs, w2) \<Rightarrow> (v # vs, w2)))"

text \<open>The properties of the Slint globals \<open>Callbacks\<close> and \<open>Navigate\<close> that the code sets.\<close>

record ui_state =
  ui_archive_mode :: bool
  ui_credentials :: "stored_credential list"
  ui_live_count :: int
  ui_archived_count :: int
  ui_next_default_color :: int
  ui_editing_error_field :: string
  ui_editing_error :: string
  ui_import_error :: string
  ui_import_source :: string
  ui_import_count :: int
  ui_import_imported :: int
  ui_import_skipped :: int
  ui_import_replaced :: int
  ui_backup_error :: string
  ui_backup_success :: string
  ui_backup_restore_count :: int
  ui_backward_calls :: nat

definition ui_initial :: ui_state where
  "ui_initial =
     \<lparr>ui_archive_mode = False, ui_credentials = [], ui_live_count = 0, ui_archived_count = 0,
      ui_next_default_color = 0, ui_editing_error_field = [], ui_editing_error = [], ui_import_error = [],
      ui_import_source = [], ui_import_count = 0, ui_import_imported = 0, ui_import_skipped = 0,
      ui_import_replaced = 0, ui_backup_error = [], ui_backup_success = [], ui_backup_restore_count = 0,
      ui_backward_calls = 0\<rparr>"

definition visible_records :: "'l app_libs_scheme \<Rightarrow> bool \<Rightarrow> string \<Rightarrow> keystore \<Rightarrow> credential_record list" where
  "visible_records L archive_mode q ks =
     filter (\<lambda>r. cr_archived r = archive_mode \<and> matches_search L r q) (ks_records ks)"

definition refresh_credentials ::
  "'l app_libs_scheme \<Rightarrow> string \<Rightarrow> keystore \<Rightarrow> ui_state \<Rightarrow> 'z world_scheme \<Rightarrow> ui_state \<times> 'z world_scheme"
where
  "refresh_credentials L search ks ui w =
     (case collect_views L (visible_records L (ui_archive_mode ui) search ks) w of (rows, w') \<Rightarrow>
        (ui\<lparr>ui_credentials := rows,
            ui_live_count := to_i32 (int (live_count ks)),
            ui_archived_count := to_i32 (int (archived_count ks)),
            ui_next_default_color := next_automatic_color ks\<rparr>, w'))"

section \<open>Facts\<close>

lemma live_archived_total: "live_count ks + archived_count ks = length (ks_records ks)"
  using sum_length_filter_compl [of cr_archived "ks_records ks"]
  by (simp add: live_count_def archived_count_def add.commute)

lemma collect_views_uuids:
  "uuid_ok L \<Longrightarrow> collect_views L rs w = (vs, w') \<Longrightarrow>
   map (\<lambda>v. uuid_parse_str L (sc_uuid v)) vs = map (\<lambda>r. Some (cr_id r)) rs"
  by (induction rs arbitrary: w vs) (auto simp: record_to_view_def uuid_ok_def split: prod.splits)

lemma host_from_origin_strips:
  "host_from_origin (''https://'' @ h) = h" "host_from_origin (''http://'' @ h) = h"
proof -
  have "strip_prefix ''https://'' (''https://'' @ h) = Some h" by (simp only: strip_prefix_Some)
  then show "host_from_origin (''https://'' @ h) = h" by (simp only: host_from_origin_def option.case)
  have "strip_prefix ''https://'' (''http://'' @ h) = None"
    by (simp add: strip_prefix_def starts_with_def)
  moreover have "strip_prefix ''http://'' (''http://'' @ h) = Some h" by (simp only: strip_prefix_Some)
  ultimately show "host_from_origin (''http://'' @ h) = h" by (simp only: host_from_origin_def option.case)
qed

section \<open>Properties\<close>

text \<open>
  C40: the list shows exactly the records of the current side that match the search. After a
  refresh the rows are, in order, the records whose archived flag is the view's and whose
  label, user name or origin contains the query (all of them for an empty query); the two
  counters add up to the number of records, and every row leads back to its record.
\<close>

theorem refresh_shows_matching_records:
  assumes "uuid_ok L" and "length (ks_records ks) < 2 ^ 31"
  shows "let ui' = fst (refresh_credentials L q ks ui w) in
     map (\<lambda>v. uuid_parse_str L (sc_uuid v)) (ui_credentials ui') =
       map (\<lambda>r. Some (cr_id r)) (visible_records L (ui_archive_mode ui) q ks) \<and>
     set (visible_records L (ui_archive_mode ui) q ks) = {r \<in> set (ks_records ks).
       cr_archived r = ui_archive_mode ui \<and> (q = [] \<or>
         (\<exists>t \<in> {cr_label r, cr_username r, cr_origin r}. \<exists>a b. str_to_lowercase L t = a @ q @ b))} \<and>
     ui_live_count ui' + ui_archived_count ui' = int (length (ks_records ks))"
proof -
  have "live_count ks < 2 ^ 31" "archived_count ks < 2 ^ 31"
    using live_archived_total [of ks] assms(2) by linarith+
  then have "int (live_count ks) < 2 ^ 31" "int (archived_count ks) < 2 ^ 31" by simp_all
  then have "to_i32 (int (live_count ks)) + to_i32 (int (archived_count ks)) = int (length (ks_records ks))"
    using live_archived_total [of ks] by (simp add: to_i32_id)
  moreover have "matches_search L r q \<longleftrightarrow> (q = [] \<or>
      (\<exists>t \<in> {cr_label r, cr_username r, cr_origin r}. \<exists>a b. str_to_lowercase L t = a @ q @ b))" for r
    by (simp add: matches_search_def contains_iff)
  ultimately show ?thesis
    using collect_views_uuids [OF assms(1)]
    by (auto simp: refresh_credentials_def visible_records_def Let_def split: prod.splits)
qed

definition sample_app :: "credential_record list \<Rightarrow> app_libs" where
  "sample_app rs = json_libs.extend (sample_json rs)
     \<lparr>uuid_to_string = (\<lambda>i. map (\<lambda>k. if bit i k then CHR ''1'' else CHR ''0'') [0..<128]),
      uuid_parse_str = (\<lambda>s. Some (horner_sum of_bool 2 (map (\<lambda>c. c = CHR ''1'') s))),
      str_to_lowercase = to_ascii_lowercase\<rparr>"

lemma sample_app_uuid: "uuid_ok (sample_app rs)"
proof -
  have m: "map (\<lambda>c. c = CHR ''1'') (map (\<lambda>k. if bit i k then CHR ''1'' else CHR ''0'') [0..<128]) =
      map (bit i) [0..<128]" for i :: uuid by simp
  have "horner_sum of_bool 2 (map (bit i) [0..<128]) = i" for i :: uuid
    by (simp add: horner_sum_bit_eq_take_bit take_bit_word_eq_self)
  then show ?thesis by (simp only: uuid_ok_def sample_app_def json_libs.defs app_libs.simps m) simp
qed

lemma refresh_shows_matching_records_witness:
  "set (visible_records (sample_app []) False ''ann'' sample_keystore) = set (ks_records sample_keystore)"
proof -
  have l: "length (ks_records sample_keystore) < 2 ^ 31" by (simp add: sample_keystore_def)
  have a: "str_to_lowercase (sample_app []) ''ann'' = [] @ ''ann'' @ []"
    by (simp add: sample_app_def json_libs.defs) code_simp
  have m: "ui_archive_mode ui_initial = False" by (simp add: ui_initial_def)
  have eq: "set (visible_records (sample_app []) False ''ann'' sample_keystore) = {r \<in> set (ks_records sample_keystore).
       cr_archived r = False \<and> (''ann'' = [] \<or>
         (\<exists>t \<in> {cr_label r, cr_username r, cr_origin r}. \<exists>a b. str_to_lowercase (sample_app []) t = a @ ''ann'' @ b))}"
    using conjunct1 [OF conjunct2 [OF refresh_shows_matching_records [OF sample_app_uuid l,
      where w = sample_world and q = "''ann''" and ui = ui_initial, unfolded Let_def]]]
    unfolding m .
  have r: "cr_archived r = False \<and> cr_username r = ''ann''" if "r \<in> set (ks_records sample_keystore)" for r
    using that by (simp add: sample_keystore_def)
  have "\<exists>t \<in> {cr_label r, cr_username r, cr_origin r}. \<exists>a b. str_to_lowercase (sample_app []) t = a @ ''ann'' @ b"
    if "r \<in> set (ks_records sample_keystore)" for r
    using r [OF that] a by (intro bexI [of _ "cr_username r"] exI [of _ "[]"]) simp_all
  with r show ?thesis unfolding eq by blast
qed

end
