(* ===== verification/WorldFrame.thy ===== *)
theory WorldFrame
  imports View
begin

text \<open>
  What the program does to the outside world, proved once for every view of it. The locale
  \<open>world_steps\<close> takes a relation between worlds that is reflexive, transitive and holds across
  the two primitive readings (random bytes and the clock). Then it holds across every
  operation of the keystore, the session, the generator and the engine. Views: a field the
  program leaves alone, and "the random tape was read from the front".
\<close>

locale world_steps =
  fixes R :: "'z world_scheme \<Rightarrow> 'z world_scheme \<Rightarrow> bool"
  assumes refl: "R w w"
    and trans: "R w1 w2 \<Longrightarrow> R w2 w3 \<Longrightarrow> R w1 w3"
    and fill: "fill_bytes n w = (bs, w') \<Longrightarrow> R w w'"
    and clock: "now_secs w = (t, w') \<Longrightarrow> R w w'"
begin

lemma uuid_new: "uuid_new_v4 L w = (i, w') \<Longrightarrow> R w w'"
  by (auto simp: uuid_new_v4_def split: prod.splits intro: fill)

lemma record_new: "credential_record_new L ori user pw w = (r, w') \<Longrightarrow> R w w'"
  by (auto simp: credential_record_new_def split: prod.splits intro: trans clock uuid_new)

lemma viewing: "collect_views L rs w = (vs, w') \<Longrightarrow> R w w'"
proof (induction rs arbitrary: w vs)
  case (Cons r rs)
  then obtain v w1 us where "record_to_view L r w = (v, w1)" "collect_views L rs w1 = (us, w')"
    by (auto split: prod.splits)
  moreover from this(1) have "R w w1"
    by (auto simp: record_to_view_def format_last_used_def split: prod.splits if_splits intro: refl clock)
  ultimately show ?case using Cons.IH trans by blast
qed (simp add: refl)

lemma refreshing: "refresh_credentials L q ks ui w = (ui', w') \<Longrightarrow> R w w'"
  by (auto simp: refresh_credentials_def split: prod.splits dest: viewing)

lemma upsert: "ks_upsert L c u p l ks w = (r, ks', w') \<Longrightarrow> R w w'"
  by (auto simp: ks_upsert_def Let_def split: prod.splits if_splits intro: trans clock record_new)

lemma importing: "import_loop L policy items ks t w = (ks', t', w') \<Longrightarrow> R w w'"
proof (induction items arbitrary: ks t w)
  case (Cons item items)
  obtain ks1 t1 w1 where one: "import_one L policy item ks t w = (ks1, t1, w1)" using prod_cases3 by blast
  then have "R w w1"
    by (auto simp: import_one_def import_insert_def split: prod.splits option.splits import_policy.splits
        intro: refl record_new)
  moreover have "R w1 w'" using Cons one by simp
  ultimately show ?case by (rule trans)
qed (simp add: refl)

lemma fresh: "fresh_id L rs w = Some (i, w') \<Longrightarrow> R w w'"
proof -
  have "R w (snd r)" if "fresh_id L rs w = Some r" for r
    by (rule fresh_id.raw_induct [where P = "\<lambda>L rs w r. R w (snd r)", OF _ that])
      (auto split: prod.splits if_splits intro: trans uuid_new)
  then show "fresh_id L rs w = Some (i, w') \<Longrightarrow> ?thesis" by fastforce
qed

lemma restoring: "restore_loop L policy rs ks t w = Some (ks', t', w') \<Longrightarrow> R w w'"
proof (induction rs arbitrary: ks t w)
  case (Cons r rs)
  then obtain ks1 t1 w1 where one: "restore_one L policy r ks t w = Some (ks1, t1, w1)"
    and rest: "restore_loop L policy rs ks1 t1 w1 = Some (ks', t', w')"
    by (auto simp: bind_eq_Some_conv)
  have "R w w1"
    using one by (auto simp: restore_one_def unique_record_id_def split: option.splits import_policy.splits if_splits
        intro: refl fresh)
  then show ?case using Cons.IH [OF rest] by (rule trans)
qed (simp add: refl)

lemma sealing: "seal_blob L k p w = (r, w') \<Longrightarrow> R w w'"
  by (auto simp: seal_blob_def split: prod.splits option.splits intro: fill)

lemma keystore_sealing: "keystore_seal L ks w = (r, w') \<Longrightarrow> R w w'"
  by (auto simp: keystore_seal_def split: sum.splits intro: refl sealing)

lemma exporting: "export_backup L pass ks w = (r, w') \<Longrightarrow> R w w'"
  by (auto simp: export_backup_def Let_def split: prod.splits sum.splits if_splits intro: refl fill trans sealing)

lemma session_seal: "seal L p t s w = (r, s', w') \<Longrightarrow> R w w'"
  by (auto simp: seal_def split: prod.splits option.splits if_splits intro: refl fill)

lemma password_seal: "seal_password L pw now en w = (r, en', w') \<Longrightarrow> R w w'"
  by (auto simp: seal_password_def split: prod.splits sum.splits intro: session_seal)

lemma accepting: "accept L h info now s w = (r, s', w') \<Longrightarrow> R w w'"
  by (auto simp: accept_def Let_def split: prod.splits sum.splits if_splits intro: refl fill)

lemma dispatching: "dispatch L ops m now en w = (out, en', w') \<Longrightarrow> R w w'"
  by (cases m) (auto split: sum.splits prod.splits intro: refl accepting)

lemma picking: "pick_byte a w = Some (b, w') \<Longrightarrow> R w w'"
proof -
  have "R w (snd r)" if "pick_byte a w = Some r" for r
    by (rule pick_byte.raw_induct [where P = "\<lambda>a w r. R w (snd r)", OF _ that])
      (auto split: prod.splits if_splits intro: trans fill)
  then show "pick_byte a w = Some (b, w') \<Longrightarrow> ?thesis" by fastforce
qed

lemma indexing: "random_index n w = Some (b, w') \<Longrightarrow> R w w'"
proof -
  have "R w (snd r)" if "random_index n w = Some r" for r
    by (rule random_index.raw_induct [where P = "\<lambda>n w r. R w (snd r)", OF _ that])
      (auto split: prod.splits if_splits intro: trans fill)
  then show "random_index n w = Some (b, w') \<Longrightarrow> ?thesis" by fastforce
qed

lemma picks: "pick_each as w = Some (bs, w') \<Longrightarrow> R w w'"
  by (induction as arbitrary: w bs) (auto simp: bind_eq_Some_conv intro: refl trans picking)

lemma shuffles: "shuffle_loop i bs w = Some (bs', w') \<Longrightarrow> R w w'"
proof (induction i arbitrary: w bs)
  case (Suc i)
  then obtain j w1 where "random_index (Suc i + 1) w = Some (j, w1)"
    "shuffle_loop i (swap_at bs (Suc i) j) w1 = Some (bs', w')" by (auto simp: bind_eq_Some_conv)
  then show ?case using Suc.IH by (auto intro: trans indexing)
qed (simp add: refl)

lemma generating: "generate_password n h w = Some (pw, w') \<Longrightarrow> R w w'"
proof -
  assume g: "generate_password n h w = Some (pw, w')"
  show ?thesis
  proof (cases "n = 0 \<or> charset_alphabet h = []")
    case True
    then show ?thesis using g by (auto simp: generate_password_def refl)
  next
    case False
    then obtain bs w1 more w2 cs where "pick_each (take n (charset_classes h)) w = Some (bs, w1)"
      "pick_each (replicate (n - length bs) (charset_alphabet h)) w1 = Some (more, w2)"
      "shuffle (bs @ more) w2 = Some (cs, w')"
      using g by (auto simp: generate_password_def Let_def bind_eq_Some_conv)
    moreover from this(3) have "R w2 w'"
      by (auto simp: shuffle_def split: if_splits intro: refl shuffles)
    ultimately show ?thesis by (blast intro: trans picks)
  qed
qed

lemma committing:
  assumes hook: "\<And>ks v b v'. hook ks v = (b, v') \<Longrightarrow> R v v'"
    and c: "commit_store_mutation (keystore_ops L) hook (upsert_mutation (keystore_ops L) ori u p l) en w = (r, en', w')"
  shows "R w w'"
proof -
  obtain x ks w1 where u: "ks_upsert L ori u p l (en_store en) w = (x, ks, w1)" using prod_cases3 by blast
  have x: "x = Inr ()" using u by (cases rule: ks_upsert_cases)
  obtain ok w2 where h: "hook ks w1 = (ok, w2)" by force
  have "w' = w2" using c u x h
    by (cases ok) (auto simp: commit_store_mutation_def upsert_mutation_def keystore_ops_def Let_def)
  with upsert [OF u] hook [OF h] show ?thesis by (auto intro: trans)
qed

lemma resuming:
  assumes hook: "\<And>ks v b v'. hook ks v = (b, v') \<Longrightarrow> R v v'"
    and r: "resume L (keystore_ops L) hook k d en w = Some (x, en', w')"
  shows "R w w'"
proof (cases "d = Approve")
  case False
  then show ?thesis using r by (simp add: resume_denied refl)
next
  case True
  then have a: "resume_approved L (keystore_ops L) hook k en w = Some (x, en', w')"
    using r by (simp add: resume_def)
  show ?thesis
  proof (cases k)
    case (AfterRelease u p t)
    then show ?thesis using a by (auto split: prod.splits sum.splits intro: password_seal)
  next
    case (AfterStore c u l p act)
    then show ?thesis using a by (auto split: prod.splits sum.splits intro: committing [OF hook])
  next
    case (AfterGenerate c u l len cs act t)
    then obtain p w0 r1 en1 w1 where g: "generate_password len cs w = Some (p, w0)"
      and cm: "commit_store_mutation (keystore_ops L) hook (upsert_mutation (keystore_ops L) c u p l) en w0 = (r1, en1, w1)"
      and st: "w' = w1 \<or> (\<exists>r2 en2. seal_password L p t en1 w1 = (r2, en2, w'))"
      using a by (auto split: prod.splits sum.splits option.splits)
    have "R w1 w'" using st refl password_seal by blast
    moreover have "R w0 w1" by (rule committing [OF _ cm]) (rule hook)
    ultimately show ?thesis using generating [OF g] trans by blast
  qed
qed

lemma handling:
  assumes "\<And>ks v b v'. hook ks v = (b, v') \<Longrightarrow> R v v'"
    and "handle L (keystore_ops L) hook decide req now en w = Some (resp, en', w')"
  shows "R w w'"
proof -
  obtain out en1 w1 where d: "dispatch L (keystore_ops L) (rq_method req) now en w = (out, en1, w1)"
    using prod_cases3 by blast
  have "R w1 w'"
  proof (cases out)
    case (Ask ar k)
    then obtain x where "resume L (keystore_ops L) hook k (decide ar) en1 w1 = Some (x, en', w')"
      using assms(2) d by (auto simp: handle_def)
    then show ?thesis by (rule resuming [rotated]) (rule assms(1))
  qed (use assms(2) d in \<open>auto simp: handle_def refl\<close>)
  with dispatching [OF d] show ?thesis by (rule trans)
qed

end

text \<open>The random tape is only ever read from the front.\<close>

interpretation tape: world_steps "\<lambda>w w'. \<exists>n. w_rng w' = sdrop n (w_rng w)"
proof unfold_locales
  show "\<exists>n. w_rng w = sdrop n (w_rng w)" for w :: "'a world_scheme"
    by (rule exI [of _ 0]) simp
next
  fix w1 w2 w3 :: "'a world_scheme"
  assume "\<exists>n. w_rng w2 = sdrop n (w_rng w1)" and "\<exists>n. w_rng w3 = sdrop n (w_rng w2)"
  then show "\<exists>n. w_rng w3 = sdrop n (w_rng w1)" by (auto simp: sdrop_add)
next
  show "fill_bytes n w = (bs, w') \<Longrightarrow> \<exists>n. w_rng w' = sdrop n (w_rng w)" for n bs and w w' :: "'a world_scheme"
    by (auto simp: fill_bytes_def)
next
  show "now_secs w = (t, w') \<Longrightarrow> \<exists>n. w_rng w' = sdrop n (w_rng w)" for t and w w' :: "'a world_scheme"
    by (auto simp: now_secs_def Let_def intro!: exI [of _ 0])
qed

end
