(* ===== verification/App.thy ===== *)
theory App
  imports View CsvImport WorldFrame
begin

text \<open>
  The app around the keystore: persistence (\<open>src/persist.rs\<close>), the callbacks that
  \<open>app_main\<close> registers (\<open>src/main.rs\<close>), and the import and backup flows
  (\<open>src/import_flow.rs\<close>, \<open>src/backup_flow.rs\<close>). The disk is part of the world: the blob that
  is stored, and a stream that says which write attempts succeed. A write that fails leaves
  the blob as it was (it goes to a temporary file that is renamed at the end).
\<close>

section \<open>Persistence\<close>

record disk_world = world +
  dw_disk :: "bytes option"
  dw_writes :: "bool stream"

definition store_write :: "bytes \<Rightarrow> 'z disk_world_scheme \<Rightarrow> bool \<times> 'z disk_world_scheme" where
  "store_write blob w =
     (let ok = shd (dw_writes w); w1 = w\<lparr>dw_writes := stl (dw_writes w)\<rparr> in
      (ok, if ok then w1\<lparr>dw_disk := Some blob\<rparr> else w1))"

definition persist_keystore ::
  "'l json_libs_scheme \<Rightarrow> keystore \<Rightarrow> 'z disk_world_scheme \<Rightarrow> bool \<times> 'z disk_world_scheme"
where
  "persist_keystore L ks w =
     (case keystore_seal L ks w of
        (Inl _, w1) \<Rightarrow> (False, w1)
      | (Inr blob, w1) \<Rightarrow> store_write blob w1)"

text \<open>\<open>load_keystore\<close> on the device, where no blob and an empty one are the same.\<close>

definition load_keystore :: "'l json_libs_scheme \<Rightarrow> bytes \<Rightarrow> bytes option \<Rightarrow> keystore_error + keystore" where
  "load_keystore L master disk =
     (let bs = (case disk of None \<Rightarrow> [] | Some b \<Rightarrow> b) in
      if bs = [] then Inr (keystore_new L master) else keystore_open L master bs)"

section \<open>State\<close>

record app =
  ap_keystore :: keystore
  ap_search :: string
  ap_pending_import :: "import_item list option"
  ap_pending_restore :: "credential_record list option"
  ap_ui :: ui_state

definition update_ui :: "(ui_state \<Rightarrow> ui_state) \<Rightarrow> app \<Rightarrow> app" where
  "update_ui f a = a\<lparr>ap_ui := f (ap_ui a)\<rparr>"

definition app_refresh :: "'l app_libs_scheme \<Rightarrow> app \<Rightarrow> 'z disk_world_scheme \<Rightarrow> app \<times> 'z disk_world_scheme" where
  "app_refresh L a w =
     (case refresh_credentials L (ap_search a) (ap_keystore a) (ap_ui a) w of (ui, w') \<Rightarrow> (a\<lparr>ap_ui := ui\<rparr>, w'))"

definition set_editing_error :: "string \<Rightarrow> string \<Rightarrow> app \<Rightarrow> app" where
  "set_editing_error field msg =
     update_ui (\<lambda>u. u\<lparr>ui_editing_error_field := field, ui_editing_error := msg\<rparr>)"

definition clear_editing_error :: "app \<Rightarrow> app" where
  "clear_editing_error = update_ui (\<lambda>u. u\<lparr>ui_editing_error_field := [], ui_editing_error := []\<rparr>)"

definition invoke_backward :: "app \<Rightarrow> app" where
  "invoke_backward = update_ui (\<lambda>u. u\<lparr>ui_backward_calls := ui_backward_calls u + 1\<rparr>)"

text \<open>
  The pattern of every callback that writes: persist the changed keystore, or put the
  snapshot back.
\<close>

definition persist_or_restore ::
  "'l json_libs_scheme \<Rightarrow> credential_record list \<Rightarrow> keystore \<Rightarrow> app \<Rightarrow> 'z disk_world_scheme \<Rightarrow>
   bool \<times> app \<times> 'z disk_world_scheme"
where
  "persist_or_restore L snapshot ks a w =
     (case persist_keystore L ks w of
        (True, w') \<Rightarrow> (True, a\<lparr>ap_keystore := ks\<rparr>, w')
      | (False, w') \<Rightarrow> (False, a\<lparr>ap_keystore := ks_restore_snapshot snapshot ks\<rparr>, w'))"

section \<open>Validators\<close>

fun origin_error_text :: "origin_error \<Rightarrow> string" where
  "origin_error_text (InvalidUrl e) = ''invalid url: '' @ e"
| "origin_error_text (UnsupportedScheme s) = ''scheme must be http or https, got '' @ s"
| "origin_error_text MissingHost = ''url is missing a host''"
| "origin_error_text UserInfoNotAllowed = ''url contains userinfo, which is forbidden''"

text \<open>\<open>FieldError\<close>: the field and the message.\<close>

type_synonym field_error = "string \<times> string"

definition validate_edit_fields :: "string \<Rightarrow> string \<Rightarrow> string \<Rightarrow> field_error + unit" where
  "validate_edit_fields label username password =
     (if length label > MAX_LABEL_BYTES then Inl (''label'', ''Label is too long.'')
      else if trim username = [] then Inl (''username'', ''Username is required.'')
      else if length username > MAX_USERNAME_BYTES then Inl (''username'', ''Username is too long.'')
      else if length password > MAX_PASSWORD_BYTES then Inl (''password'', ''Password is too long.'')
      else Inr ())"

definition validate_new_fields ::
  "'l libs_scheme \<Rightarrow> string \<Rightarrow> string \<Rightarrow> string \<Rightarrow> string \<Rightarrow> field_error + unit"
where
  "validate_new_fields L origin username password label =
     (if trim origin = [] then Inl (''website'', ''Website is required.'')
      else if length origin > MAX_ORIGIN_BYTES then Inl (''website'', ''Website is too long.'')
      else case origin_parse L origin of
             Inl e \<Rightarrow> Inl (''website'', origin_error_text e)
           | Inr _ \<Rightarrow>
               (case validate_edit_fields label username password of
                  Inl e \<Rightarrow> Inl e
                | Inr _ \<Rightarrow>
                    (if password = [] then Inl (''password'', ''Password is required.'') else Inr ())))"

definition on_validate_origin :: "'l libs_scheme \<Rightarrow> string \<Rightarrow> string" where
  "on_validate_origin L s =
     (if length s > MAX_ORIGIN_BYTES then ''Origin too long''
      else case origin_parse L s of Inr _ \<Rightarrow> [] | Inl e \<Rightarrow> origin_error_text e)"

definition on_validate_label :: "string \<Rightarrow> string" where
  "on_validate_label s = (if length s > MAX_LABEL_BYTES then ''Label too long'' else [])"

section \<open>Callbacks on single credentials\<close>

definition on_search_changed ::
  "'l app_libs_scheme \<Rightarrow> string \<Rightarrow> app \<Rightarrow> 'z disk_world_scheme \<Rightarrow> app \<times> 'z disk_world_scheme"
where
  "on_search_changed L q a w = app_refresh L (a\<lparr>ap_search := str_to_lowercase L q\<rparr>) w"

definition on_save_new ::
  "'l app_libs_scheme \<Rightarrow> string \<Rightarrow> string \<Rightarrow> string \<Rightarrow> string \<Rightarrow> int \<Rightarrow> app \<Rightarrow> 'z disk_world_scheme \<Rightarrow>
   app \<times> 'z disk_world_scheme"
where
  "on_save_new L origin username password label color a w =
     (case validate_new_fields L origin username password label of
        Inl (field, msg) \<Rightarrow> (set_editing_error field msg a, w)
      | Inr _ \<Rightarrow>
     (case origin_parse L origin of
        Inl e \<Rightarrow> (set_editing_error ''website'' (origin_error_text e) a, w)
      | Inr o' \<Rightarrow>
     (case credential_record_new L (as_str o') username password w of (rec, w1) \<Rightarrow>
        let rec' = rec\<lparr>cr_label := label, cr_color := color\<rparr>;
            snapshot = ks_snapshot (ap_keystore a)
        in case persist_or_restore L snapshot (ks_add rec' (ap_keystore a)) a w1 of
             (False, a1, w2) \<Rightarrow>
               (set_editing_error ''form'' ''Could not save password. Try again.'' a1, w2)
           | (True, a1, w2) \<Rightarrow>
               (case app_refresh L a1 w2 of (a2, w3) \<Rightarrow>
                  (invoke_backward (clear_editing_error a2), w3)))))"

definition on_edit_save ::
  "'l app_libs_scheme \<Rightarrow> string \<Rightarrow> string \<Rightarrow> int \<Rightarrow> string \<Rightarrow> string \<Rightarrow> app \<Rightarrow> 'z disk_world_scheme \<Rightarrow>
   app \<times> 'z disk_world_scheme"
where
  "on_edit_save L uuid label color username password a w =
     (case uuid_parse_str L uuid of
        None \<Rightarrow> (a, w)
      | Some i \<Rightarrow>
     (case validate_edit_fields label username password of
        Inl (field, msg) \<Rightarrow> (set_editing_error field msg a, w)
      | Inr _ \<Rightarrow>
     (let snapshot = ks_snapshot (ap_keystore a);
          new_password =
            (if password = [] then (case ks_get i (ap_keystore a) of None \<Rightarrow> [] | Some r \<Rightarrow> cr_password r)
             else password)
      in case ks_edit i label color username new_password (ap_keystore a) of
           (Inl _, ks) \<Rightarrow> (a\<lparr>ap_keystore := ks\<rparr>, w)
         | (Inr _, ks) \<Rightarrow>
             (case persist_or_restore L snapshot ks a w of
                (False, a1, w1) \<Rightarrow>
                  (set_editing_error ''form'' ''Could not save changes. Try again.'' a1, w1)
              | (True, a1, w1) \<Rightarrow>
                  (case app_refresh L a1 w1 of (a2, w2) \<Rightarrow>
                     (invoke_backward (clear_editing_error a2), w2))))))"

text \<open>\<open>on_archive\<close> and \<open>on_restore\<close>; the result of \<open>set_archived\<close> is dropped (\<open>let _\<close>).\<close>

definition on_set_archived ::
  "'l app_libs_scheme \<Rightarrow> bool \<Rightarrow> string \<Rightarrow> app \<Rightarrow> 'z disk_world_scheme \<Rightarrow> app \<times> 'z disk_world_scheme"
where
  "on_set_archived L archived uuid a w =
     (case uuid_parse_str L uuid of
        None \<Rightarrow> (a, w)
      | Some i \<Rightarrow>
          (case persist_or_restore L (ks_snapshot (ap_keystore a))
                  (snd (ks_set_archived i archived (ap_keystore a))) a w of
             (False, a1, w1) \<Rightarrow> (a1, w1)
           | (True, a1, w1) \<Rightarrow> app_refresh L a1 w1))"

text \<open>\<open>on_delete_forever\<close> and \<open>on_change_color\<close>: an operation that can fail, then the pattern.\<close>

definition commit_result ::
  "'l app_libs_scheme \<Rightarrow> (keystore_error + unit) \<times> keystore \<Rightarrow> app \<Rightarrow> 'z disk_world_scheme \<Rightarrow>
   app \<times> 'z disk_world_scheme"
where
  "commit_result L r a w =
     (case r of
        (Inl _, ks) \<Rightarrow> (a\<lparr>ap_keystore := ks\<rparr>, w)
      | (Inr _, ks) \<Rightarrow>
          (case persist_or_restore L (ks_snapshot (ap_keystore a)) ks a w of
             (False, a1, w1) \<Rightarrow> (a1, w1)
           | (True, a1, w1) \<Rightarrow> app_refresh L a1 w1))"

definition on_delete_forever ::
  "'l app_libs_scheme \<Rightarrow> string \<Rightarrow> app \<Rightarrow> 'z disk_world_scheme \<Rightarrow> app \<times> 'z disk_world_scheme"
where
  "on_delete_forever L uuid a w =
     (case uuid_parse_str L uuid of
        None \<Rightarrow> (a, w)
      | Some i \<Rightarrow> commit_result L (ks_delete_forever i (ap_keystore a)) a w)"

definition on_change_color ::
  "'l app_libs_scheme \<Rightarrow> string \<Rightarrow> int \<Rightarrow> app \<Rightarrow> 'z disk_world_scheme \<Rightarrow> app \<times> 'z disk_world_scheme"
where
  "on_change_color L uuid color a w =
     (case uuid_parse_str L uuid of
        None \<Rightarrow> (a, w)
      | Some i \<Rightarrow> commit_result L (ks_set_color i color (ap_keystore a)) a w)"

definition on_reveal_password :: "'l app_libs_scheme \<Rightarrow> string \<Rightarrow> app \<Rightarrow> string" where
  "on_reveal_password L uuid a =
     (case uuid_parse_str L uuid of
        None \<Rightarrow> []
      | Some i \<Rightarrow> (case ks_get i (ap_keystore a) of None \<Rightarrow> [] | Some r \<Rightarrow> cr_password r))"

definition on_generate_strong :: "'z world_scheme \<Rightarrow> (string \<times> 'z world_scheme) option" where
  "on_generate_strong w = generate_password 24 charset_hint_default w"


section \<open>Import flow\<close>

definition MAX_NOTES_BYTES :: nat where "MAX_NOTES_BYTES = 2048"

text \<open>What the file picker and the file system gave.\<close>

datatype picked = PickerFailed | PickerCancelled | NothingPicked | ReadFailed | FileBytes bytes

definition set_import_error :: "string \<Rightarrow> app \<Rightarrow> app" where
  "set_import_error msg = update_ui (\<lambda>u. u\<lparr>ui_import_error := msg\<rparr>)"

text \<open>The closure of \<open>filter_map\<close>: \<open>None\<close> counts as an invalid row.\<close>

definition import_item_of :: "'l libs_scheme \<Rightarrow> imported_record \<Rightarrow> import_item option" where
  "import_item_of L r =
     (case origin_parse L (ir_origin r) of
        Inl _ \<Rightarrow> None
      | Inr o' \<Rightarrow>
          (let ori = as_str o'; username = trim (ir_username r) in
           if username = [] \<or> ir_password r = [] \<or> length ori > MAX_ORIGIN_BYTES \<or>
              length username > MAX_USERNAME_BYTES \<or> length (ir_label r) > MAX_LABEL_BYTES \<or>
              length (ir_password r) > MAX_PASSWORD_BYTES \<or> length (ir_notes r) > MAX_NOTES_BYTES
           then None
           else Some \<lparr>ii_origin = ori, ii_username = username, ii_password = ir_password r,
                      ii_label = ir_label r, ii_notes = ir_notes r\<rparr>))"

definition pick_and_parse :: "'l libs_scheme \<Rightarrow> picked \<Rightarrow> app \<Rightarrow> app" where
  "pick_and_parse L file a =
     (case file of
        PickerCancelled \<Rightarrow> a
      | PickerFailed \<Rightarrow> set_import_error ''File picker failed. Try again.'' a
      | NothingPicked \<Rightarrow> a
      | ReadFailed \<Rightarrow> set_import_error ''Could not read the selected file.'' a
      | FileBytes bs \<Rightarrow>
          (if length bs > 4 * 1024 * 1024 then set_import_error ''File is too large (4 MB max).'' a
           else case parse_csv L bs of
             Inl UnrecognisedHeader \<Rightarrow>
               set_import_error ''Header row not recognised. Export from Google, Proton, 1Password, Bitwarden, Apple, or LastPass.'' a
           | Inl _ \<Rightarrow> set_import_error ''Could not parse the file.'' a
           | Inr (source, records) \<Rightarrow>
               (let label = (if source = Generic then [] else source_label source);
                    count = length records;
                    items = List.map_filter (import_item_of L) records;
                    skipped_invalid = length (filter (\<lambda>r. import_item_of L r = None) records)
                in if items = [] then set_import_error ''No usable passwords found in the selected file.'' a
                   else update_ui (\<lambda>u. u\<lparr>ui_import_source := label,
                          ui_import_count := to_i32 (int (count - skipped_invalid)), ui_import_error := []\<rparr>)
                          (a\<lparr>ap_pending_import := Some items\<rparr>))))"

definition policy_from_int :: "int \<Rightarrow> import_policy" where
  "policy_from_int p = (if p = 1 then Replace else if p = 2 then KeepBoth else Skip)"

definition on_import_confirm ::
  "'l app_libs_scheme \<Rightarrow> int \<Rightarrow> app \<Rightarrow> 'z disk_world_scheme \<Rightarrow> app \<times> 'z disk_world_scheme"
where
  "on_import_confirm L p a w =
     (case ap_pending_import a of
        None \<Rightarrow> (a, w)
      | Some items \<Rightarrow>
     (let a0 = a\<lparr>ap_pending_import := None\<rparr>;
          finish = (\<lambda>a1 w1 t. case app_refresh L a1 w1 of (a2, w2) \<Rightarrow>
            (update_ui (\<lambda>u. u\<lparr>ui_import_imported := to_i32 (int (is_imported t)),
               ui_import_skipped := to_i32 (int (is_skipped t)),
               ui_import_replaced := to_i32 (int (is_replaced t)), ui_import_count := 0\<rparr>) a2, w2))
      in case import_many L items (policy_from_int p) (ap_keystore a) w of (ks, t, w1) \<Rightarrow>
           if is_imported t > 0 \<or> is_replaced t > 0
           then (case persist_or_restore L (ks_snapshot (ap_keystore a)) ks a0 w1 of
                   (False, a1, w2) \<Rightarrow> (set_import_error ''Import could not be saved. Try again.'' a1, w2)
                 | (True, a1, w2) \<Rightarrow> finish a1 w2 t)
           else finish (a0\<lparr>ap_keystore := ks\<rparr>) w1 t))"

definition import_cancel :: "app \<Rightarrow> app" where
  "import_cancel a = a\<lparr>ap_pending_import := None\<rparr>"

section \<open>Backup flow\<close>

definition MAX_BACKUP_BYTES :: nat where "MAX_BACKUP_BYTES = 4 * 1024 * 1024"

definition BACKUP_FILE_NAME :: string where "BACKUP_FILE_NAME = ''passport-passwords-backup.vbpw''"

definition backup_set_error :: "string \<Rightarrow> app \<Rightarrow> app" where
  "backup_set_error msg =
     update_ui (\<lambda>u. u\<lparr>ui_backup_error := msg, ui_backup_success := [], ui_backup_restore_count := 0\<rparr>)"

definition backup_set_success :: "string \<Rightarrow> app \<Rightarrow> app" where
  "backup_set_success msg =
     update_ui (\<lambda>u. u\<lparr>ui_backup_success := msg, ui_backup_error := [], ui_backup_restore_count := 0\<rparr>)"

definition join_dir :: "string \<Rightarrow> string \<Rightarrow> string" where
  "join_dir dir0 file =
     (let dir = trim_end_matches CHR ''/'' dir0 in
      if dir = [] then file else if dir = ''/'' then CHR ''/'' # file else dir @ ''/'' @ file)"

text \<open>Where the user wants the backup, and whether the file could be written there.\<close>

datatype backup_target = TargetFailed | TargetCancelled | Target string bool

text \<open>The last component is the file written, if any: its path and bytes.\<close>

definition export_encrypted_backup ::
  "'l json_libs_scheme \<Rightarrow> bytes \<Rightarrow> backup_target \<Rightarrow> app \<Rightarrow> 'z disk_world_scheme \<Rightarrow>
   app \<times> 'z disk_world_scheme \<times> (string \<times> bytes) option"
where
  "export_encrypted_backup L passphrase target a w =
     (if length passphrase < 12
      then (backup_set_error ''Use a backup passphrase of at least 12 characters.'' a, w, None)
      else case export_backup L passphrase (ap_keystore a) w of
        (Inl _, w1) \<Rightarrow> (backup_set_error ''Could not create encrypted backup.'' a, w1, None)
      | (Inr backup, w1) \<Rightarrow>
          (case target of
             TargetCancelled \<Rightarrow> (a, w1, None)
           | TargetFailed \<Rightarrow> (backup_set_error ''Could not choose a backup destination.'' a, w1, None)
           | Target dir written \<Rightarrow>
               (let path = join_dir dir BACKUP_FILE_NAME in
                if \<not> written then (backup_set_error ''Could not write the backup file.'' a, w1, None)
                else (backup_set_success
                        (''Encrypted backup saved to '' @ path @ ''. Keep its passphrase safe.'') a,
                      w1, Some (path, backup)))))"

definition pick_restore_backup :: "'l json_libs_scheme \<Rightarrow> bytes \<Rightarrow> picked \<Rightarrow> app \<Rightarrow> app" where
  "pick_restore_backup L passphrase file a =
     (if passphrase = [] then backup_set_error ''Backup passphrase is required.'' a
      else case file of
        PickerCancelled \<Rightarrow> a
      | NothingPicked \<Rightarrow> a
      | PickerFailed \<Rightarrow> backup_set_error ''Could not choose a backup file.'' a
      | ReadFailed \<Rightarrow> backup_set_error ''Could not read the selected backup.'' a
      | FileBytes bs \<Rightarrow>
          (if length bs > MAX_BACKUP_BYTES then backup_set_error ''Backup file is too large.'' a
           else case records_from_backup L passphrase bs of
             Inl _ \<Rightarrow> backup_set_error ''Backup could not be opened. Check the passphrase.'' a
           | Inr records \<Rightarrow>
               (if records = [] then backup_set_error ''Backup contains no passwords.'' a
                else update_ui (\<lambda>u. u\<lparr>ui_backup_restore_count := to_i32 (int (length records)),
                       ui_backup_error := [], ui_backup_success := []\<rparr>)
                       (a\<lparr>ap_pending_restore := Some records\<rparr>))))"

text \<open>\<open>None\<close> where the search for an unused identifier does not end.\<close>

definition on_backup_restore_confirm ::
  "'l app_libs_scheme \<Rightarrow> int \<Rightarrow> app \<Rightarrow> 'z disk_world_scheme \<Rightarrow> (app \<times> 'z disk_world_scheme) option"
where
  "on_backup_restore_confirm L p a w =
     (case ap_pending_restore a of
        None \<Rightarrow> Some (a, w)
      | Some records \<Rightarrow>
     (let a0 = a\<lparr>ap_pending_restore := None\<rparr>;
          finish = (\<lambda>a1 w1 t. case app_refresh L a1 w1 of (a2, w2) \<Rightarrow>
            (backup_set_success (''Added '' @ show_nat (is_imported t) @ '', replaced '' @
               show_nat (is_replaced t) @ '', skipped '' @ show_nat (is_skipped t) @
               '' from encrypted backup.'') (update_ui (\<lambda>u. u\<lparr>ui_backup_restore_count := 0\<rparr>) a2), w2))
      in case restore_many L records (policy_from_int p) (ap_keystore a) w of
           None \<Rightarrow> None
         | Some (ks, t, w1) \<Rightarrow>
             Some (if is_imported t > 0 \<or> is_replaced t > 0
                   then (case persist_or_restore L (ks_snapshot (ap_keystore a)) ks a0 w1 of
                           (False, a1, w2) \<Rightarrow>
                             (update_ui (\<lambda>u. u\<lparr>ui_backup_restore_count := 0,
                                ui_backup_error := ''Backup could not be saved. Try again.''\<rparr>) a1, w2)
                         | (True, a1, w2) \<Rightarrow> finish a1 w2 t)
                   else finish (a0\<lparr>ap_keystore := ks\<rparr>) w1 t)))"

definition backup_cancel :: "app \<Rightarrow> app" where
  "backup_cancel a = a\<lparr>ap_pending_restore := None\<rparr>"

end
