(* ===== verification/AppRun.thy ===== *)
theory AppRun
  imports App
begin

text \<open>
  The app from start to power-off. A running app is the state behind its callbacks, the
  session of the engine and the world; the engine and the callbacks share one keystore
  (\<open>Arc<Mutex<Keystore>>\<close>), so the engine's store is that of the app. A step is one callback
  of the user interface, which holds the lock of the keystore from its change to its write.
  No callback parts the keystore in memory from the blob on disk, whichever writes fail;
  the host requests, and the locked sections of their commits, are in \<open>System\<close> and \<open>Threads\<close>.
\<close>

section \<open>Start\<close>

record 'w running =
  rn_app :: app
  rn_session :: session
  rn_world :: 'w

definition app_new :: "keystore \<Rightarrow> app" where
  "app_new ks =
     \<lparr>ap_keystore = ks, ap_search = [], ap_pending_import = None, ap_pending_restore = None,
      ap_ui = ui_initial\<rparr>"

text \<open>\<open>app_main\<close> up to the first refresh, with the master key it fetched.\<close>

definition app_start ::
  "'l app_libs_scheme \<Rightarrow> bytes \<Rightarrow> 'z disk_world_scheme \<Rightarrow>
   keystore_error + 'z disk_world_scheme running"
where
  "app_start L master w =
     (case load_keystore L master (dw_disk w) of
        Inl e \<Rightarrow> Inl e
      | Inr ks \<Rightarrow>
          (case app_refresh L (app_new ks) w of (a, w1) \<Rightarrow>
             Inr \<lparr>rn_app = a, rn_session = session_new, rn_world = w1\<rparr>))"

section \<open>Steps\<close>

text \<open>
  The engine's hook. The refresh it queues for the UI thread is a later \<open>RefreshList\<close> step.
\<close>

definition on_write ::
  "'l json_libs_scheme \<Rightarrow> (keystore, 'z disk_world_scheme) on_write_hook"
where
  "on_write L ks w = persist_keystore L ks w"

definition on_refresh_list ::
  "'l app_libs_scheme \<Rightarrow> app \<Rightarrow> 'z disk_world_scheme \<Rightarrow> app \<times> 'z disk_world_scheme"
where
  "on_refresh_list L a w = app_refresh L a w"

definition on_archive ::
  "'l app_libs_scheme \<Rightarrow> string \<Rightarrow> app \<Rightarrow> 'z disk_world_scheme \<Rightarrow> app \<times> 'z disk_world_scheme"
where
  "on_archive L uuid a w = on_set_archived L True uuid a w"

definition on_restore ::
  "'l app_libs_scheme \<Rightarrow> string \<Rightarrow> app \<Rightarrow> 'z disk_world_scheme \<Rightarrow> app \<times> 'z disk_world_scheme"
where
  "on_restore L uuid a w = on_set_archived L False uuid a w"

definition engine_of :: "'w running \<Rightarrow> keystore engine" where
  "engine_of s =
     \<lparr>en_store = ap_keystore (rn_app s), en_session = rn_session s, en_idle_ms = DEFAULT_IDLE_MS\<rparr>"

definition put_engine :: "keystore engine \<Rightarrow> 'w \<Rightarrow> 'w running \<Rightarrow> 'w running" where
  "put_engine en w s =
     s\<lparr>rn_app := (rn_app s)\<lparr>ap_keystore := en_store en\<rparr>, rn_session := en_session en, rn_world := w\<rparr>"

datatype app_op =
    SearchChanged string
  | RefreshList
  | ArchiveMode bool                                     \<comment> \<open>the switch in the Slint file\<close>
  | SaveNew string string string string int
  | EditSave string string int string string
  | ArchiveTap string
  | RestoreTap string
  | DeleteTap string
  | ChangeColor string int
  | ImportPick picked
  | ImportConfirm int
  | ImportCancel
  | BackupExport bytes backup_target
  | RestorePick bytes picked
  | RestoreConfirm int
  | RestoreCancel

definition on_app :: "(app \<Rightarrow> app) \<Rightarrow> 'w running \<Rightarrow> 'w running option" where
  "on_app f s = Some (s\<lparr>rn_app := f (rn_app s)\<rparr>)"

definition on_both :: "(app \<Rightarrow> 'w \<Rightarrow> app \<times> 'w) \<Rightarrow> 'w running \<Rightarrow> 'w running option" where
  "on_both f s = (case f (rn_app s) (rn_world s) of (a, w) \<Rightarrow> Some (s\<lparr>rn_app := a, rn_world := w\<rparr>))"

text \<open>One callback; \<open>None\<close> where a restore draws identifiers for ever.\<close>

fun app_step :: "'l app_libs_scheme \<Rightarrow> app_op \<Rightarrow> 'z disk_world_scheme running \<Rightarrow>
   'z disk_world_scheme running option"
where
  "app_step L (SearchChanged q) s = on_both (on_search_changed L q) s"
| "app_step L RefreshList s = on_both (on_refresh_list L) s"
| "app_step L (ArchiveMode m) s = on_app (update_ui (\<lambda>u. u\<lparr>ui_archive_mode := m\<rparr>)) s"
| "app_step L (SaveNew ori user pw lab c) s = on_both (on_save_new L ori user pw lab c) s"
| "app_step L (EditSave i lab c user pw) s = on_both (on_edit_save L i lab c user pw) s"
| "app_step L (ArchiveTap i) s = on_both (on_archive L i) s"
| "app_step L (RestoreTap i) s = on_both (on_restore L i) s"
| "app_step L (DeleteTap i) s = on_both (on_delete_forever L i) s"
| "app_step L (ChangeColor i c) s = on_both (on_change_color L i c) s"
| "app_step L (ImportPick f) s = on_app (pick_and_parse L f) s"
| "app_step L (ImportConfirm p) s = on_both (on_import_confirm L p) s"
| "app_step L ImportCancel s = on_app import_cancel s"
| "app_step L (BackupExport pass t) s =
     on_both (\<lambda>a w. case export_encrypted_backup L pass t a w of (a', w', _) \<Rightarrow> (a', w')) s"
| "app_step L (RestorePick pass f) s = on_app (pick_restore_backup L pass f) s"
| "app_step L (RestoreConfirm p) s =
     (case on_backup_restore_confirm L p (rn_app s) (rn_world s) of
        None \<Rightarrow> None
      | Some (a, w) \<Rightarrow> Some (s\<lparr>rn_app := a, rn_world := w\<rparr>))"
| "app_step L RestoreCancel s = on_app backup_cancel s"

section \<open>What is on disk\<close>

text \<open>The keystore is the one a restart would load, under the device's key.\<close>

definition synced :: "'l json_libs_scheme \<Rightarrow> bytes \<Rightarrow> keystore \<Rightarrow> 'z disk_world_scheme \<Rightarrow> bool" where
  "synced L master ks w \<longleftrightarrow>
     ks_key ks = derive_key L master \<and> load_keystore L master (dw_disk w) = Inr ks"

definition disk_laws :: "'l json_libs_scheme \<Rightarrow> bool" where
  "disk_laws L \<longleftrightarrow> aead_ok L \<and> json_ok L \<and> hkdf_ok L"

interpretation on_disk: world_steps "\<lambda>w w' :: 'z disk_world_scheme. dw_disk w' = dw_disk w"
  by unfold_locales (auto simp: fill_bytes_def now_secs_def Let_def)

lemma app_refresh_disk:
  "app_refresh L a w = (a', w') \<Longrightarrow> dw_disk w' = dw_disk w \<and> ap_keystore a' = ap_keystore a"
  by (auto simp: app_refresh_def split: prod.splits dest: on_disk.refreshing)

lemma ap_keystore_ui [simp]:
  "ap_keystore (update_ui f a) = ap_keystore a" "ap_keystore (set_editing_error x y a) = ap_keystore a"
  "ap_keystore (clear_editing_error a) = ap_keystore a" "ap_keystore (invoke_backward a) = ap_keystore a"
  "ap_keystore (set_import_error x a) = ap_keystore a" "ap_keystore (backup_set_error x a) = ap_keystore a"
  "ap_keystore (backup_set_success x a) = ap_keystore a"
  by (simp_all add: update_ui_def set_editing_error_def clear_editing_error_def invoke_backward_def
      set_import_error_def backup_set_error_def backup_set_success_def)

lemma ks_restore_snapshot_same [simp]:
  "ks_key ks' = ks_key ks \<Longrightarrow> ks_restore_snapshot (ks_snapshot ks) ks' = ks"
  by (simp add: ks_restore_snapshot_def ks_snapshot_def)

text \<open>A persist that succeeds puts the keystore on disk, one that fails leaves the disk.\<close>

lemma persist_synced:
  assumes laws: "disk_laws L" and key: "ks_key ks = derive_key L master"
    and p: "persist_keystore L ks w = (ok, w')"
  shows "if ok then synced L master ks w' else dw_disk w' = dw_disk w"
proof -
  obtain r w1 where s: "keystore_seal L ks w = (r, w1)" by force
  then have d: "dw_disk w1 = dw_disk w" by (rule on_disk.keystore_sealing)
  show ?thesis
  proof (cases r)
    case (Inl e)
    then show ?thesis using p s d by (auto simp: persist_keystore_def)
  next
    case (Inr b)
    have o: "keystore_open L master b = Inr ks"
      using open_of_seal_keystore [of L ks master w b w1] laws key s Inr by (simp add: disk_laws_def)
    then have "b \<noteq> []" by (auto simp: keystore_open_def unseal_blob_def Let_def)
    with o p s d Inr key show ?thesis
      by (auto simp: persist_keystore_def store_write_def synced_def load_keystore_def Let_def split: if_splits)
  qed
qed

text \<open>It succeeds when the records have a JSON text the cipher takes and the write does.\<close>

lemma persist_succeeds:
  assumes laws: "disk_laws L" "aead_total L" and key: "ks_key ks = derive_key L master"
    and raw: "json_of_records L (ks_records ks) = Inr raw" "length raw < 2 ^ 32" and ok: "shd (dw_writes w)"
  obtains w' where "persist_keystore L ks w = (True, w')" "synced L master ks w'" "dw_writes w' = stl (dw_writes w)"
proof -
  have l: "aead_ok L" "json_ok L" "hkdf_ok L" using laws(1) by (simp_all add: disk_laws_def)
  have k: "length (ks_key ks) = 32" using key l(3) by (simp add: derive_key_def)
  obtain n w1 where n: "fill_bytes 12 w = (n, w1)" by force
  from laws(2) k raw(2) length_fill_bytes [OF n] have "aes_gcm_encrypt L (ks_key ks) n raw \<noteq> None"
    unfolding aead_total_def by blast
  then obtain c where c: "aes_gcm_encrypt L (ks_key ks) n raw = Some c" by auto
  have s: "keystore_seal L ks w = (Inr (n @ c), w1)"
    using n c raw(1) by (simp add: keystore_seal_def seal_blob_def)
  have "dw_writes w1 = dw_writes w" using n by (auto simp: fill_bytes_def)
  then obtain w' where p: "persist_keystore L ks w = (True, w')" "dw_writes w' = stl (dw_writes w)"
    using s ok by (simp add: persist_keystore_def store_write_def Let_def)
  from persist_synced [OF laws(1) key p(1)] p show thesis by (auto intro: that)
qed

text \<open>The pattern of the callbacks: whatever the write did, memory and disk agree.\<close>

lemma persist_or_restore_synced:
  assumes "disk_laws L" and "synced L master ks0 w" and "ks_key ks = ks_key ks0"
    and "persist_or_restore L (ks_snapshot ks0) ks a w = (ok, a', w')"
  shows "synced L master (ap_keystore a') w'"
proof -
  obtain b w1 where p: "persist_keystore L ks w = (b, w1)" by force
  have "ks_key ks = derive_key L master" using assms(2,3) by (simp add: synced_def)
  from persist_synced [OF assms(1) this p] assms p show ?thesis
    by (cases b) (auto simp: persist_or_restore_def synced_def)
qed

section \<open>Keys of the keystore operations\<close>

lemma op_keys [simp]:
  "ks_key (ks_add r ks) = ks_key ks"
  "ks_key (snd (with_record i f ks)) = ks_key ks"
  "ks_key (snd (ks_delete_forever i ks)) = ks_key ks"
  by (auto simp: ks_add_def with_record_def ks_delete_forever_def split: option.splits)

lemma import_many_keeps:
  assumes "import_many L items policy ks w = (ks', t, w')"
  shows "ks_key ks' = ks_key ks"
    and "is_imported t = 0 \<Longrightarrow> is_replaced t = 0 \<Longrightarrow> ks' = ks"
    and "dw_disk w' = dw_disk w"
proof -
  have "(is_imported t = is_imported t0 \<longrightarrow> is_replaced t = is_replaced t0 \<longrightarrow> ks' = ks) \<and>
      is_imported t0 \<le> is_imported t \<and> is_replaced t0 \<le> is_replaced t"
    if "import_loop L policy items ks t0 w = (ks', t, w')" for t0
    using that
  proof (induction items arbitrary: ks t0 w)
    case (Cons item items)
    obtain ks1 t1 w1 where one: "import_one L policy item ks t0 w = (ks1, t1, w1)" using prod_cases3 by blast
    then have "import_loop L policy items ks1 t1 w1 = (ks', t, w')" using Cons.prems by simp
    note ih = Cons.IH [OF this]
    from one show ?case by (cases rule: import_one_cases) (use ih in auto)
  qed simp
  from this [OF assms [unfolded import_many_def]] show "is_imported t = 0 \<Longrightarrow> is_replaced t = 0 \<Longrightarrow> ks' = ks"
    by (simp add: summary_zero_def)
  show "ks_key ks' = ks_key ks" using import_many_spec(1) [OF assms] by (simp add: extends_keys_def)
  show "dw_disk w' = dw_disk w" by (rule on_disk.importing [OF assms [unfolded import_many_def]])
qed

lemma restore_many_keeps:
  assumes "restore_many L rs policy ks w = Some (ks', t, w')"
  shows "ks_key ks' = ks_key ks"
    and "is_imported t = 0 \<Longrightarrow> is_replaced t = 0 \<Longrightarrow> ks' = ks"
    and "dw_disk w' = dw_disk w"
proof -
  have "(is_imported t = is_imported t0 \<longrightarrow> is_replaced t = is_replaced t0 \<longrightarrow> ks' = ks) \<and>
      is_imported t0 \<le> is_imported t \<and> is_replaced t0 \<le> is_replaced t"
    if "restore_loop L policy rs ks t0 w = Some (ks', t, w')" for t0
    using that
  proof (induction rs arbitrary: ks t0 w)
    case (Cons r rs)
    then obtain ks1 t1 w1 where one: "restore_one L policy r ks t0 w = Some (ks1, t1, w1)"
      and rest: "restore_loop L policy rs ks1 t1 w1 = Some (ks', t, w')"
      by (auto simp: bind_eq_Some_conv)
    note ih = Cons.IH [OF rest]
    from one show ?case by (cases rule: restore_one_cases) (use ih in auto)
  qed simp
  from this [OF assms [unfolded restore_many_def]] show "is_imported t = 0 \<Longrightarrow> is_replaced t = 0 \<Longrightarrow> ks' = ks"
    by (simp add: summary_zero_def)
  show "ks_key ks' = ks_key ks" using restore_many_spec(1) [OF assms] by (simp add: extends_keys_def)
  show "dw_disk w' = dw_disk w" by (rule on_disk.restoring [OF assms [unfolded restore_many_def]])
qed

section \<open>One callback\<close>

text \<open>
  What a callback may rely on and must keep, for any predicate on keystore and world that
  depends on the disk alone and that the persist pattern keeps. Two predicates are of this
  kind: that the keystore is the one on disk, and that it has a given key.
\<close>

definition keeps :: "(keystore \<Rightarrow> 'w \<Rightarrow> bool) \<Rightarrow> (app \<Rightarrow> 'w \<Rightarrow> app \<times> 'w) \<Rightarrow> bool" where
  "keeps P f \<longleftrightarrow> (\<forall>a w a' w'. f a w = (a', w') \<longrightarrow> P (ap_keystore a) w \<longrightarrow> P (ap_keystore a') w')"

lemma keepsI:
  "(\<And>a w a' w'. f a w = (a', w') \<Longrightarrow> P (ap_keystore a) w \<Longrightarrow> P (ap_keystore a') w') \<Longrightarrow> keeps P f"
  by (simp add: keeps_def)

lemma keepsD:
  "keeps P f \<Longrightarrow> f a w = (a', w') \<Longrightarrow> P (ap_keystore a) w \<Longrightarrow> P (ap_keystore a') w'"
  by (simp add: keeps_def)

lemma edit_key: "ks_edit i lab c user pw ks = (r, ks') \<Longrightarrow> ks_key ks' = ks_key ks \<and> (r \<noteq> Inr () \<longrightarrow> ks' = ks)"
  by (auto simp: ks_edit_def with_record_def split: if_splits)

lemma pick_keystore [simp]:
  "ap_keystore (pick_and_parse L f a) = ap_keystore a"
  "ap_keystore (pick_restore_backup L pass f a) = ap_keystore a"
  "ap_keystore (import_cancel a) = ap_keystore a" "ap_keystore (backup_cancel a) = ap_keystore a"
  by (auto simp: pick_and_parse_def pick_restore_backup_def import_cancel_def backup_cancel_def Let_def
      split: picked.splits sum.splits import_error.splits)

lemma on_both_keeps:
  "keeps P f \<Longrightarrow> on_both f s = Some s' \<Longrightarrow> P (ap_keystore (rn_app s)) (rn_world s) \<Longrightarrow>
   P (ap_keystore (rn_app s')) (rn_world s')"
  by (auto simp: on_both_def split: prod.splits dest: keepsD)

lemma on_both_Some: "\<exists>s'. on_both f s = Some s'"
  by (simp add: on_both_def split: prod.splits)

lemma on_app_keeps:
  "(\<And>a. ap_keystore (f a) = ap_keystore a) \<Longrightarrow> on_app f s = Some s' \<Longrightarrow>
   P (ap_keystore (rn_app s)) (rn_world s) \<Longrightarrow> P (ap_keystore (rn_app s')) (rn_world s')"
  by (auto simp: on_app_def)

named_theorems keeps_intros

locale callback_invariant =
  fixes L :: "'l app_libs_scheme" and P :: "keystore \<Rightarrow> 'z disk_world_scheme \<Rightarrow> bool"
  assumes same_disk: "dw_disk w' = dw_disk w \<Longrightarrow> P ks w \<Longrightarrow> P ks w'"
    and persisted: "P ks0 w \<Longrightarrow> ks_key ks = ks_key ks0 \<Longrightarrow>
      persist_or_restore L (ks_snapshot ks0) ks a w = (ok, a', w') \<Longrightarrow> P (ap_keystore a') w'"
begin

lemma refreshed: "app_refresh L a w = (a', w') \<Longrightarrow> P (ap_keystore a) w \<Longrightarrow> P (ap_keystore a') w'"
  using app_refresh_disk [of L a w a' w'] same_disk [of w' w "ap_keystore a"] by simp

lemma keeps_refresh [keeps_intros]: "keeps P (app_refresh L)"
  by (rule keepsI) (rule refreshed)

lemma keeps_search [keeps_intros]: "keeps P (on_search_changed L q)"
  by (rule keepsI) (auto simp: on_search_changed_def dest: refreshed)

lemma keeps_refresh_list [keeps_intros]: "keeps P (on_refresh_list L)"
  using keeps_refresh by (simp add: keeps_def on_refresh_list_def)

lemma keeps_save_new [keeps_intros]: "keeps P (on_save_new L ori user pw lab c)"
proof (rule keepsI)
  fix a w a' w'
  assume f: "on_save_new L ori user pw lab c a w = (a', w')" and s: "P (ap_keystore a) w"
  show "P (ap_keystore a') w'"
  proof (cases "validate_new_fields L ori user pw lab")
    case (Inl e)
    then show ?thesis using f s by (cases e) (auto simp: on_save_new_def)
  next
    case valid: (Inr u)
    show ?thesis
    proof (cases "origin_parse L ori")
      case (Inl e)
      then show ?thesis using f s valid by (auto simp: on_save_new_def)
    next
      case (Inr o')
      obtain rec w1 where r: "credential_record_new L (as_str o') user pw w = (rec, w1)" by force
      have s1: "P (ap_keystore a) w1" by (rule same_disk [OF on_disk.record_new [OF r] s])
      let ?ks = "ks_add (rec\<lparr>cr_label := lab, cr_color := c\<rparr>) (ap_keystore a)"
      obtain ok a1 w2 where p: "persist_or_restore L (ks_snapshot (ap_keystore a)) ?ks a w1 = (ok, a1, w2)"
        using prod_cases3 by blast
      have "P (ap_keystore a1) w2"
        by (rule persisted [OF s1 _ p]) simp
      then show ?thesis
        using f valid Inr r p
        by (cases ok) (auto simp: on_save_new_def Let_def split: prod.splits dest: refreshed)
    qed
  qed
qed

lemma keeps_edit_save [keeps_intros]: "keeps P (on_edit_save L i lab c user pw)"
proof (rule keepsI)
  fix a w a' w'
  assume f: "on_edit_save L i lab c user pw a w = (a', w')" and s: "P (ap_keystore a) w"
  show "P (ap_keystore a') w'"
  proof (cases "uuid_parse_str L i = None \<or> validate_edit_fields lab user pw \<noteq> Inr ()")
    case True
    then show ?thesis using f s by (auto simp: on_edit_save_def split: option.splits sum.splits)
  next
    case False
    then obtain j where j: "uuid_parse_str L i = Some j" and v: "validate_edit_fields lab user pw = Inr ()" by auto
    let ?pw = "if pw = [] then (case ks_get j (ap_keystore a) of None \<Rightarrow> [] | Some r \<Rightarrow> cr_password r) else pw"
    obtain r ks where e: "ks_edit j lab c user ?pw (ap_keystore a) = (r, ks)" by force
    note k = edit_key [OF e]
    obtain ok a1 w1 where p: "persist_or_restore L (ks_snapshot (ap_keystore a)) ks a w = (ok, a1, w1)"
      using prod_cases3 by blast
    have "P (ap_keystore a1) w1"
      by (rule persisted [OF s _ p]) (use k in simp)
    then show ?thesis
      using f s j v e p k
      by (cases ok; cases r) (auto simp: on_edit_save_def Let_def split: prod.splits dest: refreshed)
  qed
qed

lemma commit_result_keeps:
  assumes "P (ap_keystore a) w" and "ks_key (snd r) = ks_key (ap_keystore a)"
    and "fst r \<noteq> Inr () \<Longrightarrow> snd r = ap_keystore a" and "commit_result L r a w = (a', w')"
  shows "P (ap_keystore a') w'"
proof -
  obtain x ks where r: "r = (x, ks)" by force
  obtain ok a1 w1 where p: "persist_or_restore L (ks_snapshot (ap_keystore a)) ks a w = (ok, a1, w1)"
    using prod_cases3 by blast
  have "P (ap_keystore a1) w1"
    by (rule persisted [OF assms(1) _ p]) (use assms(2) r in simp)
  then show ?thesis
    using assms r p
    by (cases ok; cases x) (auto simp: commit_result_def split: prod.splits dest: refreshed)
qed

lemma keeps_change_color [keeps_intros]: "keeps P (on_change_color L i c)"
proof (rule keepsI)
  fix a w a' w'
  assume f: "on_change_color L i c a w = (a', w')" and s: "P (ap_keystore a) w"
  have "ks_key (snd (ks_set_color j c (ap_keystore a))) = ks_key (ap_keystore a)"
    "fst (ks_set_color j c (ap_keystore a)) \<noteq> Inr () \<Longrightarrow> snd (ks_set_color j c (ap_keystore a)) = ap_keystore a" for j
    by (simp_all add: ks_set_color_def) (auto simp: with_record_def)
  from commit_result_keeps [OF s this] show "P (ap_keystore a') w'"
    using f s by (auto simp: on_change_color_def split: option.splits)
qed

lemma keeps_delete_forever [keeps_intros]: "keeps P (on_delete_forever L i)"
proof (rule keepsI)
  fix a w a' w'
  assume f: "on_delete_forever L i a w = (a', w')" and s: "P (ap_keystore a) w"
  have "ks_key (snd (ks_delete_forever j (ap_keystore a))) = ks_key (ap_keystore a)"
    "fst (ks_delete_forever j (ap_keystore a)) \<noteq> Inr () \<Longrightarrow> snd (ks_delete_forever j (ap_keystore a)) = ap_keystore a" for j
    by (simp, auto simp: ks_delete_forever_def split: option.splits if_splits)
  from commit_result_keeps [OF s this] show "P (ap_keystore a') w'"
    using f s by (auto simp: on_delete_forever_def split: option.splits)
qed

lemma keeps_set_archived: "keeps P (on_set_archived L b i)"
proof (rule keepsI)
  fix a w a' w'
  assume f: "on_set_archived L b i a w = (a', w')" and s: "P (ap_keystore a) w"
  show "P (ap_keystore a') w'"
  proof (cases "uuid_parse_str L i")
    case None
    then show ?thesis using f s by (simp add: on_set_archived_def)
  next
    case (Some j)
    obtain ok a1 w1 where p: "persist_or_restore L (ks_snapshot (ap_keystore a))
        (snd (ks_set_archived j b (ap_keystore a))) a w = (ok, a1, w1)" using prod_cases3 by blast
    have "P (ap_keystore a1) w1"
      by (rule persisted [OF s _ p]) (simp add: ks_set_archived_def)
    then show ?thesis
      using f Some p by (cases ok) (auto simp: on_set_archived_def dest: refreshed)
  qed
qed

lemma keeps_archive [keeps_intros]: "keeps P (on_archive L i)"
  using keeps_set_archived [of True i] by (simp add: keeps_def on_archive_def)

lemma keeps_restore [keeps_intros]: "keeps P (on_restore L i)"
  using keeps_set_archived [of False i] by (simp add: keeps_def on_restore_def)

lemma keeps_import_confirm [keeps_intros]: "keeps P (on_import_confirm L p)"
proof (rule keepsI)
  fix a w a' w'
  assume f: "on_import_confirm L p a w = (a', w')" and s: "P (ap_keystore a) w"
  show "P (ap_keystore a') w'"
  proof (cases "ap_pending_import a")
    case None
    then show ?thesis using f s by (simp add: on_import_confirm_def)
  next
    case (Some items)
    obtain ks t w1 where m: "import_many L items (policy_from_int p) (ap_keystore a) w = (ks, t, w1)"
      using prod_cases3 by blast
    note k = import_many_keeps [OF m]
    have s1: "P (ap_keystore a) w1" by (rule same_disk [OF k(3) s])
    obtain ok a1 w2 where q: "persist_or_restore L (ks_snapshot (ap_keystore a)) ks
        (a\<lparr>ap_pending_import := None\<rparr>) w1 = (ok, a1, w2)" using prod_cases3 by blast
    have s2: "P (ap_keystore a1) w2" by (rule persisted [OF s1 k(1) q])
    show ?thesis
    proof (cases "is_imported t > 0 \<or> is_replaced t > 0")
      case True
      then show ?thesis using f Some m q s2
        by (cases ok) (auto simp: on_import_confirm_def Let_def split: prod.splits dest: refreshed)
    next
      case False
      then have "ks = ap_keystore a" using k(2) by simp
      with False show ?thesis using f Some m s1
        by (auto simp: on_import_confirm_def Let_def split: prod.splits dest!: refreshed)
    qed
  qed
qed

lemma restore_confirm:
  assumes s: "P (ap_keystore a) w" and f: "on_backup_restore_confirm L p a w = Some (a', w')"
  shows "P (ap_keystore a') w'"
proof (cases "ap_pending_restore a")
  case None
  then show ?thesis using f s by (simp add: on_backup_restore_confirm_def)
next
  case (Some rs)
  then obtain ks t w1 where m: "restore_many L rs (policy_from_int p) (ap_keystore a) w = Some (ks, t, w1)"
    using f by (auto simp: on_backup_restore_confirm_def Let_def split: option.splits)
  note k = restore_many_keeps [OF m]
  have s1: "P (ap_keystore a) w1" by (rule same_disk [OF k(3) s])
  obtain ok a1 w2 where q: "persist_or_restore L (ks_snapshot (ap_keystore a)) ks
      (a\<lparr>ap_pending_restore := None\<rparr>) w1 = (ok, a1, w2)" using prod_cases3 by blast
  have s2: "P (ap_keystore a1) w2" by (rule persisted [OF s1 k(1) q])
  show ?thesis
  proof (cases "is_imported t > 0 \<or> is_replaced t > 0")
    case True
    then show ?thesis using f Some m q s2
      by (cases ok) (auto simp: on_backup_restore_confirm_def Let_def split: prod.splits dest: refreshed)
  next
    case False
    then have "ks = ap_keystore a" using k(2) by simp
    with False show ?thesis using f Some m s1
      by (auto simp: on_backup_restore_confirm_def Let_def split: prod.splits dest!: refreshed)
  qed
qed

lemma keeps_export [keeps_intros]:
  "keeps P (\<lambda>a w. case export_encrypted_backup L pass t a w of (a', w', _) \<Rightarrow> (a', w'))"
  by (rule keepsI) (auto simp: export_encrypted_backup_def Let_def
      split: prod.splits sum.splits if_splits backup_target.splits dest!: on_disk.exporting intro: same_disk)

lemma ui_step:
  assumes "app_step L p s = Some s'" and "P (ap_keystore (rn_app s)) (rn_world s)"
  shows "P (ap_keystore (rn_app s')) (rn_world s')"
proof (cases p)
  case (RestoreConfirm pol)
  then show ?thesis using assms by (auto split: option.splits dest: restore_confirm)
qed (use assms in \<open>auto elim!: on_both_keeps [rotated] on_app_keeps [rotated] intro!: keeps_intros\<close>)

end

text \<open>Both predicates.\<close>

lemma synced_invariant:
  assumes "disk_laws L"
  shows "callback_invariant L (synced L master)"
proof unfold_locales
  show "dw_disk w' = dw_disk w \<Longrightarrow> synced L master ks w \<Longrightarrow> synced L master ks w'" for w w' :: "'z disk_world_scheme" and ks
    by (simp add: synced_def)
qed (rule persist_or_restore_synced [OF assms])

interpretation same_key: callback_invariant L "\<lambda>ks w. ks_key ks = key"
  by unfold_locales (auto simp: persist_or_restore_def ks_restore_snapshot_def split: prod.splits bool.splits)

section \<open>One host request\<close>

lemma dispatch_disk:
  "dispatch L ops m now en w = (out, en', w') \<Longrightarrow> dw_disk w' = dw_disk w \<and> en_store en' = en_store en"
  using dispatch_frame [of L ops m now en w out en' w'] on_disk.dispatching [of L ops m now en w out en' w'] by simp

lemma seal_password_disk:
  "seal_password L pw now en w = (r, en', w') \<Longrightarrow> dw_disk w' = dw_disk w \<and> en_store en' = en_store en"
  using on_disk.password_seal [of L pw now en w r en' w']
  by (auto simp: seal_password_def split: prod.splits sum.splits)

lemma ks_upsert_disk:
  "ks_upsert L c u p l ks w = (r, ks', w') \<Longrightarrow> dw_disk w' = dw_disk w \<and> ks_key ks' = ks_key ks"
  by (auto dest: on_disk.upsert elim: ks_upsert_cases)

section \<open>A running app and its disk\<close>

definition running_synced :: "'l app_libs_scheme \<Rightarrow> bytes \<Rightarrow> 'z disk_world_scheme running \<Rightarrow> bool" where
  "running_synced L master s \<longleftrightarrow> synced L master (ap_keystore (rn_app s)) (rn_world s)"

lemma app_step_synced:
  "disk_laws L \<Longrightarrow> app_step L p s = Some s' \<Longrightarrow> running_synced L master s \<Longrightarrow> running_synced L master s'"
  unfolding running_synced_def by (rule callback_invariant.ui_step [OF synced_invariant])

text \<open>Only a callback that draws identifiers can fail to return.\<close>

lemma app_step_returns: "(\<forall>q. p \<noteq> RestoreConfirm q) \<Longrightarrow> \<exists>s'. app_step L p s = Some s'"
  by (cases p) (auto simp: on_app_def intro: on_both_Some split: prod.splits)

lemma app_start_Inr:
  assumes "app_start L master w = Inr r"
  shows "load_keystore L master (dw_disk w) = Inr (ap_keystore (rn_app r))"
    and "dw_disk (rn_world r) = dw_disk w" and "rn_session r = session_new"
proof -
  obtain ks where l: "load_keystore L master (dw_disk w) = Inr ks"
    using assms by (auto simp: app_start_def split: sum.splits)
  obtain a w1 where a: "app_refresh L (app_new ks) w = (a, w1)" by force
  from assms l a have r: "r = \<lparr>rn_app = a, rn_session = session_new, rn_world = w1\<rparr>" by (simp add: app_start_def)
  from app_refresh_disk [OF a] l show "load_keystore L master (dw_disk w) = Inr (ap_keystore (rn_app r))"
    "dw_disk (rn_world r) = dw_disk w" "rn_session r = session_new" by (simp_all add: r app_new_def)
qed

lemma load_keystore_key: "load_keystore L master disk = Inr ks \<Longrightarrow> ks_key ks = derive_key L master"
  by (auto simp: load_keystore_def keystore_new_def keystore_open_def Let_def split: if_splits sum.splits)

lemma app_start_synced:
  assumes "disk_laws L" and "app_start L master w = Inr s"
  shows "running_synced L master s"
proof -
  note st = app_start_Inr [OF assms(2)]
  with load_keystore_key [OF st(1)] show ?thesis by (simp add: running_synced_def synced_def)
qed

text \<open>What is on disk is what the next start loads.\<close>

lemma synced_restart:
  assumes "running_synced L master r"
  obtains r' where "app_start L master (rn_world r) = Inr r'" "ap_keystore (rn_app r') = ap_keystore (rn_app r)"
proof -
  obtain a w where a: "app_refresh L (app_new (ap_keystore (rn_app r))) (rn_world r) = (a, w)" by force
  have "ap_keystore a = ap_keystore (rn_app r)" using app_refresh_disk [OF a] by (simp add: app_new_def)
  with assms a that show thesis by (simp add: running_synced_def synced_def app_start_def)
qed


section \<open>Sample parameters\<close>

lemma sample_app_sel:
  "url_parse (sample_app rs) = url_parse (sample_json rs)"
  "hex_encode (sample_app rs) = hex_encode (sample_json rs)"
  "hex_decode (sample_app rs) = hex_decode (sample_json rs)"
  "aes_gcm_encrypt (sample_app rs) = aes_gcm_encrypt (sample_json rs)"
  "aes_gcm_decrypt (sample_app rs) = aes_gcm_decrypt (sample_json rs)"
  "hkdf_expand32 (sample_app rs) = hkdf_expand32 (sample_json rs)"
  "hmac_mac (sample_app rs) = hmac_mac (sample_json rs)"
  "uuid_from_random (sample_app rs) = uuid_from_random (sample_json rs)"
  "json_of_records (sample_app rs) = json_of_records (sample_json rs)"
  "records_of_json (sample_app rs) = records_of_json (sample_json rs)"
  "json_of_backup (sample_app rs) = json_of_backup (sample_json rs)"
  "backup_of_json (sample_app rs) = backup_of_json (sample_json rs)"
  by (simp_all add: sample_app_def json_libs.defs)

lemma sample_app_laws:
  "aead_ok (sample_app rs)" "aead_total (sample_app rs)" "hex_ok (sample_app rs)"
  "hkdf_ok (sample_app rs)" "hmac_ok (sample_app rs)" "url_ok (sample_app rs)" "json_ok (sample_app rs)"
  by (fact sample_json_laws [unfolded aead_ok_def aead_total_def hex_ok_def hkdf_ok_def hmac_ok_def
        url_ok_def, folded sample_app_sel, folded aead_ok_def aead_total_def hex_ok_def
        hkdf_ok_def hmac_ok_def url_ok_def]
      sample_json_ok [unfolded json_ok_def, folded sample_app_sel, folded json_ok_def])+

lemma sample_app_disk_laws: "disk_laws (sample_app rs)"
  using sample_app_laws [of rs] by (simp add: disk_laws_def)

definition sample_disk :: "bool stream \<Rightarrow> disk_world" where
  "sample_disk writes = world.extend sample_world \<lparr>dw_disk = None, dw_writes = writes\<rparr>"

end
