(* ===== verification/Wire.thy ===== *)
theory Wire
  imports Message "HOL-Library.Monad_Syntax"
begin

text \<open>
  The wire format of \<open>logic/vaults-bridge-protocol/src/message.rs\<close>: what the types and their
  \<open>serde\<close> attributes (names, tag and content, flatten, untagged, defaults, skipped and denied
  members) say about the JSON values that are written and read. The text of a JSON value is
  made and read by \<open>serde_json\<close>, which stays a parameter of the transports.
\<close>

section \<open>JSON values\<close>

text \<open>
  \<open>serde_json::Value\<close>, and the two accessors the code uses. An object lists its members as the
  text has them; \<open>get\<close> finds the last of several with one name, as a later one replaces an
  earlier one in the map of a \<open>Value\<close>.
\<close>

datatype json =
    JNull | JBool bool | JInt int | JFloat string | JString string | JArray "json list"
  | JObject "(string \<times> json) list"

fun json_get :: "string \<Rightarrow> json \<Rightarrow> json option" where
  "json_get k (JObject fs) = map_of (rev fs) k"
| "json_get k _ = None"

lemma json_get_distinct: "distinct (map fst fs) \<Longrightarrow> json_get k (JObject fs) = map_of fs k"
proof (induction fs)
  case (Cons f fs)
  obtain a b where f: "f = (a, b)" by force
  with Cons.prems have a: "map_of fs a = None" by (auto simp: map_of_eq_None_iff)
  show ?case using Cons f a by (auto simp: map_add_def split: option.splits)
qed simp

fun json_as_str :: "json \<Rightarrow> string option" where
  "json_as_str (JString s) = Some s"
| "json_as_str _ = None"

text \<open>
  Two details of \<open>serde\<close> the types leave open are parameters: what is read as the name of a
  variant (a string, by the documentation) and what is read as the unit value.
\<close>

record serde =
  sd_tag :: "json \<Rightarrow> string option"
  sd_unit :: "json \<Rightarrow> bool"

definition serde_ok :: "'d serde_scheme \<Rightarrow> bool" where
  "serde_ok D \<longleftrightarrow> (\<forall>s. sd_tag D (JString s) = Some s)"

definition sample_serde :: serde where
  "sample_serde = \<lparr>sd_tag = json_as_str, sd_unit = (\<lambda>j. j = JNull)\<rparr>"

lemma sample_serde_ok: "serde_ok sample_serde"
  by (simp add: serde_ok_def sample_serde_def)

section \<open>Writing\<close>

text \<open>\<open>skip_serializing_if = "Option::is_none"\<close>.\<close>

fun opt_member :: "string \<Rightarrow> ('a \<Rightarrow> json) \<Rightarrow> 'a option \<Rightarrow> (string \<times> json) list" where
  "opt_member k f None = []"
| "opt_member k f (Some x) = [(k, f x)]"

definition word_value :: "'w::len word \<Rightarrow> json" where
  "word_value n = JInt (uint n)"

definition charset_value :: "charset_hint \<Rightarrow> json" where
  "charset_value c =
     JObject [(''letters'', JBool (ch_letters c)), (''digits'', JBool (ch_digits c)), (''symbols'', JBool (ch_symbols c))]"

definition release_value :: "release_params \<Rightarrow> (string \<times> json) list" where
  "release_value p =
     (''origin'', JString (rp_origin p)) # opt_member ''username_hint'' JString (rp_username_hint p) @
     [(''request_nonce'', word_value (rp_request_nonce p))]"

definition store_value :: "store_params \<Rightarrow> (string \<times> json) list" where
  "store_value p =
     (''origin'', JString (sp_origin p)) # (''username'', JString (sp_username p)) #
     opt_member ''label'' JString (sp_label p) @
     [(''password_sealed'', JString (sp_password_sealed p)), (''request_nonce'', word_value (sp_request_nonce p))]"

definition generate_value :: "generate_params \<Rightarrow> (string \<times> json) list" where
  "generate_value p =
     (''origin'', JString (gp_origin p)) # (''username'', JString (gp_username p)) #
     opt_member ''label'' JString (gp_label p) @ opt_member ''length'' word_value (gp_length p) @
     opt_member ''charset'' charset_value (gp_charset p) @ [(''request_nonce'', word_value (gp_request_nonce p))]"

text \<open>\<open>tag = "method", content = "params", rename_all = "snake_case"\<close>.\<close>

fun method_name :: "wire_method \<Rightarrow> string" where
  "method_name Ping = ''ping''"
| "method_name (EstablishSession h) = ''establish_session''"
| "method_name ListOrigins = ''list_origins''"
| "method_name (ListCredentials ori) = ''list_credentials''"
| "method_name (ReleaseCredential p) = ''release_credential''"
| "method_name (StoreCredential p) = ''store_credential''"
| "method_name (GeneratePassword p) = ''generate_password''"
| "method_name Cancel = ''cancel''"

fun method_params :: "wire_method \<Rightarrow> (string \<times> json) list option" where
  "method_params (EstablishSession h) = Some [(''host_pubkey'', JString h)]"
| "method_params (ListCredentials ori) = Some [(''origin'', JString ori)]"
| "method_params (ReleaseCredential p) = Some (release_value p)"
| "method_params (StoreCredential p) = Some (store_value p)"
| "method_params (GeneratePassword p) = Some (generate_value p)"
| "method_params _ = None"

text \<open>\<open>Request\<close>, with its method flattened into the same object.\<close>

definition request_value :: "request \<Rightarrow> (string \<times> json) list" where
  "request_value rq =
     (''id'', JString (rq_id rq)) # (''method'', JString (method_name (rq_method rq))) #
     opt_member ''params'' JObject (method_params (rq_method rq))"

fun action_name :: "store_action \<Rightarrow> string" where
  "action_name Saved = ''saved''"
| "action_name Updated = ''updated''"
| "action_name RestoredAndUpdated = ''restored_and_updated''"

definition summary_value :: "wire_summary \<Rightarrow> json" where
  "summary_value c =
     JObject [(''username'', JString (ws_username c)), (''label'', JString (ws_label c)),
       (''last_used_at'', word_value (ws_last_used_at c))]"

text \<open>\<open>ResponseBody\<close> and \<open>Response\<close> are untagged: only the members are written.\<close>

fun body_value :: "response_body \<Rightarrow> json" where
  "body_value (Pong b) = JObject [(''pong'', JBool b)]"
| "body_value (SessionEstablished h) = JObject [(''device_pubkey'', JString h)]"
| "body_value (OriginsListed os) = JObject [(''origins'', JArray (map JString os))]"
| "body_value (CredentialsListed cs) = JObject [(''credentials'', JArray (map summary_value cs))]"
| "body_value (CredentialReleased u p) = JObject [(''username'', JString u), (''password_sealed'', JString p)]"
| "body_value (CredentialStored a) = JObject [(''action'', JString (action_name a))]"
| "body_value (PasswordGenerated p a) = JObject [(''password_sealed'', JString p), (''action'', JString (action_name a))]"
| "body_value Empty = JObject []"

fun response_value :: "response \<Rightarrow> json" where
  "response_value (RespOk i b) = JObject [(''id'', JString i), (''result'', body_value b)]"
| "response_value (RespErr i c m) =
     JObject [(''id'', JString i), (''error'', JObject [(''code'', JInt c), (''message'', JString m)])]"

section \<open>Reading\<close>

text \<open>
  A member may come once; a missing one is \<open>None\<close>. A struct is read from an object, or from an
  array of its fields in order; \<open>deny\<close> is \<open>deny_unknown_fields\<close>.
\<close>

definition read_member :: "(string \<times> json) list \<Rightarrow> string \<Rightarrow> json option option" where
  "read_member kvs k =
     (case filter (\<lambda>kv. fst kv = k) kvs of [] \<Rightarrow> Some None | [(_, v)] \<Rightarrow> Some (Some v) | _ \<Rightarrow> None)"

definition read_members :: "bool \<Rightarrow> string list \<Rightarrow> (string \<times> json) list \<Rightarrow> json option list option" where
  "read_members deny ks kvs =
     (if deny \<and> \<not> list_all (\<lambda>kv. fst kv \<in> set ks) kvs then None else those (map (read_member kvs) ks))"

definition read_struct :: "bool \<Rightarrow> string list \<Rightarrow> json \<Rightarrow> json option list option" where
  "read_struct deny ks j =
     (case j of
        JObject kvs \<Rightarrow> read_members deny ks kvs
      | JArray vs \<Rightarrow>
          if length ks < length vs then None
          else Some (map Some vs @ replicate (length ks - length vs) None)
      | _ \<Rightarrow> None)"

fun read_bool :: "json \<Rightarrow> bool option" where
  "read_bool (JBool b) = Some b"
| "read_bool _ = None"

fun read_word :: "json \<Rightarrow> 'w::len word option" where
  "read_word (JInt n) = (if 0 \<le> n \<and> n < 2 ^ LENGTH('w) then Some (word_of_int n) else None)"
| "read_word _ = None"

fun read_i32 :: "json \<Rightarrow> int option" where
  "read_i32 (JInt n) = (if - (2 ^ 31) \<le> n \<and> n < 2 ^ 31 then Some n else None)"
| "read_i32 _ = None"

text \<open>A required member, an \<open>Option\<close> with \<open>default\<close>, and a member with a default value.\<close>

definition required :: "(json \<Rightarrow> 'a option) \<Rightarrow> json option \<Rightarrow> 'a option" where
  "required f m = Option.bind m f"

fun optional :: "(json \<Rightarrow> 'a option) \<Rightarrow> json option \<Rightarrow> 'a option option" where
  "optional f None = Some None"
| "optional f (Some JNull) = Some None"
| "optional f (Some j) = map_option Some (f j)"

fun defaulted :: "'a \<Rightarrow> (json \<Rightarrow> 'a option) \<Rightarrow> json option \<Rightarrow> 'a option" where
  "defaulted d f None = Some d"
| "defaulted d f (Some j) = f j"

fun param_keys :: "string \<Rightarrow> string list" where
  "param_keys m =
     (if m = ''establish_session'' then [''host_pubkey'']
      else if m = ''list_credentials'' then [''origin'']
      else if m = ''release_credential'' then [''origin'', ''username_hint'', ''request_nonce'']
      else if m = ''store_credential'' then [''origin'', ''username'', ''label'', ''password_sealed'', ''request_nonce'']
      else if m = ''generate_password'' then
        [''origin'', ''username'', ''label'', ''length'', ''charset'', ''request_nonce'']
      else [])"

definition read_charset :: "json \<Rightarrow> charset_hint option" where
  "read_charset j =
     (case read_struct False [''letters'', ''digits'', ''symbols''] j of
        Some [l, d, s] \<Rightarrow>
          do { l \<leftarrow> defaulted True read_bool l; d \<leftarrow> defaulted True read_bool d; s \<leftarrow> defaulted True read_bool s;
               Some \<lparr>ch_letters = l, ch_digits = d, ch_symbols = s\<rparr> }
      | _ \<Rightarrow> None)"

definition read_establish :: "json \<Rightarrow> wire_method option" where
  "read_establish j =
     (case read_struct True (param_keys ''establish_session'') j of
        Some [h] \<Rightarrow> map_option EstablishSession (required json_as_str h)
      | _ \<Rightarrow> None)"

definition read_list :: "json \<Rightarrow> wire_method option" where
  "read_list j =
     (case read_struct True (param_keys ''list_credentials'') j of
        Some [ori] \<Rightarrow> map_option ListCredentials (required json_as_str ori)
      | _ \<Rightarrow> None)"

definition read_release :: "json \<Rightarrow> wire_method option" where
  "read_release j =
     (case read_struct True (param_keys ''release_credential'') j of
        Some [ori, hint, n] \<Rightarrow>
          do { ori \<leftarrow> required json_as_str ori; hint \<leftarrow> optional json_as_str hint; n \<leftarrow> required read_word n;
               Some (ReleaseCredential \<lparr>rp_origin = ori, rp_username_hint = hint, rp_request_nonce = n\<rparr>) }
      | _ \<Rightarrow> None)"

definition read_store :: "json \<Rightarrow> wire_method option" where
  "read_store j =
     (case read_struct True (param_keys ''store_credential'') j of
        Some [ori, user, label, sealed, n] \<Rightarrow>
          do { ori \<leftarrow> required json_as_str ori; user \<leftarrow> required json_as_str user; label \<leftarrow> optional json_as_str label;
               sealed \<leftarrow> required json_as_str sealed; n \<leftarrow> required read_word n;
               Some (StoreCredential \<lparr>sp_origin = ori, sp_username = user, sp_label = label,
                 sp_password_sealed = sealed, sp_request_nonce = n\<rparr>) }
      | _ \<Rightarrow> None)"

definition read_generate :: "json \<Rightarrow> wire_method option" where
  "read_generate j =
     (case read_struct True (param_keys ''generate_password'') j of
        Some [ori, user, label, len, charset, n] \<Rightarrow>
          do { ori \<leftarrow> required json_as_str ori; user \<leftarrow> required json_as_str user; label \<leftarrow> optional json_as_str label;
               len \<leftarrow> optional read_word len; charset \<leftarrow> optional read_charset charset; n \<leftarrow> required read_word n;
               Some (GeneratePassword \<lparr>gp_origin = ori, gp_username = user, gp_label = label, gp_length = len,
                 gp_charset = charset, gp_request_nonce = n\<rparr>) }
      | _ \<Rightarrow> None)"

text \<open>A variant without content takes no \<open>params\<close>, or the unit value; the others need theirs.\<close>

definition read_method :: "'d serde_scheme \<Rightarrow> (string \<times> json) list \<Rightarrow> wire_method option" where
  "read_method D kvs =
     do { tag \<leftarrow> read_member kvs ''method''; content \<leftarrow> read_member kvs ''params'';
          m \<leftarrow> required (sd_tag D) tag;
          let unit = (case content of None \<Rightarrow> True | Some j \<Rightarrow> sd_unit D j)
          in if m = ''ping'' then (if unit then Some Ping else None)
             else if m = ''list_origins'' then (if unit then Some ListOrigins else None)
             else if m = ''cancel'' then (if unit then Some Cancel else None)
             else if m = ''establish_session'' then required read_establish content
             else if m = ''list_credentials'' then required read_list content
             else if m = ''release_credential'' then required read_release content
             else if m = ''store_credential'' then required read_store content
             else if m = ''generate_password'' then required read_generate content
             else None }"

fun read_request :: "'d serde_scheme \<Rightarrow> json \<Rightarrow> request option" where
  "read_request D (JObject kvs) =
     do { i \<leftarrow> read_member kvs ''id''; i \<leftarrow> required json_as_str i; m \<leftarrow> read_method D kvs;
          Some \<lparr>rq_id = i, rq_method = m\<rparr> }"
| "read_request D _ = None"

definition read_action :: "'d serde_scheme \<Rightarrow> json \<Rightarrow> store_action option" where
  "read_action D j =
     do { a \<leftarrow> sd_tag D j;
          if a = ''saved'' then Some Saved else if a = ''updated'' then Some Updated
          else if a = ''restored_and_updated'' then Some RestoredAndUpdated else None }"

fun read_vec :: "(json \<Rightarrow> 'a option) \<Rightarrow> json \<Rightarrow> 'a list option" where
  "read_vec f (JArray vs) = those (map f vs)"
| "read_vec f _ = None"

definition read_summary :: "json \<Rightarrow> wire_summary option" where
  "read_summary j =
     (case read_struct False [''username'', ''label'', ''last_used_at''] j of
        Some [user, label, t] \<Rightarrow>
          do { user \<leftarrow> required json_as_str user; label \<leftarrow> required json_as_str label; t \<leftarrow> required read_word t;
               Some \<lparr>ws_username = user, ws_label = label, ws_last_used_at = t\<rparr> }
      | _ \<Rightarrow> None)"

definition read_established :: "json \<Rightarrow> response_body option" where
  "read_established j =
     (case read_struct False [''device_pubkey''] j of
        Some [h] \<Rightarrow> map_option SessionEstablished (required json_as_str h)
      | _ \<Rightarrow> None)"

definition read_origins :: "json \<Rightarrow> response_body option" where
  "read_origins j =
     (case read_struct False [''origins''] j of
        Some [os] \<Rightarrow> map_option OriginsListed (required (read_vec json_as_str) os)
      | _ \<Rightarrow> None)"

definition read_credentials :: "json \<Rightarrow> response_body option" where
  "read_credentials j =
     (case read_struct False [''credentials''] j of
        Some [cs] \<Rightarrow> map_option CredentialsListed (required (read_vec read_summary) cs)
      | _ \<Rightarrow> None)"

definition read_released :: "json \<Rightarrow> response_body option" where
  "read_released j =
     (case read_struct False [''username'', ''password_sealed''] j of
        Some [user, sealed] \<Rightarrow>
          do { user \<leftarrow> required json_as_str user; sealed \<leftarrow> required json_as_str sealed;
               Some (CredentialReleased user sealed) }
      | _ \<Rightarrow> None)"

definition read_stored :: "'d serde_scheme \<Rightarrow> json \<Rightarrow> response_body option" where
  "read_stored D j =
     (case read_struct False [''action''] j of
        Some [a] \<Rightarrow> map_option CredentialStored (required (read_action D) a)
      | _ \<Rightarrow> None)"

definition read_generated :: "'d serde_scheme \<Rightarrow> json \<Rightarrow> response_body option" where
  "read_generated D j =
     (case read_struct False [''password_sealed'', ''action''] j of
        Some [sealed, a] \<Rightarrow>
          do { sealed \<leftarrow> required json_as_str sealed; a \<leftarrow> required (read_action D) a;
               Some (PasswordGenerated sealed a) }
      | _ \<Rightarrow> None)"

text \<open>The variants with named members are read from an object only.\<close>

fun read_pong :: "json \<Rightarrow> response_body option" where
  "read_pong (JObject kvs) = do { p \<leftarrow> read_member kvs ''pong''; map_option Pong (required read_bool p) }"
| "read_pong _ = None"

fun read_empty :: "json \<Rightarrow> response_body option" where
  "read_empty (JObject kvs) = Some Empty"
| "read_empty _ = None"

text \<open>The variants of \<open>ResponseBody\<close>, in the order in which an untagged enum tries them.\<close>

definition body_readers :: "'d serde_scheme \<Rightarrow> (json \<Rightarrow> response_body option) list" where
  "body_readers D =
     [read_pong, read_established, read_origins, read_credentials, read_released, read_stored D, read_generated D,
      read_empty]"

fun first_some :: "('a \<Rightarrow> 'b option) list \<Rightarrow> 'a \<Rightarrow> 'b option" where
  "first_some [] x = None"
| "first_some (f # fs) x = (case f x of None \<Rightarrow> first_some fs x | Some y \<Rightarrow> Some y)"

definition read_body :: "'d serde_scheme \<Rightarrow> json \<Rightarrow> response_body option" where
  "read_body D = first_some (body_readers D)"

definition read_error :: "json \<Rightarrow> (int \<times> string) option" where
  "read_error j =
     (case read_struct False [''code'', ''message''] j of
        Some [c, m] \<Rightarrow> do { c \<leftarrow> required read_i32 c; m \<leftarrow> required json_as_str m; Some (c, m) }
      | _ \<Rightarrow> None)"

definition response_readers :: "'d serde_scheme \<Rightarrow> ((string \<times> json) list \<Rightarrow> response option) list" where
  "response_readers D =
     [\<lambda>kvs. do { i \<leftarrow> read_member kvs ''id''; r \<leftarrow> read_member kvs ''result'';
                 i \<leftarrow> required json_as_str i; b \<leftarrow> required (read_body D) r; Some (RespOk i b) },
      \<lambda>kvs. do { i \<leftarrow> read_member kvs ''id''; e \<leftarrow> read_member kvs ''error'';
                 i \<leftarrow> required json_as_str i; (c, m) \<leftarrow> required read_error e; Some (RespErr i c m) }]"

fun read_response :: "'d serde_scheme \<Rightarrow> json \<Rightarrow> response option" where
  "read_response D (JObject kvs) = first_some (response_readers D) kvs"
| "read_response D _ = None"

section \<open>Facts\<close>

named_theorems wire_simps \<open>evaluating readers on written members\<close>

lemma serde_tag [wire_simps]: "serde_ok D \<Longrightarrow> sd_tag D (JString s) = Some s"
  by (simp add: serde_ok_def)

lemmas body_reader_defs =
  read_established_def read_origins_def read_credentials_def read_released_def read_stored_def read_generated_def

declare required_def [wire_simps] read_member_def [wire_simps] read_members_def [wire_simps] read_struct_def [wire_simps]

lemma read_word_value [simp]: "read_word (word_value n) = Some n"
  using uint_bounded [of n] by (simp add: word_value_def)

lemma read_charset_value [simp]: "read_charset (charset_value c) = Some c"
  by (cases c) (simp add: read_charset_def charset_value_def wire_simps)

lemma optional_values [simp]:
  "optional json_as_str (Some (JString x)) = Some (Some x)"
  "optional read_word (Some (word_value n)) = Some (Some n)"
  "optional read_charset (Some (charset_value c)) = Some (Some c)"
  using read_word_value [of n] read_charset_value [of c] by (simp_all add: word_value_def charset_value_def)

lemma read_release_value: "read_release (JObject (release_value p)) = Some (ReleaseCredential p)"
  by (cases p; cases "rp_username_hint p") (simp_all add: read_release_def release_value_def wire_simps)

lemma read_store_value: "read_store (JObject (store_value p)) = Some (StoreCredential p)"
  by (cases p; cases "sp_label p") (simp_all add: read_store_def store_value_def wire_simps)

lemma read_generate_value: "read_generate (JObject (generate_value p)) = Some (GeneratePassword p)"
  by (cases p; cases "gp_label p"; cases "gp_length p"; cases "gp_charset p")
    (simp_all add: read_generate_def generate_value_def wire_simps)

lemma read_simple_values:
  "read_establish (JObject [(''host_pubkey'', JString h)]) = Some (EstablishSession h)"
  "read_list (JObject [(''origin'', JString h)]) = Some (ListCredentials h)"
  by (simp_all add: read_establish_def read_list_def wire_simps)

lemmas read_params_value = read_simple_values read_release_value read_store_value read_generate_value

text \<open>Only the members \<open>id\<close>, \<open>method\<close> and \<open>params\<close> of a request matter.\<close>

lemma read_member_skip:
  "k \<notin> fst ` set extra \<Longrightarrow> read_member (extra @ kvs) k = read_member kvs k"
  by (auto simp: read_member_def filter_empty_conv image_iff intro!: arg_cong [of _ _ "case_list _ _"])

lemma request_members:
  "read_member (request_value rq) ''id'' = Some (Some (JString (rq_id rq)))"
  "read_member (request_value rq) ''method'' = Some (Some (JString (method_name (rq_method rq))))"
  "read_member (request_value rq) ''params'' = Some (map_option JObject (method_params (rq_method rq)))"
  by (cases "method_params (rq_method rq)"; simp add: request_value_def read_member_def)+

lemma read_request_members:
  assumes "serde_ok D" and "read_member kvs ''id'' = Some (Some (JString (rq_id rq)))"
    and "read_member kvs ''method'' = Some (Some (JString (method_name (rq_method rq))))"
    and "read_member kvs ''params'' = Some (map_option JObject (method_params (rq_method rq)))"
  shows "read_request D (JObject kvs) = Some rq"
proof -
  have "read_method D kvs = Some (rq_method rq)"
    using assms by (cases "rq_method rq") (simp_all add: read_method_def required_def serde_tag read_params_value)
  then show ?thesis using assms(2) by (simp add: required_def)
qed

text \<open>An unknown member of the parameters is refused.\<close>

lemma read_struct_denies: "(k, v) \<in> set kvs \<Longrightarrow> k \<notin> set ks \<Longrightarrow> read_struct True ks (JObject kvs) = None"
  by (auto simp: read_struct_def read_members_def list_all_iff)

lemma params_deny:
  assumes "(k, v) \<in> set ps"
  shows "k \<notin> set (param_keys ''establish_session'') \<Longrightarrow> read_establish (JObject ps) = None"
    and "k \<notin> set (param_keys ''list_credentials'') \<Longrightarrow> read_list (JObject ps) = None"
    and "k \<notin> set (param_keys ''release_credential'') \<Longrightarrow> read_release (JObject ps) = None"
    and "k \<notin> set (param_keys ''store_credential'') \<Longrightarrow> read_store (JObject ps) = None"
    and "k \<notin> set (param_keys ''generate_password'') \<Longrightarrow> read_generate (JObject ps) = None"
  using read_struct_denies [OF assms]
  by (simp_all add: read_establish_def read_list_def read_release_def read_store_def read_generate_def
      del: param_keys.simps)

lemma read_request_denies:
  assumes "serde_ok D" and "(k, v) \<in> set ps" and "k \<notin> set (param_keys m)"
    and "m \<notin> {''ping'', ''list_origins'', ''cancel''}"
  shows "read_request D (JObject [(''id'', i), (''method'', JString m), (''params'', JObject ps)]) = None"
proof -
  let ?kvs = "[(''id'', i), (''method'', JString m), (''params'', JObject ps)]"
  have "read_member ?kvs ''method'' = Some (Some (JString m))" "read_member ?kvs ''params'' = Some (Some (JObject ps))"
    by (simp_all add: read_member_def)
  then have "read_method D ?kvs = None"
    using assms(1,3,4) params_deny [OF assms(2)]
    by (simp add: read_method_def required_def serde_tag Let_def del: param_keys.simps)
      (intro conjI impI; simp del: param_keys.simps)
  then show ?thesis by (cases "read_member ?kvs ''id''"; simp add: required_def split: option.split)
qed

lemma those_written: "(\<And>x. f (g x) = Some x) \<Longrightarrow> those (map (\<lambda>x. f (g x)) xs) = Some xs"
  by (induction xs) simp_all

lemma read_vec_written: "(\<And>x. f (g x) = Some x) \<Longrightarrow> read_vec f (JArray (map g xs)) = Some xs"
  using those_written [of f g xs] by (simp add: comp_def)

lemma read_summary_value [simp]: "read_summary (summary_value c) = Some c"
  by (cases c) (simp add: read_summary_def summary_value_def wire_simps)

lemma read_action_name: "serde_ok D \<Longrightarrow> read_action D (JString (action_name a)) = Some a"
  by (cases a) (simp_all add: read_action_def serde_tag)

lemma read_body_value:
  assumes "serde_ok D"
  shows "read_body D (body_value b) = Some (case b of PasswordGenerated p a \<Rightarrow> CredentialStored a | _ \<Rightarrow> b)"
  using assms
  by (cases b) (simp_all add: read_body_def body_readers_def body_reader_defs read_struct_def read_members_def read_member_def
      required_def read_vec_written read_action_name del: read_vec.simps)

lemma read_response_value:
  assumes "serde_ok D"
  shows "read_response D (response_value (RespOk i b)) =
      Some (RespOk i (case b of PasswordGenerated p a \<Rightarrow> CredentialStored a | _ \<Rightarrow> b))"
    and "- (2 ^ 31) \<le> c \<Longrightarrow> c < 2 ^ 31 \<Longrightarrow> read_response D (response_value (RespErr i c m)) = Some (RespErr i c m)"
  by (simp_all add: response_readers_def read_member_def required_def read_body_value [OF assms] read_error_def
      read_struct_def read_members_def)

lemma read_response_exact:
  assumes "serde_ok D" and "\<And>i c m. r = RespErr i c m \<Longrightarrow> - (2 ^ 31) \<le> c \<and> c < 2 ^ 31"
  shows "read_response D (response_value r) = Some r \<longleftrightarrow> (\<nexists>i p a. r = RespOk i (PasswordGenerated p a))"
proof (cases r)
  case (RespOk j b)
  then show ?thesis
    by (cases b) (simp_all add: read_response_value(1) [OF assms(1)] del: read_response.simps response_value.simps)
next
  case (RespErr j c m)
  with assms show ?thesis
    by (simp add: read_response_value(2) del: read_response.simps response_value.simps)
qed

lemma unknown_param_unreadable:
  assumes "serde_ok D" and "method_params (rq_method rq) = Some ps" "k \<notin> set (param_keys (method_name (rq_method rq)))"
  shows "read_request D (JObject [(''id'', JString (rq_id rq)), (''method'', JString (method_name (rq_method rq))),
      (''params'', JObject (ps @ [(k, v)]))]) = None"
proof -
  have m: "method_name (rq_method rq) \<notin> {''ping'', ''list_origins'', ''cancel''}"
    using assms(2) by (cases "rq_method rq") simp_all
  show ?thesis by (rule read_request_denies [OF assms(1) _ assms(3) m, where v = v]) simp
qed

section \<open>Properties\<close>

text \<open>
  C32: messages are read as written, except one. The value a host writes for a request, with any
  other members beside \<open>id\<close>, \<open>method\<close> and \<open>params\<close>, is read back as that request: absent
  options, every \<open>u32\<close> and \<open>u64\<close> and every choice of character classes included; an unknown member
  among the parameters makes it unreadable. Every response is read back as itself, but a
  \<open>generate_password\<close> result: it is read as a \<open>store_credential\<close> result, without the sealed
  password, because the untagged \<open>ResponseBody\<close> tries that variant first.
\<close>

theorem messages_are_read_as_written:
  assumes "serde_ok D" and "fst ` set extra \<inter> {''id'', ''method'', ''params''} = {}"
    and "\<And>i c m. r = RespErr i c m \<Longrightarrow> - (2 ^ 31) \<le> c \<and> c < 2 ^ 31"
  shows "read_request D (JObject (extra @ request_value rq)) = Some rq \<and>
     (\<forall>ps k v. method_params (rq_method rq) = Some ps \<and> k \<notin> set (param_keys (method_name (rq_method rq))) \<longrightarrow>
        read_request D (JObject [(''id'', JString (rq_id rq)), (''method'', JString (method_name (rq_method rq))),
          (''params'', JObject (ps @ [(k, v)]))]) = None) \<and>
     (read_response D (response_value r) = Some r \<longleftrightarrow> (\<nexists>i p a. r = RespOk i (PasswordGenerated p a))) \<and>
     (\<forall>i p a. r = RespOk i (PasswordGenerated p a) \<longrightarrow>
        read_response D (response_value r) = Some (RespOk i (CredentialStored a)))"
proof (intro conjI)
  show "read_request D (JObject (extra @ request_value rq)) = Some rq"
    using assms(2) by (intro read_request_members [OF assms(1)]) (auto simp: read_member_skip request_members)
  show "\<forall>ps k v. method_params (rq_method rq) = Some ps \<and> k \<notin> set (param_keys (method_name (rq_method rq))) \<longrightarrow>
      read_request D (JObject [(''id'', JString (rq_id rq)), (''method'', JString (method_name (rq_method rq))),
        (''params'', JObject (ps @ [(k, v)]))]) = None"
    using unknown_param_unreadable [OF assms(1)] by blast
  show "read_response D (response_value r) = Some r \<longleftrightarrow> (\<nexists>i p a. r = RespOk i (PasswordGenerated p a))"
    "\<forall>i p a. r = RespOk i (PasswordGenerated p a) \<longrightarrow> read_response D (response_value r) = Some (RespOk i (CredentialStored a))"
    using read_response_exact [OF assms(1,3)] read_response_value(1) [OF assms(1)]
    by (auto simp del: read_response.simps response_value.simps)
qed

lemma messages_are_read_as_written_witness:
  "read_request sample_serde (JObject [(''v'', JInt 1), (''id'', JString ''7''), (''method'', JString ''release_credential''),
       (''params'', JObject [(''origin'', JString ''https://a.b''), (''request_nonce'', JInt 3)])]) =
     Some \<lparr>rq_id = ''7'', rq_method = ReleaseCredential \<lparr>rp_origin = ''https://a.b'', rp_username_hint = None, rp_request_nonce = 3\<rparr>\<rparr> \<and>
   read_request sample_serde (JObject [(''id'', JString ''7''), (''method'', JString ''release_credential''),
       (''params'', JObject [(''origin'', JString ''https://a.b''), (''request_nonce'', JInt 3), (''password'', JNull)])]) = None \<and>
   read_response sample_serde (JObject [(''id'', JString ''8''), (''result'', JObject [(''password_sealed'', JString ''ab''), (''action'', JString ''saved'')])]) =
     Some (RespOk ''8'' (CredentialStored Saved))"
proof -
  let ?rq = "\<lparr>rq_id = ''7'', rq_method = ReleaseCredential \<lparr>rp_origin = ''https://a.b'', rp_username_hint = None, rp_request_nonce = 3\<rparr>\<rparr>"
  have v: "request_value ?rq = [(''id'', JString ''7''), (''method'', JString ''release_credential''),
      (''params'', JObject [(''origin'', JString ''https://a.b''), (''request_nonce'', JInt 3)])]"
    by (simp add: request_value_def release_value_def word_value_def)
  have e: "fst ` set [(''v'', JInt 1)] \<inter> {''id'', ''method'', ''params''} = {}" by simp
  note r = messages_are_read_as_written [OF sample_serde_ok e, of "RespOk ''8'' (PasswordGenerated ''ab'' Saved)" ?rq]
  have "read_request sample_serde (JObject [(''id'', JString ''7''), (''method'', JString ''release_credential''),
       (''params'', JObject ([(''origin'', JString ''https://a.b''), (''request_nonce'', JInt 3)] @ [(''password'', JNull)]))]) = None"
    using r by (simp add: release_value_def word_value_def del: read_request.simps read_response.simps response_value.simps)
  moreover have "read_response sample_serde (response_value (RespOk ''8'' (PasswordGenerated ''ab'' Saved))) = Some (RespOk ''8'' (CredentialStored Saved))"
    using r by (simp del: read_request.simps read_response.simps response_value.simps)
  ultimately show ?thesis using r unfolding v by (simp del: read_request.simps read_response.simps)
qed

end
