(* ===== verification/Transport.thy ===== *)
theory Transport
  imports AppRun ProtocolProps EngineProps Wire
begin

text \<open>
  The transports around the engine: \<open>src/transport/webusb.rs\<close> (the interface it registers, the
  setup responder, the reader thread, the dispatcher and writer) and
  \<open>src/transport/websocket.rs\<close> (one client of the simulator). The status line of
  \<open>src/transport.rs\<close> is a field of each thread's state. What the USB stack returns is
  environment: a stream of results of \<open>write_buf\<close>, and the events of \<open>read_buf\<close>. The JSON
  reader and writer are parameters.
\<close>

section \<open>JSON parameters\<close>

text \<open>The JSON text of the values of \<open>Wire\<close>.\<close>

record wire_libs = app_libs +
  request_of_json :: "bytes \<Rightarrow> request option"
  json_value :: "bytes \<Rightarrow> json option"
  json_of_response :: "response \<Rightarrow> string + bytes"

text \<open>Every response has a compact JSON text, and that has no line break.\<close>

definition response_text :: "'l wire_libs_scheme \<Rightarrow> response \<Rightarrow> bytes" where
  "response_text L r = (case json_of_response L r of Inl e \<Rightarrow> [] | Inr bs \<Rightarrow> bs)"

definition wire_ok :: "'l wire_libs_scheme \<Rightarrow> bool" where
  "wire_ok L \<longleftrightarrow> (\<forall>r. json_of_response L r = Inr (response_text L r) \<and> NL \<notin> set (response_text L r))"

section \<open>Descriptors and the setup responder\<close>

definition WEBUSB_IFCE_CLASS :: byte where "WEBUSB_IFCE_CLASS = 0xFF"
definition WEBUSB_IFCE_SUBCLASS :: byte where "WEBUSB_IFCE_SUBCLASS = 0x50"
definition WEBUSB_IFCE_PROTOCOL :: byte where "WEBUSB_IFCE_PROTOCOL = 0x01"
definition WEBUSB_INTERFACE_NUMBER :: byte where "WEBUSB_INTERFACE_NUMBER = 6"
definition WEBUSB_VENDOR_CODE :: byte where "WEBUSB_VENDOR_CODE = 0x1F"

datatype ep_direction = DirIn | DirOut

record endpoint_properties =
  ep_direction :: ep_direction
  ep_interrupt :: bool
  ep_max_packet_len :: u16
  ep_interval :: byte
  ep_use_dma :: bool

definition WEBUSB_ENDPOINTS :: "endpoint_properties list" where
  "WEBUSB_ENDPOINTS =
     [\<lparr>ep_direction = DirIn, ep_interrupt = True, ep_max_packet_len = 64, ep_interval = 1, ep_use_dma = False\<rparr>,
      \<lparr>ep_direction = DirOut, ep_interrupt = True, ep_max_packet_len = 64, ep_interval = 1, ep_use_dma = False\<rparr>]"

definition setup_respond :: "byte \<Rightarrow> byte \<Rightarrow> u16 \<Rightarrow> bytes option" where
  "setup_respond request_type request index =
     (if request_type = 0xc0 \<and> request = WEBUSB_VENDOR_CODE \<and> index = 2 then Some [3, 3, 0xff] else None)"

section \<open>Registration\<close>

datatype usb_call =
    RegisterCapability byte byte uuid bytes
  | RegisterSetupResponder
  | RegisterInterface byte byte byte byte "endpoint_properties list"
  | ResetController

text \<open>What the USB server answers to each call: the text of an error, or success.\<close>

record usb_answers =
  ua_webusb_cap :: "string option"
  ua_ms_os_cap :: "string option"
  ua_responder :: "string option"
  ua_interface :: "string + nat \<times> nat"       \<comment> \<open>endpoint numbers, in and out\<close>

definition webusb_cap :: usb_call where
  "webusb_cap = RegisterCapability 16 5 0x3408b63809a947a08bfda0768815b665 [0x00, 0x01, WEBUSB_VENDOR_CODE, 0x00]"

definition ms_os_cap :: usb_call where
  "ms_os_cap = RegisterCapability 16 5 0xd8dd60df45894cc79cd2659d9e648a9f
     [0x00, 0x00, 0x03, 0x06, 0xb2, 0x00, 0x77, 0x00]"

definition webusb_interface :: usb_call where
  "webusb_interface = RegisterInterface WEBUSB_INTERFACE_NUMBER WEBUSB_IFCE_CLASS WEBUSB_IFCE_SUBCLASS
     WEBUSB_IFCE_PROTOCOL WEBUSB_ENDPOINTS"

text \<open>
  \<open>serve_blocking\<close> up to the ready status: the calls made, the last status, and the endpoint
  numbers, or \<open>None\<close> where the thread is parked.
\<close>

definition usb_init :: "usb_answers \<Rightarrow> usb_call list \<times> string \<times> (nat \<times> nat) option" where
  "usb_init u =
     (case ua_webusb_cap u of
        Some e \<Rightarrow> ([webusb_cap], ''WebUSB: register WebUSB capability failed: '' @ e, None)
      | None \<Rightarrow>
     (case ua_ms_os_cap u of
        Some e \<Rightarrow> ([webusb_cap, ms_os_cap], ''WebUSB: register MS OS 2.0 capability failed: '' @ e, None)
      | None \<Rightarrow>
     (case ua_responder u of
        Some e \<Rightarrow> ([webusb_cap, ms_os_cap, RegisterSetupResponder],
                   ''WebUSB: register setup responder failed: '' @ e, None)
      | None \<Rightarrow>
     (case ua_interface u of
        Inl e \<Rightarrow> ([webusb_cap, ms_os_cap, RegisterSetupResponder, webusb_interface],
                  ''WebUSB: register interface failed: '' @ e, None)
      | Inr (ep_in, ep_out) \<Rightarrow>
          ([webusb_cap, ms_os_cap, RegisterSetupResponder, webusb_interface, ResetController],
           ''WebUSB ready (EP out='' @ show_nat ep_out @ '', in='' @ show_nat ep_in @ '')'',
           Some (ep_in, ep_out))))))"

section \<open>The reader thread\<close>

record reader_state =
  rd_line :: bytes
  rd_total_bytes :: u64
  rd_total_lines :: u64
  rd_status :: string
  rd_sent :: "bytes list"
  rd_running :: bool

definition ready_status :: "nat \<Rightarrow> nat \<Rightarrow> string" where
  "ready_status ep_in ep_out = ''WebUSB ready (EP out='' @ show_nat ep_out @ '', in='' @ show_nat ep_in @ '')''"

text \<open>The start of the thread: it returns at once when its buffer cannot be mapped.\<close>

definition reader_start :: "string option \<Rightarrow> nat \<Rightarrow> nat \<Rightarrow> reader_state" where
  "reader_start map_error ep_in ep_out =
     \<lparr>rd_line = [], rd_total_bytes = 0, rd_total_lines = 0,
      rd_status = (case map_error of
          Some e \<Rightarrow> ''reader: map err '' @ e
        | None \<Rightarrow> ''WebUSB reader started (out='' @ show_nat ep_out @ '' in='' @ show_nat ep_in @ '')''),
      rd_sent = [], rd_running = (map_error = None)\<rparr>"

text \<open>
  The \<open>for\<close> over a chunk; \<open>alive\<close> says whether the dispatcher still holds its end of the channel.
\<close>

fun reader_bytes :: "bool \<Rightarrow> reader_state \<Rightarrow> bytes \<Rightarrow> reader_state" where
  "reader_bytes alive s [] = s"
| "reader_bytes alive s (b # bs) =
     (if b = NL then
        (if rd_line s = [] then reader_bytes alive s bs
         else (let n = rd_total_lines s + 1;
                   s1 = s\<lparr>rd_line := [], rd_total_lines := n\<rparr>
               in if alive
                  then reader_bytes alive
                         (s1\<lparr>rd_status := ''got line '' @ show_nat (unat n) @ '' ('' @ show_nat (length (rd_line s)) @ ''B)'',
                            rd_sent := rd_sent s @ [rd_line s]\<rparr>) bs
                  else s1\<lparr>rd_status := ''dispatcher gone'', rd_running := False\<rparr>))
      else if b \<noteq> CR then
        (if length (rd_line s) \<ge> MAX_LINE_BYTES
         then reader_bytes alive (s\<lparr>rd_status := ''rx: oversize line dropped'', rd_line := []\<rparr>) bs
         else reader_bytes alive (s\<lparr>rd_line := rd_line s @ [b]\<rparr>) bs)
      else reader_bytes alive s bs)"

text \<open>One turn of the loop, with the endpoint numbers for the status.\<close>

fun reader_turn :: "nat \<Rightarrow> nat \<Rightarrow> bool \<Rightarrow> reader_state \<Rightarrow> read_event \<Rightarrow> reader_state" where
  "reader_turn ep_in ep_out alive s (Read chunk) =
     (if chunk = [] then s
      else let n = rd_total_bytes s + word_of_nat (length chunk) in
           reader_bytes alive
             (s\<lparr>rd_total_bytes := n,
                rd_status := ''rx '' @ show_nat (length chunk) @ ''B / '' @ show_nat (unat n) @ '' total / '' @
                  show_nat (unat (rd_total_lines s)) @ '' lines''\<rparr>) chunk)"
| "reader_turn ep_in ep_out alive s HostDisconnected =
     s\<lparr>rd_line := [], rd_status := ready_status ep_in ep_out\<rparr>"
| "reader_turn ep_in ep_out alive s (read_event.ReadFailed e) = s\<lparr>rd_status := ''read err: '' @ e\<rparr>"

fun reader_thread :: "nat \<Rightarrow> nat \<Rightarrow> reader_state \<Rightarrow> (read_event \<times> bool) list \<Rightarrow> reader_state" where
  "reader_thread ep_in ep_out s [] = s"
| "reader_thread ep_in ep_out s ((e, alive) # es) =
     (if rd_running s then reader_thread ep_in ep_out (reader_turn ep_in ep_out alive s e) es else s)"

section \<open>Dispatcher and writer\<close>

datatype tx_result = TxOk nat | TxDisconnected | TxError string

record usb_world = disk_world +
  uw_clock :: "int stream"            \<comment> \<open>milliseconds since the epoch\<close>
  uw_tx :: "tx_result stream"
  uw_sent :: "bytes list"             \<comment> \<open>transfers that reached the host\<close>
  uw_status :: string

definition now_ms :: "'z usb_world_scheme \<Rightarrow> u64 \<times> 'z usb_world_scheme" where
  "now_ms w =
     (let t = shd (uw_clock w) in (if t < 0 then 0 else word_of_int t, w\<lparr>uw_clock := stl (uw_clock w)\<rparr>))"

definition set_status :: "string \<Rightarrow> 'z usb_world_scheme \<Rightarrow> 'z usb_world_scheme" where
  "set_status msg w = w\<lparr>uw_status := msg\<rparr>"

text \<open>The identifier an unparsable request is answered under.\<close>

definition salvage_id :: "'l wire_libs_scheme \<Rightarrow> bytes \<Rightarrow> string" where
  "salvage_id L payload =
     (case Option.bind (json_value L payload) (\<lambda>v. Option.bind (json_get ''id'' v) json_as_str) of
        None \<Rightarrow> ''0''
      | Some i \<Rightarrow> i)"

definition invalid_request :: "string \<Rightarrow> response" where
  "invalid_request i = RespErr i (error_code_i32 InvalidRequest) ''invalid request''"

definition webusb_dispatch ::
  "'l wire_libs_scheme \<Rightarrow> (approval_request \<Rightarrow> approval_decision) \<Rightarrow> bytes \<Rightarrow> keystore engine \<Rightarrow>
   'z usb_world_scheme \<Rightarrow> (response \<times> keystore engine \<times> 'z usb_world_scheme) option"
where
  "webusb_dispatch L decide payload en w =
     (case request_of_json L payload of
        None \<Rightarrow> Some (invalid_request (salvage_id L payload), en, w)
      | Some req \<Rightarrow>
          (case now_ms w of (now, w1) \<Rightarrow>
             handle L (keystore_ops L) (on_write L) decide req now en w1))"

text \<open>The transfers of one response; a failed transfer is not repeated.\<close>

fun tx_chunks :: "nat \<Rightarrow> bytes list \<Rightarrow> 'z usb_world_scheme \<Rightarrow> 'z usb_world_scheme" where
  "tx_chunks i [] w = w"
| "tx_chunks i (c # cs) w =
     (let w1 = w\<lparr>uw_tx := stl (uw_tx w)\<rparr> in
      tx_chunks (Suc i) cs
        (case shd (uw_tx w) of
           TxOk n \<Rightarrow> set_status (''tx chunk '' @ show_nat (Suc i) @ '' '' @ show_nat (length c) @ ''B ok ('' @ show_nat n @ '')'')
                       (w1\<lparr>uw_sent := uw_sent w @ [c]\<rparr>)
         | TxDisconnected \<Rightarrow> set_status ''tx: host disc'' w1
         | TxError e \<Rightarrow> set_status (''write err: '' @ e) w1))"

text \<open>One turn of the dispatcher; the count is of the responses written.\<close>

definition webusb_turn ::
  "'l wire_libs_scheme \<Rightarrow> (approval_request \<Rightarrow> approval_decision) \<Rightarrow> bytes \<Rightarrow>
   u64 \<times> keystore engine \<times> 'z usb_world_scheme \<Rightarrow> (u64 \<times> keystore engine \<times> 'z usb_world_scheme) option"
where
  "webusb_turn L decide payload st =
     (case st of (handled, en, w) \<Rightarrow>
      case webusb_dispatch L decide payload en
             (set_status (''dispatch '' @ show_nat (unat (handled + 1)) @ '' ('' @ show_nat (length payload) @ ''B)'') w) of
        None \<Rightarrow> None
      | Some (response, en1, w1) \<Rightarrow>
          Some (case json_of_response L response of
             Inl e \<Rightarrow> (handled, en1, set_status (''serialise err: '' @ e) w1)
           | Inr bs \<Rightarrow>
               (let out = bs @ [NL];
                    w2 = set_status (''tx '' @ show_nat (length out) @ ''B (#'' @ show_nat (unat (handled + 1)) @ '')'') w1;
                    w3 = tx_chunks 0 (chunks64 out) w2
                in (handled + 1, en1, set_status (''done #'' @ show_nat (unat (handled + 1))) w3))))"

text \<open>The \<open>while\<close> over the payloads of the channel, each with what the user will answer.\<close>

fun webusb_loop ::
  "'l wire_libs_scheme \<Rightarrow> (bytes \<times> (approval_request \<Rightarrow> approval_decision)) list \<Rightarrow>
   u64 \<times> keystore engine \<times> 'z usb_world_scheme \<Rightarrow> (u64 \<times> keystore engine \<times> 'z usb_world_scheme) option"
where
  "webusb_loop L [] st = Some st"
| "webusb_loop L ((payload, decide) # ps) st =
     Option.bind (webusb_turn L decide payload st) (webusb_loop L ps)"

section \<open>The WebSocket client loop\<close>

text \<open>What the stream yields, and the outcome of a turn; a response without text panics.\<close>

datatype ws_message = WsText bytes | WsClose | WsOther | WsReadError

datatype ws_flow = WsContinue | WsBreak | WsPanic

record ws_state =
  wsk_engine :: "keystore engine"
  wsk_sent :: "bytes list"

text \<open>\<open>send_ok\<close> is the result of the \<open>send\<close> this turn makes, if it makes one.\<close>

definition ws_turn ::
  "'l wire_libs_scheme \<Rightarrow> (approval_request \<Rightarrow> approval_decision) \<Rightarrow> bool \<Rightarrow> ws_message \<Rightarrow>
   ws_state \<times> 'z usb_world_scheme \<Rightarrow> (ws_flow \<times> ws_state \<times> 'z usb_world_scheme) option"
where
  "ws_turn L decide send_ok msg st =
     (case st of (s, w) \<Rightarrow>
      let sent = (\<lambda>bs. if send_ok then wsk_sent s @ [bs] else wsk_sent s) in
      case msg of
        WsClose \<Rightarrow> Some (WsBreak, s, w)
      | WsReadError \<Rightarrow> Some (WsBreak, s, w)
      | WsOther \<Rightarrow> Some (WsContinue, s, w)
      | WsText t \<Rightarrow>
          (case request_of_json L t of
             None \<Rightarrow>
               Some (case json_of_response L (invalid_request ''0'') of
                  Inl _ \<Rightarrow> (WsPanic, s, w)
                | Inr bs \<Rightarrow> (WsContinue, s\<lparr>wsk_sent := sent bs\<rparr>, w))
           | Some req \<Rightarrow>
               (case now_ms w of (now, w1) \<Rightarrow>
                  (case handle L (keystore_ops L) (on_write L) decide req now (wsk_engine s) w1 of
                     None \<Rightarrow> None
                   | Some (resp, en, w2) \<Rightarrow>
                       Some (case json_of_response L resp of
                          Inl _ \<Rightarrow> (WsPanic, s\<lparr>wsk_engine := en\<rparr>, w2)
                        | Inr bs \<Rightarrow> (if send_ok then WsContinue else WsBreak,
                                    s\<lparr>wsk_engine := en, wsk_sent := sent bs\<rparr>, w2))))))"

fun ws_client ::
  "'l wire_libs_scheme \<Rightarrow> (ws_message \<times> bool \<times> (approval_request \<Rightarrow> approval_decision)) list \<Rightarrow>
   ws_state \<times> 'z usb_world_scheme \<Rightarrow> (ws_flow \<times> ws_state \<times> 'z usb_world_scheme) option"
where
  "ws_client L [] (s, w) = Some (WsContinue, s, w)"
| "ws_client L ((msg, send_ok, decide) # ms) st =
     (case ws_turn L decide send_ok msg st of
        None \<Rightarrow> None
      | Some (WsContinue, s, w) \<Rightarrow> ws_client L ms (s, w)
      | Some (flow, s, w) \<Rightarrow> Some (flow, s, w))"

section \<open>The reader thread refines the byte loop\<close>

lemma reader_bytes_refines:
  "reader_chunk (rd_line s) bs = (ps, l) \<Longrightarrow> rd_running s \<Longrightarrow>
   rd_sent (reader_bytes True s bs) = rd_sent s @ ps \<and> rd_line (reader_bytes True s bs) = l \<and>
   rd_running (reader_bytes True s bs) \<and>
   rd_total_lines (reader_bytes True s bs) = rd_total_lines s + word_of_nat (length ps)"
proof (induction bs arbitrary: s ps)
  case (Cons b bs)
  show ?case
  proof (cases "b = NL \<and> rd_line s \<noteq> []")
    case True
    let ?s = "s\<lparr>rd_line := [], rd_total_lines := rd_total_lines s + 1,
        rd_status := ''got line '' @ show_nat (unat (rd_total_lines s + 1)) @ '' ('' @ show_nat (length (rd_line s)) @ ''B)'',
        rd_sent := rd_sent s @ [rd_line s]\<rparr>"
    obtain qs where "reader_chunk (rd_line ?s) bs = (qs, l)" "ps = rd_line s # qs"
      using Cons.prems(1) True by (auto split: prod.splits)
    with Cons.IH [of ?s qs] Cons.prems(2) True show ?thesis by (simp add: Let_def)
  qed (use Cons in \<open>auto simp: Let_def\<close>)
qed simp

lemma reader_turn_refines:
  assumes "reader_step (rd_line s) e = (ps, l)" and "rd_running s"
  shows "rd_sent (reader_turn i j True s e) = rd_sent s @ ps \<and> rd_line (reader_turn i j True s e) = l \<and>
     rd_running (reader_turn i j True s e) \<and>
     rd_total_lines (reader_turn i j True s e) = rd_total_lines s + word_of_nat (length ps)"
proof (cases e)
  case (Read chunk)
  show ?thesis
  proof (cases "chunk = []")
    case False
    let ?n = "rd_total_bytes s + word_of_nat (length chunk)"
    let ?s = "s\<lparr>rd_total_bytes := ?n,
        rd_status := ''rx '' @ show_nat (length chunk) @ ''B / '' @ show_nat (unat ?n) @ '' total / '' @
          show_nat (unat (rd_total_lines s)) @ '' lines''\<rparr>"
    have t: "reader_turn i j True s e = reader_bytes True ?s chunk"
      by (simp only: Read reader_turn.simps False if_False Let_def)
    show ?thesis unfolding t
      using reader_bytes_refines [of ?s chunk ps l] assms Read by simp
  qed (use assms Read in auto)
qed (use assms in auto)

lemma reader_thread_refines:
  "reader_run (rd_line s) es = (ps, l) \<Longrightarrow> rd_running s \<Longrightarrow>
   rd_sent (reader_thread i j s (map (\<lambda>e. (e, True)) es)) = rd_sent s @ ps \<and>
   rd_line (reader_thread i j s (map (\<lambda>e. (e, True)) es)) = l \<and>
   rd_total_lines (reader_thread i j s (map (\<lambda>e. (e, True)) es)) = rd_total_lines s + word_of_nat (length ps)"
proof (induction es arbitrary: s ps)
  case (Cons e es)
  obtain qs m where q: "reader_step (rd_line s) e = (qs, m)" by force
  then obtain rs where r: "reader_run m es = (rs, l)" "ps = qs @ rs"
    using Cons.prems(1) by (auto split: prod.splits)
  from reader_turn_refines [OF q Cons.prems(2), of i j] r Cons.IH [of "reader_turn i j True s e" rs] Cons.prems(2)
  show ?case by simp
qed simp

section \<open>One turn of the dispatcher\<close>

text \<open>The engine leaves the USB side of the world alone.\<close>

interpretation on_usb: world_steps
  "\<lambda>w w' :: 'z usb_world_scheme. uw_tx w' = uw_tx w \<and> uw_sent w' = uw_sent w"
  by unfold_locales (auto simp: fill_bytes_def now_secs_def Let_def)

lemma persist_frame:
  assumes "persist_keystore L ks w = (b, w')"
  shows "\<exists>n. w_rng w' = sdrop n (w_rng w)"
proof -
  obtain r w1 where s: "keystore_seal L ks w = (r, w1)" by force
  have "w_rng w' = w_rng w1"
    using assms s by (cases r) (auto simp: persist_keystore_def store_write_def Let_def)
  with tape.keystore_sealing [OF s] show ?thesis by simp
qed

lemma persist_usb:
  fixes w :: "'z usb_world_scheme"
  assumes "persist_keystore L ks w = (b, w')"
  shows "uw_tx w' = uw_tx w \<and> uw_sent w' = uw_sent w"
proof -
  obtain r w1 where s: "keystore_seal L ks w = (r, w1)" by force
  have "uw_tx w' = uw_tx w1 \<and> uw_sent w' = uw_sent w1"
    using assms s by (cases r) (auto simp: persist_keystore_def store_write_def Let_def)
  with on_usb.keystore_sealing [OF s] show ?thesis by simp
qed

text \<open>The identifier a payload is answered under.\<close>

definition payload_id :: "'l wire_libs_scheme \<Rightarrow> bytes \<Rightarrow> string" where
  "payload_id L payload =
     (case request_of_json L payload of None \<Rightarrow> salvage_id L payload | Some rq \<Rightarrow> rq_id rq)"

lemma webusb_dispatch_returns:
  fixes w :: "'z usb_world_scheme"
  assumes "fair (w_rng w)"
  shows "\<exists>r en' w'. webusb_dispatch L decide payload en w = Some (r, en', w') \<and> response_id r = payload_id L payload \<and>
     fair (w_rng w') \<and> uw_tx w' = uw_tx w \<and> uw_sent w' = uw_sent w"
proof (cases "request_of_json L payload")
  case None
  then show ?thesis using assms by (simp add: webusb_dispatch_def payload_id_def invalid_request_def)
next
  case (Some rq)
  obtain now w1 where n: "now_ms w = (now, w1)" by force
  then have w1: "w_rng w1 = w_rng w" "uw_tx w1 = uw_tx w" "uw_sent w1 = uw_sent w"
    by (auto simp: now_ms_def Let_def)
  then have "fair (w_rng w1)" using assms by simp
  from handle_returns [OF this, of L "keystore_ops L" "on_write L" decide rq now en] obtain r en' w' where
    h: "handle L (keystore_ops L) (on_write L) decide rq now en w1 = Some (r, en', w')" "response_id r = rq_id rq" by blast
  have "\<exists>n. w_rng w' = sdrop n (w_rng w1)"
    by (rule tape.handling [OF _ h(1)]) (auto simp: on_write_def dest: persist_frame)
  moreover have "uw_tx w' = uw_tx w1 \<and> uw_sent w' = uw_sent w1"
    by (rule on_usb.handling [OF _ h(1)]) (auto simp: on_write_def dest: persist_usb)
  ultimately show ?thesis
    using h Some n w1 assms fair_sdrop by (auto simp: webusb_dispatch_def payload_id_def)
qed

text \<open>Transfers that reach the host: those whose \<open>write_buf\<close> succeeded, in order.\<close>

fun tx_is_ok :: "tx_result \<Rightarrow> bool" where
  "tx_is_ok (TxOk n) = True"
| "tx_is_ok _ = False"

lemma tx_chunks_sent:
  "uw_sent (tx_chunks i cs w) =
     uw_sent w @ map fst (filter (\<lambda>(c, r). tx_is_ok r) (zip cs (stake (length cs) (uw_tx w)))) \<and>
   uw_tx (tx_chunks i cs w) = sdrop (length cs) (uw_tx w) \<and> w_rng (tx_chunks i cs w) = w_rng w"
proof (induction cs arbitrary: i w)
  case (Cons c cs)
  then show ?case
    by (cases "shd (uw_tx w)") (simp_all add: Let_def set_status_def)
qed simp

definition tx_all_ok :: "tx_result stream \<Rightarrow> bool" where
  "tx_all_ok s \<longleftrightarrow> (\<forall>n. tx_is_ok (s !! n))"

lemma tx_all_ok_sdrop: "tx_all_ok s \<Longrightarrow> tx_all_ok (sdrop n s)"
  by (simp add: tx_all_ok_def sdrop_snth)

lemma tx_chunks_all_ok:
  assumes "tx_all_ok (uw_tx w)"
  shows "uw_sent (tx_chunks i cs w) = uw_sent w @ cs"
proof -
  have "\<forall>x \<in> set (zip cs (stake (length cs) (uw_tx w))). (\<lambda>(c, r). tx_is_ok r) x"
    using assms by (auto simp: tx_all_ok_def set_zip)
  then have f: "filter (\<lambda>(c, r). tx_is_ok r) (zip cs (stake (length cs) (uw_tx w))) = zip cs (stake (length cs) (uw_tx w))"
    by (simp only: filter_id_conv)
  show ?thesis using tx_chunks_sent [of i cs w] by (simp add: f)
qed

lemma webusb_turn_returns:
  fixes w :: "'z usb_world_scheme"
  assumes "fair (w_rng w)" and "wire_ok L" and "tx_all_ok (uw_tx w)"
  shows "\<exists>r en' w'. webusb_turn L decide payload (n, en, w) = Some (n + 1, en', w') \<and>
     response_id r = payload_id L payload \<and>
     uw_sent w' = uw_sent w @ chunks64 (frame (response_text L r)) \<and> fair (w_rng w') \<and> tx_all_ok (uw_tx w')"
proof -
  let ?w = "set_status (''dispatch '' @ show_nat (unat (n + 1)) @ '' ('' @ show_nat (length payload) @ ''B)'') w"
  have "fair (w_rng ?w)" using assms(1) by (simp add: set_status_def)
  from webusb_dispatch_returns [OF this, of L decide payload en] obtain r en' w1 where
    d: "webusb_dispatch L decide payload en ?w = Some (r, en', w1)" and i: "response_id r = payload_id L payload"
    and f: "fair (w_rng w1)" and u: "uw_tx w1 = uw_tx w" "uw_sent w1 = uw_sent w"
    by (auto simp: set_status_def)
  define w2 where "w2 = set_status (''tx '' @ show_nat (length (frame (response_text L r))) @ ''B (#'' @
      show_nat (unat (n + 1)) @ '')'') w1"
  have w2: "uw_tx w2 = uw_tx w" "uw_sent w2 = uw_sent w" "w_rng w2 = w_rng w1"
    using u by (simp_all add: w2_def set_status_def)
  define w3 where "w3 = tx_chunks 0 (chunks64 (frame (response_text L r))) w2"
  have t: "webusb_turn L decide payload (n, en, w) =
      Some (n + 1, en', set_status (''done #'' @ show_nat (unat (n + 1))) w3)"
    using d assms(2) by (simp add: webusb_turn_def wire_ok_def frame_def w2_def w3_def Let_def)
  have "uw_sent w3 = uw_sent w @ chunks64 (frame (response_text L r))"
    using tx_chunks_all_ok [of w2] assms(3) w2 by (simp add: w3_def)
  moreover have "w_rng w3 = w_rng w1" "tx_all_ok (uw_tx w3)"
    using tx_chunks_sent [of 0 "chunks64 (frame (response_text L r))" w2] w2 assms(3) tx_all_ok_sdrop
    by (simp_all add: w3_def)
  ultimately show ?thesis using t i f by (auto simp: set_status_def)
qed

lemma webusb_loop_returns:
  fixes w :: "'z usb_world_scheme"
  assumes "wire_ok L"
  shows "fair (w_rng w) \<Longrightarrow> tx_all_ok (uw_tx w) \<Longrightarrow>
   \<exists>rs en' w'. webusb_loop L jobs (n, en, w) = Some (n + word_of_nat (length jobs), en', w') \<and>
     map response_id rs = map (\<lambda>(payload, decide). payload_id L payload) jobs \<and>
     uw_sent w' = uw_sent w @ concat (map (\<lambda>r. chunks64 (frame (response_text L r))) rs)"
proof (induction jobs arbitrary: n en w)
  case Nil
  then show ?case by (intro exI [of _ "[]"]) simp
next
  case (Cons job jobs)
  obtain payload decide where job: "job = (payload, decide)" by force
  from webusb_turn_returns [OF Cons.prems(1) assms Cons.prems(2), of decide payload n en] obtain r en1 w1 where
    t: "webusb_turn L decide payload (n, en, w) = Some (n + 1, en1, w1)" "response_id r = payload_id L payload"
    "uw_sent w1 = uw_sent w @ chunks64 (frame (response_text L r))" "fair (w_rng w1)" "tx_all_ok (uw_tx w1)" by blast
  from Cons.IH [OF t(4,5), of "n + 1" en1] obtain rs en' w' where
    "webusb_loop L jobs (n + 1, en1, w1) = Some (n + 1 + word_of_nat (length jobs), en', w')"
    "map response_id rs = map (\<lambda>(payload, decide). payload_id L payload) jobs"
    "uw_sent w' = uw_sent w1 @ concat (map (\<lambda>r. chunks64 (frame (response_text L r))) rs)" by blast
  with t show ?case by (intro exI [of _ "r # rs"] exI [of _ en'] exI [of _ w']) (simp add: job add.assoc)
qed

section \<open>Properties\<close>

text \<open>
  C10: every line a host sends is answered, in order, under its own identifier. Cut the framed
  requests into any USB transfers: the reader thread hands exactly those lines to the
  dispatcher, which (on a fair random tape, with a host that takes every transfer) comes
  back with one response per line, whose identifier is that of the request, or, for a line
  that is no request, the \<open>id\<close> found in it or 0. The transfers are the framed responses,
  and a host splitter that reads them gets the response texts, if none exceeds its cap.
\<close>

theorem every_line_is_answered_in_order:
  fixes w :: "'z usb_world_scheme"
  assumes law: "wire_ok L"
    and env: "fair (w_rng w)" "tx_all_ok (uw_tx w)" "uw_sent w = []"
    and sent: "list_all reader_good (map fst jobs)" "concat cs = concat (map frame (map fst jobs))"
  shows "rd_sent (reader_thread i j (reader_start None i j) (map (\<lambda>c. (Read c, True)) cs)) = map fst jobs \<and>
     (\<exists>rs en' w'. webusb_loop L jobs (0, en, w) = Some (word_of_nat (length jobs), en', w') \<and>
        map response_id rs = map (payload_id L \<circ> fst) jobs \<and>
        concat (uw_sent w') = concat (map (\<lambda>r. frame (response_text L r)) rs) \<and>
        (list_all (\<lambda>r. length (response_text L r) \<le> MAX_LINE_BYTES) rs \<longrightarrow>
           feed_all push_feed line_splitter_new (uw_sent w') = (Some (map (response_text L) rs), line_splitter_new)))"
proof -
  from reader.framed_lines_any_chunks [OF HOL.refl sent] have run: "reader_run [] (map Read cs) = (map fst jobs, [])"
    by (auto simp: feed_all_reader split: prod.splits)
  have "rd_sent (reader_thread i j (reader_start None i j) (map (\<lambda>e. (e, True)) (map Read cs))) = map fst jobs"
    using reader_thread_refines [of "reader_start None i j" "map Read cs" "map fst jobs" "[]" i j] run
    by (simp add: reader_start_def)
  moreover obtain rs en' w' where l: "webusb_loop L jobs (0, en, w) = Some (word_of_nat (length jobs), en', w')"
    "map response_id rs = map (payload_id L \<circ> fst) jobs"
    "uw_sent w' = concat (map (\<lambda>r. chunks64 (frame (response_text L r))) rs)"
    using webusb_loop_returns [OF law env(1,2), of jobs 0 en] env(3) by (auto simp: case_prod_unfold comp_def)
  moreover have c: "concat (uw_sent w') = concat (map frame (map (response_text L) rs))"
    unfolding l(3) by (induction rs) (simp_all add: concat_chunks64)
  moreover have "feed_all push_feed line_splitter_new (uw_sent w') = (Some (map (response_text L) rs), line_splitter_new)"
    if "list_all (\<lambda>r. length (response_text L r) \<le> MAX_LINE_BYTES) rs"
  proof -
    have good: "list_all splitter_good (map (response_text L) rs)"
      using that law by (auto simp: list_all_iff splitter_good_def wire_ok_def)
    have idle: "ls_buf s = [] \<longleftrightarrow> s = line_splitter_new" for s
      by (cases s) (simp add: line_splitter_new_def)
    show ?thesis using splitter.framed_lines_any_chunks [unfolded idle, OF HOL.refl good c] by simp
  qed
  ultimately show ?thesis by (auto simp: comp_def)
qed

text \<open>Sample parameters: a request is a ping named by its bytes, a response its identifier.\<close>

definition sample_wire :: wire_libs where
  "sample_wire = app_libs.extend (sample_app [])
     \<lparr>request_of_json = (\<lambda>p. if p = [33] then None else Some \<lparr>rq_id = of_bytes p, rq_method = Ping\<rparr>),
      json_value = (\<lambda>p. Some (JObject [(''id'', JString ''x'')])),
      json_of_response = (\<lambda>r. Inr (filter (\<lambda>b. b \<noteq> NL) (as_bytes (response_id r))))\<rparr>"

definition sample_usb :: "tx_result stream \<Rightarrow> usb_world" where
  "sample_usb tx = disk_world.extend (sample_disk (sconst True))
     \<lparr>uw_clock = sconst 2000, uw_tx = tx, uw_sent = [], uw_status = []\<rparr>"

lemma sample_wire_sel:
  "request_of_json sample_wire p = (if p = [33] then None else Some \<lparr>rq_id = of_bytes p, rq_method = Ping\<rparr>)"
  "json_value sample_wire p = Some (JObject [(''id'', JString ''x'')])"
  "json_of_response sample_wire r = Inr (filter (\<lambda>b. b \<noteq> NL) (as_bytes (response_id r)))"
  by (simp_all add: sample_wire_def app_libs.defs)

lemma sample_wire_ok: "wire_ok sample_wire"
  by (simp add: wire_ok_def response_text_def sample_wire_sel)

lemma sample_usb_sel:
  "uw_tx (sample_usb tx) = tx" "uw_sent (sample_usb tx) = []" "w_rng (sample_usb tx) = w_rng sample_world"
  by (simp_all add: sample_usb_def disk_world.defs sample_disk_def world.defs)

lemma every_line_is_answered_in_order_witness:
  "\<exists>rs en' w'. webusb_loop sample_wire [([65, 66], \<lambda>_. Reject), ([33], \<lambda>_. Reject)]
       (0, sample_engine sample_keystore, sample_usb (sconst (TxOk 64))) = Some (2, en', w') \<and>
     map response_id rs = [''AB'', ''x'']"
proof -
  let ?jobs = "[([65, 66] :: bytes, \<lambda>_ :: approval_request. Reject), ([33], \<lambda>_. Reject)]"
  have t: "tx_all_ok (uw_tx (sample_usb (sconst (TxOk 64))))"
    by (simp add: sample_usb_sel tx_all_ok_def)
  have f: "fair (w_rng (sample_usb (sconst (TxOk 64))))"
    using sample_fair by (simp add: sample_usb_sel)
  have g: "list_all reader_good (map fst ?jobs)"
    by (simp add: reader_good_def NL_def CR_def MAX_LINE_BYTES_def)
  have i: "payload_id sample_wire [65, 66] = ''AB''" "payload_id sample_wire [33] = ''x''"
    by (simp_all add: payload_id_def salvage_id_def sample_wire_sel of_bytes_def) code_simp
  obtain rs en' w' where "webusb_loop sample_wire ?jobs (0, sample_engine sample_keystore, sample_usb (sconst (TxOk 64))) =
      Some (word_of_nat (length ?jobs), en', w')" "map response_id rs = map (payload_id sample_wire \<circ> fst) ?jobs"
    using conjunct2 [OF every_line_is_answered_in_order [OF sample_wire_ok f t sample_usb_sel(2) g HOL.refl, of 1 2
        "sample_engine sample_keystore"]] by blast
  then show ?thesis by (intro exI [of _ rs] exI [of _ en'] exI [of _ w'] conjI) (simp_all add: i del: webusb_loop.simps)
qed

text \<open>
  A transfer lost to a disconnection is not repeated, and the rest of the response is still
  sent. When the host goes away during the first transfer of a response of more than 64
  bytes, the host that reconnects reads the tail of that response as its first line.
\<close>

lemma lost_transfer_leaves_the_tail:
  assumes "NL \<notin> set bs" and "64 \<le> length bs" and "length bs \<le> MAX_LINE_BYTES"
    and "uw_tx w = TxDisconnected ## s" and "tx_all_ok s" and "uw_sent w = []"
  shows "feed_all push_feed line_splitter_new (uw_sent (tx_chunks 0 (chunks64 (frame bs)) w)) =
     (Some [drop 64 bs], line_splitter_new)"
proof -
  obtain b bs' where b: "bs = b # bs'" using assms(2) by (cases bs) auto
  let ?tail = "frame (drop 64 bs)"
  have c: "chunks64 (frame bs) = take 64 (frame bs) # chunks64 ?tail"
    using assms(2) by (simp add: b frame_def drop_Cons')
  let ?w = "set_status ''tx: host disc'' (w\<lparr>uw_tx := s\<rparr>)"
  have "tx_chunks 0 (chunks64 (frame bs)) w = tx_chunks 1 (chunks64 ?tail) ?w"
    unfolding c using assms(4) by (simp add: Let_def)
  moreover have "uw_sent (tx_chunks 1 (chunks64 ?tail) ?w) = chunks64 ?tail"
    using tx_chunks_all_ok [of ?w] assms(5,6) by (simp add: set_status_def)
  moreover have "list_all splitter_good [drop 64 bs]"
    using assms(1,3) by (auto simp: splitter_good_def dest: in_set_dropD)
  moreover have "ls_buf t = [] \<longleftrightarrow> t = line_splitter_new" for t
    by (cases t) (simp add: line_splitter_new_def)
  ultimately show ?thesis
    using splitter.framed_lines_any_chunks [of line_splitter_new "[drop 64 bs]" "chunks64 ?tail"]
    by (simp add: concat_chunks64)
qed

end
