(* ===== verification/SimDisk.thy ===== *)
theory SimDisk
  imports App
begin

text \<open>
  The keystore file of the hosted simulator (\<open>src/persist.rs\<close>): \<open>write\<close> creates a temporary
  file, writes, syncs and renames it, and returns at the first step that fails. A file is
  its bytes and whether they are known to be on the medium; when the power goes, a file
  that was not synced keeps an arbitrary part of its bytes.
\<close>

record sim_fs =
  sf_dir :: bool
  sf_tmp :: "(bytes \<times> bool) option"
  sf_main :: "(bytes \<times> bool) option"

definition power_cut :: "nat \<Rightarrow> sim_fs \<Rightarrow> sim_fs" where
  "power_cut n fs =
     (let cut = map_option (\<lambda>(bs, synced). (if synced then bs else take n bs, True)) in
      fs\<lparr>sf_tmp := cut (sf_tmp fs), sf_main := cut (sf_main fs)\<rparr>)"

text \<open>The file operations of \<open>write\<close>, in its order.\<close>

datatype fs_op = CreateDirAll | CreateTmp | WriteAll bytes | SyncAll | RenameTmp

definition write_ops :: "bytes \<Rightarrow> fs_op list" where
  "write_ops bs = [CreateDirAll, CreateTmp, WriteAll bs, SyncAll, RenameTmp]"

fun fs_effect :: "fs_op \<Rightarrow> sim_fs \<Rightarrow> sim_fs" where
  "fs_effect CreateDirAll fs = fs\<lparr>sf_dir := True\<rparr>"
| "fs_effect CreateTmp fs = fs\<lparr>sf_tmp := Some ([], False)\<rparr>"
| "fs_effect (WriteAll bs) fs = fs\<lparr>sf_tmp := map_option (\<lambda>(old, s). (old @ bs, False)) (sf_tmp fs)\<rparr>"
| "fs_effect SyncAll fs = fs\<lparr>sf_tmp := map_option (\<lambda>(bs, s). (bs, True)) (sf_tmp fs)\<rparr>"
| "fs_effect RenameTmp fs = fs\<lparr>sf_main := sf_tmp fs, sf_tmp := None\<rparr>"

text \<open>
  A write that fails may have written a part; when the power goes during an operation, that
  operation may have taken effect.
\<close>

fun fs_partial :: "nat \<Rightarrow> fs_op \<Rightarrow> sim_fs \<Rightarrow> sim_fs" where
  "fs_partial n (WriteAll bs) fs = fs_effect (WriteAll (take n bs)) fs"
| "fs_partial n _ fs = fs"

fun fs_cut :: "nat \<Rightarrow> fs_op \<Rightarrow> sim_fs \<Rightarrow> sim_fs" where
  "fs_cut n (WriteAll bs) fs = fs_effect (WriteAll (take n bs)) fs"
| "fs_cut n p fs = (if n = 0 then fs else fs_effect p fs)"

datatype fs_outcome = FsOk | FsFail nat | FsCrash nat

text \<open>\<open>Some\<close> is what \<open>write\<close> returns; \<open>None\<close>: the power went first.\<close>

fun run_ops :: "fs_op list \<Rightarrow> fs_outcome list \<Rightarrow> sim_fs \<Rightarrow> bool option \<times> sim_fs" where
  "run_ops [] outs fs = (Some True, fs)"
| "run_ops (p # ps) [] fs = (None, fs)"
| "run_ops (p # ps) (FsOk # outs) fs = run_ops ps outs (fs_effect p fs)"
| "run_ops (p # ps) (FsFail n # outs) fs = (Some False, fs_partial n p fs)"
| "run_ops (p # ps) (FsCrash n # outs) fs = (None, fs_cut n p fs)"

definition sim_write :: "bytes \<Rightarrow> fs_outcome list \<Rightarrow> sim_fs \<Rightarrow> bool option \<times> sim_fs" where
  "sim_write bs outs fs = run_ops (write_ops bs) outs fs"

definition load_keystore_sim :: "'l json_libs_scheme \<Rightarrow> bytes \<Rightarrow> sim_fs \<Rightarrow> keystore_error + keystore" where
  "load_keystore_sim L master fs =
     (case sf_main fs of
        Some (bs, _) \<Rightarrow> keystore_open L master bs
      | None \<Rightarrow> Inr (keystore_new L master))"

text \<open>\<open>KeystoreStore::open\<close>; whether the directory could be made is ignored.\<close>

definition sim_open :: "bool \<Rightarrow> sim_fs \<Rightarrow> sim_fs" where
  "sim_open ok fs = (if ok then fs_effect CreateDirAll fs else fs)"

section \<open>Facts\<close>

definition main_safe :: "sim_fs \<Rightarrow> bool" where
  "main_safe fs \<longleftrightarrow> (\<forall>bs s. sf_main fs = Some (bs, s) \<longrightarrow> s)"

lemma power_cut_main: "main_safe fs \<Longrightarrow> sf_main (power_cut n fs) = sf_main fs"
proof (cases "sf_main fs")
  case (Some x)
  assume "main_safe fs"
  with Some have "x = (fst x, True)" by (cases x) (simp add: main_safe_def)
  with Some show ?thesis by (cases x) (simp add: power_cut_def Let_def)
qed (simp add: power_cut_def Let_def)

lemma other_ops_main:
  "p \<noteq> RenameTmp \<Longrightarrow> sf_main (fs_effect p fs) = sf_main fs"
  "p \<noteq> RenameTmp \<Longrightarrow> sf_main (fs_cut n p fs) = sf_main fs"
  "sf_main (fs_partial n p fs) = sf_main fs"
  by (cases p; simp)+

text \<open>Before the rename nothing happens to the file; the rename puts the temporary file there.\<close>

lemma run_ops_rename:
  "run_ops (ps @ [RenameTmp]) outs fs = (r, fs') \<Longrightarrow> RenameTmp \<notin> set ps \<Longrightarrow>
   sf_main fs' = sf_main fs \<and> r \<noteq> Some True \<or> sf_main fs' = sf_tmp (fold fs_effect ps fs) \<and> r \<noteq> Some False"
proof (induction ps arbitrary: outs fs)
  case Nil
  show ?case
  proof (cases outs)
    case (Cons out outs')
    with Nil show ?thesis by (cases out) (auto split: if_splits)
  qed (use Nil in auto)
next
  case (Cons p ps)
  show ?case
  proof (cases outs)
    case Nil
    then show ?thesis using Cons.prems by auto
  next
    case o: (Cons out outs')
    show ?thesis
    proof (cases out)
      case FsOk
      then have "run_ops (ps @ [RenameTmp]) outs' (fs_effect p fs) = (r, fs')" using Cons.prems(1) o by simp
      from Cons.IH [OF this] Cons.prems(2) show ?thesis by (auto simp: other_ops_main)
    qed (use Cons.prems o in \<open>auto simp: other_ops_main\<close>)
  qed
qed

text \<open>Whatever each step did, the file is the old one or the whole new one, and synced.\<close>

lemma sim_write_cases:
  assumes "sim_write bs outs fs = (r, fs')"
  shows "sf_main fs' = sf_main fs \<and> r \<noteq> Some True \<or> sf_main fs' = Some (bs, True) \<and> r \<noteq> Some False"
  using run_ops_rename [of "[CreateDirAll, CreateTmp, WriteAll bs, SyncAll]" outs fs r fs'] assms
  by (simp add: sim_write_def write_ops_def)

section \<open>Properties\<close>

text \<open>
  C13: the simulator's file write is atomic, and so refines the single step that the rest of the
  model takes a write for. However each of its steps ends, and also when the power goes at
  any moment and unsynced bytes are lost, the keystore that loads afterwards is the one
  before the write or the one written; it is the new one when \<open>write\<close> returned success and
  the old one when it returned an error.
\<close>

theorem simulator_write_is_atomic:
  assumes "main_safe fs" and "sim_write bs outs fs = (r, fs')"
  shows "main_safe fs' \<and>
     (\<exists>new. load_keystore_sim L master (power_cut n fs') =
        (if new then keystore_open L master bs else load_keystore_sim L master fs) \<and>
      (\<forall>ok. r = Some ok \<longrightarrow> ok = new) \<and>
      map_option fst (sf_main (power_cut n fs')) =
        dw_disk (snd (store_write bs \<lparr>w_rng = rng, w_clock = c, dw_disk = map_option fst (sf_main fs),
                                     dw_writes = new ## ws\<rparr>)))"
proof -
  from sim_write_cases [OF assms(2)] consider
    (old) "sf_main fs' = sf_main fs" "r \<noteq> Some True" | (new) "sf_main fs' = Some (bs, True)" "r \<noteq> Some False"
    by blast
  then show ?thesis
  proof cases
    case old
    then have s: "main_safe fs'" using assms(1) by (simp add: main_safe_def)
    have m: "sf_main (power_cut n fs') = sf_main fs" using power_cut_main [OF s, of n] old(1) by simp
    show ?thesis
      by (intro conjI exI [of _ False] s) (use m old(2) in \<open>auto simp: load_keystore_sim_def store_write_def\<close>)
  next
    case new
    then have s: "main_safe fs'" by (simp add: main_safe_def)
    have m: "sf_main (power_cut n fs') = Some (bs, True)" using power_cut_main [OF s, of n] new(1) by simp
    show ?thesis
      by (intro conjI exI [of _ True] s) (use m new(2) in \<open>auto simp: load_keystore_sim_def store_write_def\<close>)
  qed
qed

lemma simulator_write_is_atomic_witness:
  "\<exists>new. load_keystore_sim (sample_json []) [7] (power_cut 1 (snd (sim_write [5] [FsOk, FsOk, FsCrash 0]
       \<lparr>sf_dir = True, sf_tmp = None, sf_main = None\<rparr>))) =
     (if new then keystore_open (sample_json []) [7] [5] else Inr (keystore_new (sample_json []) [7]))"
proof -
  let ?fs = "\<lparr>sf_dir = True, sf_tmp = None, sf_main = None\<rparr>"
  obtain r fs' where w: "sim_write [5] [FsOk, FsOk, FsCrash 0] ?fs = (r, fs')" by force
  have "main_safe ?fs" by (simp add: main_safe_def)
  have l: "load_keystore_sim (sample_json []) [7] ?fs = Inr (keystore_new (sample_json []) [7])"
    by (simp add: load_keystore_sim_def)
  have f: "fs' = snd (sim_write [5] [FsOk, FsOk, FsCrash 0] ?fs)" by (simp only: w snd_conv)
  show ?thesis
    using conjunct2 [OF simulator_write_is_atomic [OF \<open>main_safe ?fs\<close> w, of "sample_json []" "[7]" 1]]
    unfolding l f by blast
qed

end
