(* ===== verification/CommitSteps.thy ===== *)
theory CommitSteps
  imports AppRun
begin

text \<open>
  \<open>commit_store_mutation\<close> of \<open>engine.rs\<close> at the grain of its locks. The transport thread takes
  the store lock three times: to snapshot and mutate, in the hook to seal and write, and to
  put the snapshot back when the hook failed. Between two of them the UI thread may run
  callbacks, each of which holds the lock from its snapshot to its write.
\<close>

section \<open>The steps\<close>

datatype commit_phase =
    Begin
  | Mutated "credential_record list"          \<comment> \<open>the snapshot; the hook is next\<close>
  | HookFailed "credential_record list"       \<comment> \<open>the snapshot is still to be put back\<close>
  | Committed "engine_error + unit"

text \<open>One locked section of the transport thread.\<close>

fun commit_turn ::
  "'l json_libs_scheme \<Rightarrow> (keystore \<Rightarrow> 'z disk_world_scheme \<Rightarrow> (engine_error + unit) \<times> keystore \<times> 'z disk_world_scheme) \<Rightarrow>
   commit_phase \<Rightarrow> keystore \<Rightarrow> 'z disk_world_scheme \<Rightarrow> commit_phase \<times> keystore \<times> 'z disk_world_scheme"
where
  "commit_turn L mutate Begin ks w =
     (case mutate ks w of
        (Inl e, ks1, w1) \<Rightarrow> (Committed (Inl e), ks1, w1)
      | (Inr _, ks1, w1) \<Rightarrow> (Mutated (ks_snapshot ks), ks1, w1))"
| "commit_turn L mutate (Mutated snapshot) ks w =
     (case on_write L ks w of
        (True, w1) \<Rightarrow> (Committed (Inr ()), ks, w1)
      | (False, w1) \<Rightarrow> (HookFailed snapshot, ks, w1))"
| "commit_turn L mutate (HookFailed snapshot) ks w =
     (Committed (Inl (Internal, ''persist failed'')), ks_restore_snapshot snapshot ks, w)"
| "commit_turn L mutate (Committed r) ks w = (Committed r, ks, w)"

datatype commit_event = CommitTurn | UserStep app_op

fun commit_step ::
  "'l app_libs_scheme \<Rightarrow> (keystore \<Rightarrow> 'z disk_world_scheme \<Rightarrow> (engine_error + unit) \<times> keystore \<times> 'z disk_world_scheme) \<Rightarrow>
   commit_event \<Rightarrow> commit_phase \<times> 'z disk_world_scheme running \<Rightarrow>
   (commit_phase \<times> 'z disk_world_scheme running) option"
where
  "commit_step L mutate CommitTurn (ph, s) =
     (case commit_turn L mutate ph (ap_keystore (rn_app s)) (rn_world s) of
        (ph', ks, w) \<Rightarrow> Some (ph', s\<lparr>rn_app := (rn_app s)\<lparr>ap_keystore := ks\<rparr>, rn_world := w\<rparr>))"
| "commit_step L mutate (UserStep p) (ph, s) =
     map_option (Pair ph) (app_step L p s)"

fun commit_run ::
  "'l app_libs_scheme \<Rightarrow> (keystore \<Rightarrow> 'z disk_world_scheme \<Rightarrow> (engine_error + unit) \<times> keystore \<times> 'z disk_world_scheme) \<Rightarrow>
   commit_event list \<Rightarrow> commit_phase \<times> 'z disk_world_scheme running \<Rightarrow>
   (commit_phase \<times> 'z disk_world_scheme running) option"
where
  "commit_run L mutate [] c = Some c"
| "commit_run L mutate (e # es) c = Option.bind (commit_step L mutate e c) (commit_run L mutate es)"

lemma commit_run_append:
  "commit_run L mutate (es @ fs) c = Option.bind (commit_run L mutate es c) (commit_run L mutate fs)"
proof (induction es arbitrary: c)
  case (Cons e es)
  then show ?case by (cases "commit_step L mutate e c") simp_all
qed simp

section \<open>Without interruption\<close>

lemma uninterrupted_commit:
  assumes "commit_store_mutation (keystore_ops L) (on_write L) mutate (engine_of s) (rn_world s) = (r, en, w)"
  shows "commit_run L mutate [CommitTurn, CommitTurn, CommitTurn] (Begin, s) = Some (Committed r, put_engine en w s)"
proof -
  obtain x ks w1 where m: "mutate (ap_keystore (rn_app s)) (rn_world s) = (x, ks, w1)" using prod_cases3 by blast
  obtain ok w2 where h: "on_write L ks w1 = (ok, w2)" by force
  show ?thesis
    using assms m h
    by (cases x; cases ok)
      (auto simp: commit_store_mutation_def engine_of_def put_engine_def keystore_ops_def Let_def bind_eq_Some_conv)
qed

section \<open>Interleaved\<close>

text \<open>Callbacks that leave the keystore alone.\<close>

fun read_only_op :: "app_op \<Rightarrow> bool" where
  "read_only_op (SearchChanged q) = True"
| "read_only_op RefreshList = True"
| "read_only_op (ArchiveMode m) = True"
| "read_only_op (ImportPick f) = True"
| "read_only_op ImportCancel = True"
| "read_only_op (BackupExport pass t) = True"
| "read_only_op (RestorePick pass f) = True"
| "read_only_op RestoreCancel = True"
| "read_only_op _ = False"

fun read_only_event :: "commit_event \<Rightarrow> bool" where
  "read_only_event CommitTurn = True"
| "read_only_event (UserStep p) = read_only_op p"

lemma read_only_step:
  assumes "app_step L p s = Some s'" and "read_only_op p"
  shows "ap_keystore (rn_app s') = ap_keystore (rn_app s) \<and> dw_disk (rn_world s') = dw_disk (rn_world s)"
  using assms
  by (cases p) (auto simp: on_both_def on_app_def on_search_changed_def on_refresh_list_def export_encrypted_backup_def Let_def
      split: prod.splits sum.splits if_splits backup_target.splits dest!: app_refresh_disk on_disk.exporting)

text \<open>What holds between the steps, whoever runs, and what holds if only readers run.\<close>

fun commit_inv :: "'l json_libs_scheme \<Rightarrow> bytes \<Rightarrow> commit_phase \<Rightarrow> keystore \<Rightarrow> 'z disk_world_scheme \<Rightarrow> bool" where
  "commit_inv L master Begin ks w = synced L master ks w"
| "commit_inv L master (Committed (Inr u)) ks w = synced L master ks w"
| "commit_inv L master ph ks w = (ks_key ks = derive_key L master)"

fun alone_inv :: "'l json_libs_scheme \<Rightarrow> bytes \<Rightarrow> keystore \<Rightarrow> commit_phase \<Rightarrow> keystore \<Rightarrow> 'z disk_world_scheme \<Rightarrow> bool" where
  "alone_inv L master ks0 (Mutated sn) ks w \<longleftrightarrow> sn = ks_snapshot ks0 \<and> ks_key ks = ks_key ks0 \<and> synced L master ks0 w"
| "alone_inv L master ks0 (HookFailed sn) ks w \<longleftrightarrow> sn = ks_snapshot ks0 \<and> ks_key ks = ks_key ks0 \<and> synced L master ks0 w"
| "alone_inv L master ks0 (Committed (Inr u)) ks w \<longleftrightarrow> synced L master ks w"
| "alone_inv L master ks0 ph ks w \<longleftrightarrow> ks = ks0 \<and> synced L master ks w"

text \<open>A mutation that fails leaves the store, as \<open>upsert\<close> promises; none touches key or disk.\<close>

definition mutation_ok :: "(keystore \<Rightarrow> 'z disk_world_scheme \<Rightarrow> (engine_error + unit) \<times> keystore \<times> 'z disk_world_scheme) \<Rightarrow> bool" where
  "mutation_ok mutate \<longleftrightarrow> (\<forall>ks w r ks' w'. mutate ks w = (r, ks', w') \<longrightarrow>
     ks_key ks' = ks_key ks \<and> dw_disk w' = dw_disk w \<and> (\<forall>e. r = Inl e \<longrightarrow> ks' = ks))"

lemma upsert_never_fails: "ks_upsert L ori user pw lab ks w \<noteq> (Inl e, ks', w')"
  by (auto elim: ks_upsert_cases)

lemma upsert_mutation_ok: "mutation_ok (upsert_mutation (keystore_ops L) ori user pw lab)"
  by (auto simp: mutation_ok_def upsert_mutation_def keystore_ops_def upsert_never_fails
      split: prod.splits sum.splits dest: ks_upsert_disk)

lemma commit_turn_inv:
  assumes laws: "disk_laws L" and m: "mutation_ok mutate" and c: "commit_turn L mutate ph ks w = (ph', ks', w')"
  shows "commit_inv L master ph ks w \<Longrightarrow> commit_inv L master ph' ks' w'"
    and "alone_inv L master ks0 ph ks w \<Longrightarrow> alone_inv L master ks0 ph' ks' w'"
proof -
  note mut = m [unfolded mutation_ok_def, rule_format]
  have hook: "if ok then synced L master ks w1 else dw_disk w1 = dw_disk w"
    if "on_write L ks w = (ok, w1)" "ks_key ks = derive_key L master" for ok w1
    by (rule persist_synced [OF laws that(2) that(1) [unfolded on_write_def]])
  show "commit_inv L master ph ks w \<Longrightarrow> commit_inv L master ph' ks' w'"
  proof (cases ph)
    case (Mutated sn)
    then show "commit_inv L master ph ks w \<Longrightarrow> ?thesis" using c hook by (auto split: prod.splits bool.splits)
  next
    case (Committed r)
    then show "commit_inv L master ph ks w \<Longrightarrow> ?thesis" using c by simp
  qed (use c in \<open>auto simp: synced_def ks_restore_snapshot_def split: prod.splits sum.splits dest: mut\<close>)
  show "alone_inv L master ks0 ph ks w \<Longrightarrow> alone_inv L master ks0 ph' ks' w'"
  proof (cases ph)
    case (Mutated sn)
    then show "alone_inv L master ks0 ph ks w \<Longrightarrow> ?thesis"
      using c hook by (auto simp: synced_def split: prod.splits bool.splits)
  next
    case (Committed r)
    then show "alone_inv L master ks0 ph ks w \<Longrightarrow> ?thesis" using c by simp
  qed (use c in \<open>auto simp: synced_def split: prod.splits sum.splits dest: mut\<close>)
qed

text \<open>Along a run.\<close>

lemma user_step_inv:
  assumes laws: "disk_laws L" and a: "app_step L p s = Some s'"
  shows "commit_inv L master ph (ap_keystore (rn_app s)) (rn_world s) \<Longrightarrow>
         commit_inv L master ph (ap_keystore (rn_app s')) (rn_world s')"
    and "alone_inv L master ks0 ph (ap_keystore (rn_app s)) (rn_world s) \<Longrightarrow> read_only_op p \<Longrightarrow>
         alone_inv L master ks0 ph (ap_keystore (rn_app s')) (rn_world s')"
proof -
  note sync = callback_invariant.ui_step [OF synced_invariant [OF laws] a]
  note key = same_key.ui_step [OF a]
  show "commit_inv L master ph (ap_keystore (rn_app s)) (rn_world s) \<Longrightarrow>
        commit_inv L master ph (ap_keystore (rn_app s')) (rn_world s')"
    by (cases "(L, master, ph, ap_keystore (rn_app s), rn_world s)" rule: commit_inv.cases)
      (use sync key in auto)
  show "alone_inv L master ks0 ph (ap_keystore (rn_app s')) (rn_world s')"
    if "alone_inv L master ks0 ph (ap_keystore (rn_app s)) (rn_world s)" "read_only_op p"
    using that(1) read_only_step [OF a that(2)]
    by (cases "(L, master, ks0, ph, ap_keystore (rn_app s), rn_world s)" rule: alone_inv.cases)
      (auto simp: synced_def)
qed

lemma commit_run_inv:
  assumes laws: "disk_laws L" and m: "mutation_ok mutate"
  shows "commit_run L mutate es (ph, s) = Some (ph', s') \<Longrightarrow>
    commit_inv L master ph (ap_keystore (rn_app s)) (rn_world s) \<Longrightarrow>
    commit_inv L master ph' (ap_keystore (rn_app s')) (rn_world s')"
  and "commit_run L mutate es (ph, s) = Some (ph', s') \<Longrightarrow>
    alone_inv L master ks0 ph (ap_keystore (rn_app s)) (rn_world s) \<Longrightarrow> list_all read_only_event es \<Longrightarrow>
    alone_inv L master ks0 ph' (ap_keystore (rn_app s')) (rn_world s')"
proof (induction es arbitrary: ph s)
  case (Cons e es)
  {
    case 1
    then obtain c where c: "commit_step L mutate e (ph, s) = Some c" "commit_run L mutate es c = Some (ph', s')"
      by (auto simp: bind_eq_Some_conv)
    obtain ph1 s1 where c1: "c = (ph1, s1)" by force
    have "commit_inv L master ph1 (ap_keystore (rn_app s1)) (rn_world s1)"
    proof (cases e)
      case CommitTurn
      then show ?thesis using c(1) 1(2) commit_turn_inv(1) [OF laws m] by (auto simp: c1 split: prod.splits)
    next
      case (UserStep p)
      then show ?thesis using c(1) 1(2) user_step_inv(1) [OF laws] by (auto simp: c1 split: if_splits)
    qed
    with Cons.IH(1) c(2) show ?case by (simp add: c1)
  next
    case 2
    then obtain c where c: "commit_step L mutate e (ph, s) = Some c" "commit_run L mutate es c = Some (ph', s')"
      by (auto simp: bind_eq_Some_conv)
    obtain ph1 s1 where c1: "c = (ph1, s1)" by force
    have "alone_inv L master ks0 ph1 (ap_keystore (rn_app s1)) (rn_world s1)"
    proof (cases e)
      case CommitTurn
      then show ?thesis using c(1) 2(2) commit_turn_inv(2) [OF laws m] by (auto simp: c1 split: prod.splits)
    next
      case (UserStep p)
      then show ?thesis using c(1) 2(2,3) user_step_inv(2) [OF laws] by (auto simp: c1 split: if_splits)
    qed
    with Cons.IH(2) c(2) 2(3) show ?case by (simp add: c1)
  }
qed simp_all

interpretation on_writes: world_steps "\<lambda>w w' :: 'z disk_world_scheme. dw_writes w' = dw_writes w"
  by unfold_locales (auto simp: fill_bytes_def now_secs_def Let_def)

lemma persist_fails:
  assumes "\<not> shd (dw_writes w)" and "persist_keystore L ks w = (ok, w')"
  shows "\<not> ok"
proof -
  obtain b w1 where b: "keystore_seal L ks w = (b, w1)" by force
  from on_writes.keystore_sealing [OF b] have "dw_writes w1 = dw_writes w" .
  with assms b show ?thesis by (cases b) (auto simp: persist_keystore_def store_write_def Let_def)
qed

lemma refresh_writes: "app_refresh L a w = (a', w') \<Longrightarrow> dw_writes w' = dw_writes w"
  by (auto simp: app_refresh_def split: prod.splits dest: on_writes.refreshing)

section \<open>Properties\<close>

text \<open>
  C16: the three locked sections of a commit, when user callbacks run between them. Undisturbed
  they are the single step the rest of the model takes. If the hook's write succeeds, memory
  and disk agree at the end whichever callbacks ran in between; if the commit is refused and
  only callbacks ran that do not write, the keystore is the one from before, in memory and on
  disk.
\<close>

theorem interleaved_commit_stays_on_disk:
  assumes laws: "disk_laws L" and s: "running_synced L master s"
    and run: "commit_run L (upsert_mutation (keystore_ops L) ori user pw lab) es (Begin, s) = Some (Committed r, s')"
  shows "(r = Inr () \<longrightarrow> running_synced L master s') \<and>
     (r \<noteq> Inr () \<longrightarrow> list_all read_only_event es \<longrightarrow>
        running_synced L master s' \<and> ap_keystore (rn_app s') = ap_keystore (rn_app s)) \<and>
     commit_run L (upsert_mutation (keystore_ops L) ori user pw lab) [CommitTurn, CommitTurn, CommitTurn] (Begin, s) =
       (case commit_store_mutation (keystore_ops L) (on_write L) (upsert_mutation (keystore_ops L) ori user pw lab)
               (engine_of s) (rn_world s) of
          (r, en, w) \<Rightarrow> Some (Committed r, put_engine en w s))"
proof (intro conjI impI)
  note m = upsert_mutation_ok [of L ori user pw lab]
  show "running_synced L master s'" if "r = Inr ()"
    using commit_run_inv(1) [OF laws m run, of master] s that by (simp add: running_synced_def)
  show "running_synced L master s'" "ap_keystore (rn_app s') = ap_keystore (rn_app s)"
    if "r \<noteq> Inr ()" "list_all read_only_event es"
    using commit_run_inv(2) [OF laws m run, of master "ap_keystore (rn_app s)"] s that
    by (cases r; simp add: running_synced_def)+
  show "commit_run L (upsert_mutation (keystore_ops L) ori user pw lab) [CommitTurn, CommitTurn, CommitTurn] (Begin, s) =
     (case commit_store_mutation (keystore_ops L) (on_write L) (upsert_mutation (keystore_ops L) ori user pw lab)
             (engine_of s) (rn_world s) of
        (r, en, w) \<Rightarrow> Some (Committed r, put_engine en w s))"
    using uninterrupted_commit [of L "upsert_mutation (keystore_ops L) ori user pw lab" s]
    by (cases "commit_store_mutation (keystore_ops L) (on_write L) (upsert_mutation (keystore_ops L) ori user pw lab)
             (engine_of s) (rn_world s)") (simp del: commit_run.simps)
qed

text \<open>
  A refused commit takes a saved edit of the user back. When a callback runs between the
  engine's mutation and its hook and its own write succeeds, and then the write of the hook
  fails, the engine puts back the snapshot from before the callback: the edit the user saw
  saved is gone from memory, while a restart loads the edit and also the change that the
  host was told had failed.
\<close>

lemma failed_commit_undoes_a_saved_edit:
  assumes laws: "disk_laws L" and s: "running_synced L master s"
    and edit: "commit_run L (upsert_mutation (keystore_ops L) ori user pw lab) [CommitTurn, UserStep p] (Begin, s) = Some (ph, s1)"
    and saved: "running_synced L master s1" and fails: "shd (dw_writes (rn_world s1)) = False"
  shows "\<exists>s'. commit_run L (upsert_mutation (keystore_ops L) ori user pw lab)
        [CommitTurn, UserStep p, CommitTurn, CommitTurn] (Begin, s) = Some (Committed (Inl (Internal, ''persist failed'')), s') \<and>
     ap_keystore (rn_app s') = ap_keystore (rn_app s) \<and>
     load_keystore L master (dw_disk (rn_world s')) = Inr (ap_keystore (rn_app s1))"
proof -
  let ?m = "upsert_mutation (keystore_ops L) ori user pw lab"
  obtain x ks w where u: "ks_upsert L ori user pw lab (ap_keystore (rn_app s)) (rn_world s) = (x, ks, w)" using prod_cases3 by blast
  have "x = Inr ()" using u by (cases rule: ks_upsert_cases)
  with u have t: "commit_turn L ?m Begin (ap_keystore (rn_app s)) (rn_world s) =
      (Mutated (ks_snapshot (ap_keystore (rn_app s))), ks, w)"
    by (simp add: upsert_mutation_def keystore_ops_def)
  then have ph: "ph = Mutated (ks_snapshot (ap_keystore (rn_app s)))"
    using edit by (auto simp del: commit_turn.simps simp: bind_eq_Some_conv split: if_splits)
  obtain ok w2 where h: "on_write L (ap_keystore (rn_app s1)) (rn_world s1) = (ok, w2)" by force
  have k: "ks_key (ap_keystore (rn_app s1)) = derive_key L master" "ks_key (ap_keystore (rn_app s)) = derive_key L master"
    using s saved by (simp_all add: running_synced_def synced_def)
  have no: "\<not> ok" using persist_fails [of "rn_world s1" L "ap_keystore (rn_app s1)" ok w2] h fails by (simp add: on_write_def)
  have d: "dw_disk w2 = dw_disk (rn_world s1)"
    using persist_synced [OF laws k(1) h [unfolded on_write_def]] no by simp
  let ?s = "s1\<lparr>rn_app := (rn_app s1)\<lparr>ap_keystore := ap_keystore (rn_app s)\<rparr>, rn_world := w2\<rparr>"
  have "commit_run L ?m [CommitTurn, CommitTurn] (ph, s1) = Some (Committed (Inl (Internal, ''persist failed'')), ?s)"
    using h no k by (simp add: ph)
  then have "commit_run L ?m ([CommitTurn, UserStep p] @ [CommitTurn, CommitTurn]) (Begin, s) =
      Some (Committed (Inl (Internal, ''persist failed'')), ?s)"
    by (simp only: commit_run_append edit bind.simps)
  then show ?thesis
    using saved d by (intro exI [of _ ?s]) (simp add: running_synced_def synced_def del: commit_run.simps)
qed

text \<open>
  Concrete runs: a host stores one credential, the user saves another in between. The JSON
  parameter has a text for the list of both.
\<close>

definition raced_records :: "credential_record list" where
  "raced_records =
     [\<lparr>cr_id = 0, cr_origin = ''https://example.com'', cr_username = ''ann'', cr_password = ''host'', cr_label = [],
       cr_color = next_automatic_color (keystore_new sample_libs []), cr_archived = False, cr_notes = None,
       cr_created_at = 0, cr_last_used_at = 0\<rparr>,
      \<lparr>cr_id = 0, cr_origin = ''https://example.com'', cr_username = ''bob'', cr_password = ''user'', cr_label = ''x'',
       cr_color = 1, cr_archived = False, cr_notes = None, cr_created_at = 0, cr_last_used_at = 0\<rparr>]"

abbreviation raced_libs :: app_libs where
  "raced_libs \<equiv> sample_app raced_records"

definition raced_start :: "bool stream \<Rightarrow> disk_world running" where
  "raced_start writes =
     \<lparr>rn_app = app_new (keystore_new raced_libs [7]), rn_session = session_new, rn_world = sample_disk writes\<rparr>"

lemma raced_start_synced: "running_synced raced_libs [7] (raced_start writes)"
  by (simp add: running_synced_def synced_def raced_start_def app_new_def sample_disk_def world.defs
      load_keystore_def keystore_new_def)

lemma raced_upsert:
  assumes "w_rng w = sconst 0" "w_clock w = sconst 0"
  obtains w' where "ks_upsert raced_libs ''https://example.com'' ''ann'' ''host'' None (keystore_new raced_libs [7]) w =
      (Inr (), (keystore_new raced_libs [7])\<lparr>ks_records := [raced_records ! 0]\<rparr>, w')"
    "w_rng w' = sconst 0" "w_clock w' = sconst 0" "dw_writes w' = dw_writes w"
  using assms
  by (simp add: ks_upsert_def keystore_new_def now_secs_def credential_record_new_def uuid_new_v4_def fill_bytes_def
      Let_def ks_add_def raced_records_def next_automatic_color_def sample_app_sel sample_json_sel sample_libs_def
      numeral_eq_Suc)

lemma raced_json: "json_of_records raced_libs raced_records = Inr [1]"
  by (simp add: sample_app_def sample_json_def json_libs.defs libs.defs)

lemma raced_save:
  assumes "w_rng w = sconst 0" "w_clock w = sconst 0" "shd (dw_writes w)"
    and a: "ap_keystore a = (keystore_new raced_libs [7])\<lparr>ks_records := [raced_records ! 0]\<rparr>"
  obtains a' w' where "on_save_new raced_libs ''https://example.com'' ''bob'' ''user'' ''x'' 1 a w = (a', w')"
    "synced raced_libs [7] (ap_keystore a') w'" "ks_records (ap_keystore a') = raced_records" "dw_writes w' = stl (dw_writes w)"
proof -
  let ?ks = "(ap_keystore a)\<lparr>ks_records := raced_records\<rparr>"
  have o: "origin_parse raced_libs ''https://example.com'' = Inr (Origin ''https://example.com'')"
    by (simp add: origin_parse_def sample_app_sel sample_json_sel) code_simp
  have v: "validate_new_fields raced_libs ''https://example.com'' ''bob'' ''user'' ''x'' = Inr ()"
    unfolding validate_new_fields_def o by code_simp
  obtain r w1 where r: "credential_record_new raced_libs ''https://example.com'' ''bob'' ''user'' w = (r, w1)"
    "r\<lparr>cr_label := ''x'', cr_color := 1\<rparr> = raced_records ! 1" "dw_writes w1 = dw_writes w"
    using assms(1,2)
    by (simp add: now_secs_def credential_record_new_def uuid_new_v4_def fill_bytes_def Let_def raced_records_def
        sample_app_sel sample_json_sel sample_libs_def numeral_eq_Suc)
  have k: "ks_add (raced_records ! 1) (ap_keystore a) = ?ks"
    by (simp add: a ks_add_def raced_records_def)
  have key: "ks_key ?ks = derive_key raced_libs [7]" by (simp add: a keystore_new_def)
  obtain w2 where p: "persist_keystore raced_libs ?ks w1 = (True, w2)" "synced raced_libs [7] ?ks w2"
    "dw_writes w2 = stl (dw_writes w1)"
    by (rule persist_succeeds [OF sample_app_disk_laws sample_app_laws(2) key, of "[1]" w1])
      (use assms(3) r(3) raced_json in simp_all)
  obtain a2 w3 where f: "app_refresh raced_libs (a\<lparr>ap_keystore := ?ks\<rparr>) w2 = (a2, w3)" by force
  show thesis
  proof (rule that)
    show "on_save_new raced_libs ''https://example.com'' ''bob'' ''user'' ''x'' 1 a w =
        (invoke_backward (clear_editing_error a2), w3)"
      using v o r k p f by (simp add: on_save_new_def persist_or_restore_def Let_def)
  qed (use app_refresh_disk [OF f] refresh_writes [OF f] p(2,3) r(3) in \<open>simp_all add: synced_def\<close>)
qed

lemma failed_commit_undoes_a_saved_edit_sample:
  "\<exists>s'. commit_run raced_libs (upsert_mutation (keystore_ops raced_libs) ''https://example.com'' ''ann'' ''host'' None)
       [CommitTurn, UserStep (SaveNew ''https://example.com'' ''bob'' ''user'' ''x'' 1), CommitTurn, CommitTurn]
       (Begin, raced_start (True ## False ## sconst True)) =
         Some (Committed (Inl (Internal, ''persist failed'')), s') \<and>
     ks_records (ap_keystore (rn_app s')) = [] \<and>
     map_option ks_records (case load_keystore raced_libs [7] (dw_disk (rn_world s')) of Inl _ \<Rightarrow> None | Inr ks \<Rightarrow> Some ks) =
       Some raced_records"
proof -
  let ?m = "upsert_mutation (keystore_ops raced_libs) ''https://example.com'' ''ann'' ''host'' None"
  let ?p = "SaveNew ''https://example.com'' ''bob'' ''user'' ''x'' 1"
  let ?s = "raced_start (True ## False ## sconst True)"
  have w: "w_rng (rn_world ?s) = sconst 0" "w_clock (rn_world ?s) = sconst 0"
    "ap_keystore (rn_app ?s) = keystore_new raced_libs [7]" "dw_writes (rn_world ?s) = True ## False ## sconst True"
    by (simp_all add: raced_start_def sample_disk_def sample_world_def world.defs app_new_def)
  obtain w1 where u: "ks_upsert raced_libs ''https://example.com'' ''ann'' ''host'' None (keystore_new raced_libs [7]) (rn_world ?s) =
      (Inr (), (keystore_new raced_libs [7])\<lparr>ks_records := [raced_records ! 0]\<rparr>, w1)"
    "w_rng w1 = sconst 0" "w_clock w1 = sconst 0" "dw_writes w1 = True ## False ## sconst True"
    using raced_upsert [OF w(1,2)] w(4) by metis
  let ?a = "(rn_app ?s)\<lparr>ap_keystore := (keystore_new raced_libs [7])\<lparr>ks_records := [raced_records ! 0]\<rparr>\<rparr>"
  obtain a' w2 where v: "on_save_new raced_libs ''https://example.com'' ''bob'' ''user'' ''x'' 1 ?a w1 = (a', w2)"
    "synced raced_libs [7] (ap_keystore a') w2" "ks_records (ap_keystore a') = raced_records" "dw_writes w2 = False ## sconst True"
    by (rule raced_save [OF u(2,3), of ?a]) (simp_all add: u(4))
  obtain ph s1 where e: "commit_run raced_libs ?m [CommitTurn, UserStep ?p] (Begin, ?s) = Some (ph, s1)"
    "rn_app s1 = a'" "rn_world s1 = w2"
    using u(1) v(1) w(3) by (simp add: upsert_mutation_def keystore_ops_def on_both_def)
  have saved: "running_synced raced_libs [7] s1" using v(2) e(2,3) by (simp add: running_synced_def)
  from failed_commit_undoes_a_saved_edit [OF sample_app_disk_laws raced_start_synced e(1) saved] v e w(3)
  show ?thesis by (auto simp: keystore_new_def simp del: commit_run.simps)
qed

lemma interleaved_commit_stays_on_disk_witness:
  "\<exists>r s'. commit_run raced_libs (upsert_mutation (keystore_ops raced_libs) ''https://example.com'' ''ann'' ''host'' None)
       [CommitTurn, UserStep RefreshList, CommitTurn, CommitTurn] (Begin, raced_start (sconst False)) =
         Some (Committed r, s') \<and> running_synced raced_libs [7] s'"
proof -
  let ?m = "upsert_mutation (keystore_ops raced_libs) ''https://example.com'' ''ann'' ''host'' None"
  let ?es = "[CommitTurn, UserStep RefreshList, CommitTurn, CommitTurn]"
  have m: "\<exists>r s'. commit_run L mutate ?es (Begin, s) = Some (Committed r, s')"
    for L :: app_libs and s :: "disk_world running" and mutate
    by (auto simp: on_both_def split: prod.splits sum.splits bool.splits)
  then obtain r s' where c: "commit_run raced_libs ?m ?es (Begin, raced_start (sconst False)) = Some (Committed r, s')" by blast
  have h: "list_all read_only_event ?es" by simp
  from interleaved_commit_stays_on_disk [OF sample_app_disk_laws raced_start_synced c] h c show ?thesis by blast
qed

end
