(* ===== verification/Vault.thy ===== *)
theory Vault
  imports KeystoreProps
begin

text \<open>
  An abstract specification of the keystore: a map from origin and user name to password and
  archived flag. Each operation that stores records (a host's upsert, a CSV import, a
  backup restore) refines a plain map update, and what a host may learn of a key
  (\<open>probe\<close>) is a function of the map.
\<close>

section \<open>The abstract vault\<close>

type_synonym vault = "string \<times> string \<Rightarrow> (string \<times> bool) option"

definition secret_of :: "credential_record \<Rightarrow> string \<times> bool" where
  "secret_of r = (cr_password r, cr_archived r)"

definition vault_of :: "credential_record list \<Rightarrow> vault" where
  "vault_of rs k = map_option secret_of (find (\<lambda>r. rec_key r = k) rs)"

text \<open>A stored value takes the place of an old one unless the policy keeps the old one.\<close>

definition vault_put :: "import_policy \<Rightarrow> string \<times> string \<Rightarrow> string \<times> bool \<Rightarrow> vault \<Rightarrow> vault" where
  "vault_put policy k x v = (if v k = None \<or> policy = Replace then v(k \<mapsto> x) else v)"

definition vault_import :: "import_policy \<Rightarrow> import_item \<Rightarrow> vault \<Rightarrow> vault" where
  "vault_import policy item = vault_put policy (item_key item) (ii_password item, False)"

definition vault_restore :: "import_policy \<Rightarrow> credential_record \<Rightarrow> vault \<Rightarrow> vault" where
  "vault_restore policy r = vault_put policy (rec_key r) (secret_of r)"

section \<open>Lists\<close>

lemma find_update_position:
  "position p xs = Some i \<Longrightarrow> p y \<Longrightarrow> find p (xs[i := y]) = Some y"
  by (induction p xs arbitrary: i rule: position.induct) (auto split: if_splits)

lemma find_update_other:
  "\<not> q y \<Longrightarrow> i < length xs \<Longrightarrow> \<not> q (xs ! i) \<Longrightarrow> find q (xs[i := y]) = find q xs"
proof (induction xs arbitrary: i)
  case (Cons x xs)
  then show ?case by (cases i) auto
qed simp

lemma vault_append:
  "vault_of (rs @ [r]) = (if vault_of rs (rec_key r) = None then (vault_of rs)(rec_key r \<mapsto> secret_of r) else vault_of rs)"
  by (rule ext) (auto simp: vault_of_def find_append split: option.splits)

lemma vault_update:
  assumes "position (\<lambda>r. rec_key r = k) rs = Some i" and "rec_key r = k"
  shows "vault_of (rs[i := r]) = (vault_of rs)(k \<mapsto> secret_of r)"
proof (rule ext)
  fix k'
  note p = position_Some [OF assms(1)]
  show "vault_of (rs[i := r]) k' = ((vault_of rs)(k \<mapsto> secret_of r)) k'"
  proof (cases "k' = k")
    case True
    then show ?thesis using find_update_position [OF assms(1), of r] assms(2) by (simp add: vault_of_def)
  next
    case False
    then show ?thesis using p assms(2) by (simp add: vault_of_def find_update_other)
  qed
qed

lemma vault_None: "vault_of rs k = None \<longleftrightarrow> position (\<lambda>r. rec_key r = k) rs = None"
  by (auto simp: vault_of_def find_None_iff position_None)

lemma vault_Some:
  assumes "position (\<lambda>r. rec_key r = k) rs = Some i"
  obtains x where "vault_of rs k = Some x"
proof (cases "vault_of rs k")
  case None
  with assms show ?thesis by (simp add: vault_None)
qed

lemma matches_key_fun: "matches_key ori user = (\<lambda>r. rec_key r = (ori, user))"
  by (rule ext) (simp add: matches_key_rec)

section \<open>One item\<close>

lemma import_one_vault:
  assumes "import_one L policy item ks t w = (ks', t', w')"
  shows "vault_of (ks_records ks') = vault_import policy item (vault_of (ks_records ks))"
proof (cases "position (\<lambda>r. rec_key r = item_key item) (ks_records ks)")
  case None
  then have v: "vault_of (ks_records ks) (item_key item) = None" by (simp add: vault_None)
  from assms None obtain mk w1 where i: "import_insert L mk item ks w = (ks', w1)"
    by (auto simp: import_one_def matches_key_fun item_key_def split: prod.splits)
  from i obtain r where "ks_records ks' = ks_records ks @ [r]" "rec_key r = item_key item"
    "secret_of r = (ii_password item, False)"
    by (rule import_insert_shape) (auto simp: secret_of_def)
  with v show ?thesis by (simp add: vault_append vault_import_def vault_put_def)
next
  case (Some i)
  then obtain x where v: "vault_of (ks_records ks) (item_key item) = Some x" by (rule vault_Some)
  note key = position_Some [OF Some]
  show ?thesis
  proof (cases policy)
    case Skip
    then show ?thesis using assms Some v
      by (auto simp: import_one_def matches_key_fun item_key_def vault_import_def vault_put_def)
  next
    case Replace
    then have "ks_records ks' = (ks_records ks)[i := import_replace item (ks_records ks ! i)]"
      using assms Some by (auto simp: import_one_def matches_key_fun item_key_def)
    moreover have "rec_key (import_replace item (ks_records ks ! i)) = item_key item" using key by simp
    ultimately show ?thesis
      using vault_update [OF Some] Replace
      by (simp add: vault_import_def vault_put_def secret_of_def)
  next
    case KeepBoth
    from assms Some KeepBoth obtain mk w1 where i: "import_insert L mk item ks w = (ks', w1)"
      by (auto simp: import_one_def matches_key_fun item_key_def split: prod.splits)
    from i obtain r where "ks_records ks' = ks_records ks @ [r]" "rec_key r = item_key item"
      by (rule import_insert_shape) auto
    with v KeepBoth show ?thesis by (simp add: vault_append vault_import_def vault_put_def)
  qed
qed

lemma restore_one_vault:
  assumes "restore_one L policy inc ks t w = Some (ks', t', w')"
  shows "vault_of (ks_records ks') = vault_restore policy inc (vault_of (ks_records ks))"
proof -
  have k: "matches_key (cr_origin inc) (cr_username inc) = (\<lambda>r. rec_key r = rec_key inc)"
    by (simp add: matches_key_fun rec_key_def)
  show ?thesis
  proof (cases "position (\<lambda>r. rec_key r = rec_key inc) (ks_records ks)")
    case None
    then have v: "vault_of (ks_records ks) (rec_key inc) = None" by (simp add: vault_None)
    from assms None obtain i where "ks_records ks' = ks_records ks @ [inc\<lparr>cr_id := i\<rparr>]"
      by (auto simp: restore_one_def k ks_add_def)
    with v show ?thesis
      by (simp add: vault_append vault_restore_def vault_put_def secret_of_def rec_key_def)
  next
    case (Some j)
    then obtain x where v: "vault_of (ks_records ks) (rec_key inc) = Some x" by (rule vault_Some)
    show ?thesis
    proof (cases policy)
      case Skip
      then show ?thesis using assms Some v by (simp add: restore_one_def k vault_restore_def vault_put_def)
    next
      case Replace
      then have "ks_records ks' = (ks_records ks)[j := inc\<lparr>cr_id := cr_id (ks_records ks ! j)\<rparr>]"
        using assms Some by (auto simp: restore_one_def k)
      moreover have "rec_key (inc\<lparr>cr_id := cr_id (ks_records ks ! j)\<rparr>) = rec_key inc" by (simp add: rec_key_def)
      ultimately show ?thesis
        using vault_update [OF Some] Replace by (simp add: vault_restore_def vault_put_def secret_of_def)
    next
      case KeepBoth
      from assms Some KeepBoth obtain i l where
        "ks_records ks' = ks_records ks @ [inc\<lparr>cr_id := i, cr_label := l\<rparr>]"
        by (auto simp: restore_one_def k ks_add_def)
      with v KeepBoth show ?thesis
        by (auto simp: vault_append vault_restore_def vault_put_def rec_key_def)
    qed
  qed
qed

section \<open>Whole operations\<close>

lemma import_loop_vault:
  "import_loop L policy items ks t w = (ks', t', w') \<Longrightarrow>
   vault_of (ks_records ks') = fold (vault_import policy) items (vault_of (ks_records ks))"
proof (induction items arbitrary: ks t w)
  case (Cons item items)
  obtain ks1 t1 w1 where one: "import_one L policy item ks t w = (ks1, t1, w1)" using prod_cases3 by blast
  then have "import_loop L policy items ks1 t1 w1 = (ks', t', w')" using Cons.prems by simp
  from Cons.IH [OF this] import_one_vault [OF one] show ?case by simp
qed simp

lemma restore_loop_vault:
  "restore_loop L policy rs ks t w = Some (ks', t', w') \<Longrightarrow>
   vault_of (ks_records ks') = fold (vault_restore policy) rs (vault_of (ks_records ks))"
proof (induction rs arbitrary: ks t w)
  case (Cons r rs)
  then obtain ks1 t1 w1 where one: "restore_one L policy r ks t w = Some (ks1, t1, w1)"
    and rest: "restore_loop L policy rs ks1 t1 w1 = Some (ks', t', w')"
    by (auto simp: bind_eq_Some_conv)
  from Cons.IH [OF rest] restore_one_vault [OF one] show ?case by simp
qed simp

lemma upsert_vault:
  assumes "ks_upsert L ori user pw lab ks w = (r, ks', w')"
  shows "vault_of (ks_records ks') = (vault_of (ks_records ks))((ori, user) \<mapsto> (pw, False))"
  using assms
proof (cases rule: ks_upsert_cases)
  case (updated old)
  let ?f = "upsert_update pw lab (fst (now_secs w))"
  obtain i where i: "position (\<lambda>r. rec_key r = (ori, user)) (ks_records ks) = Some i"
    using updated(2) by (auto simp: find_position matches_key_fun split: option.splits)
  have "update_first (matches_key ori user) ?f (ks_records ks) = (ks_records ks)[i := ?f (ks_records ks ! i)]"
    using i by (simp add: update_first_nth matches_key_fun)
  moreover have "rec_key (?f (ks_records ks ! i)) = (ori, user)"
    using position_Some [OF i] by (simp add: rec_key_def)
  ultimately show ?thesis
    using vault_update [OF i] updated(3) by (simp add: secret_of_def)
next
  case (inserted new)
  have "rec_key new = (ori, user)" "vault_of (ks_records ks) (ori, user) = None"
    using inserted(2,4) by (simp_all add: matches_key_rec vault_of_def matches_key_fun)
  then show ?thesis using inserted by (simp add: vault_append secret_of_def)
qed

section \<open>Properties\<close>

text \<open>
  C12: the keystore refines a map from origin and user name to password and archived flag. A
  new keystore is the empty map; a host's upsert is the update at its key, to a live entry;
  a CSV import and a backup restore are the items' updates in order, where an existing
  entry gives way only under \<open>Replace\<close>; what a host can probe is a function of the map.
\<close>

theorem keystore_refines_vault:
  assumes "restore_many L rs policy ks w = Some (ks1, t1, w1)"
  shows "vault_of (ks_records (keystore_new L master)) = Map.empty \<and>
     vault_of (ks_records (fst (snd (ks_upsert L ori user pw lab ks w)))) =
       (vault_of (ks_records ks))((ori, user) \<mapsto> (pw, False)) \<and>
     vault_of (ks_records (fst (import_many L items policy ks w))) =
       fold (vault_import policy) items (vault_of (ks_records ks)) \<and>
     vault_of (ks_records ks1) = fold (vault_restore policy) rs (vault_of (ks_records ks)) \<and>
     ks_probe ks ori user = (case vault_of (ks_records ks) (ori, user) of
        None \<Rightarrow> NoCredential | Some (_, archived) \<Rightarrow> if archived then Archived else Live)"
proof (intro conjI)
  show "vault_of (ks_records (keystore_new L master)) = Map.empty"
    by (rule ext) (simp add: keystore_new_def vault_of_def)
  show "vault_of (ks_records (fst (snd (ks_upsert L ori user pw lab ks w)))) =
      (vault_of (ks_records ks))((ori, user) \<mapsto> (pw, False))"
  proof -
    obtain r ks' w' where u: "ks_upsert L ori user pw lab ks w = (r, ks', w')" by (rule prod_cases3)
    from upsert_vault [OF u] u show ?thesis by simp
  qed
  show "vault_of (ks_records (fst (import_many L items policy ks w))) =
      fold (vault_import policy) items (vault_of (ks_records ks))"
  proof -
    obtain ks' t' w' where u: "import_loop L policy items ks summary_zero w = (ks', t', w')" by (rule prod_cases3)
    from import_loop_vault [OF u] u show ?thesis by (simp add: import_many_def)
  qed
  show "vault_of (ks_records ks1) = fold (vault_restore policy) rs (vault_of (ks_records ks))"
    by (rule restore_loop_vault [OF assms [unfolded restore_many_def]])
  show "ks_probe ks ori user = (case vault_of (ks_records ks) (ori, user) of
      None \<Rightarrow> NoCredential | Some (_, archived) \<Rightarrow> if archived then Archived else Live)"
    by (auto simp: ks_probe_def vault_of_def matches_key_fun secret_of_def split: option.splits)
qed

lemma keystore_refines_vault_witness:
  "\<exists>ks' t w'. restore_many sample_libs (ks_records sample_keystore) Replace sample_keystore sample_world = Some (ks', t, w') \<and>
     vault_of (ks_records ks') = fold (vault_restore Replace) (ks_records sample_keystore)
       (vault_of (ks_records sample_keystore))"
proof -
  obtain ks' t w' where r: "restore_many sample_libs (ks_records sample_keystore) Replace sample_keystore sample_world = Some (ks', t, w')"
    by (simp add: restore_many_def restore_one_def sample_keystore_def matches_key_def)
  from keystore_refines_vault [OF r] r show ?thesis by blast
qed

end
