(* ===== verification/Flows.thy ===== *)
theory Flows
  imports AppRun Vault
begin

text \<open>
  The user's flows from end to end: a backup exported on one device and restored on another,
  a CSV export picked and confirmed, and a new password typed into the form. Each composes
  the callbacks of \<open>App\<close> with the parser, the backup format, the keystore and the disk, and
  states the outcome on the abstract vault.
\<close>

section \<open>Restoring into an empty keystore\<close>

lemma vault_restore_append:
  "policy \<noteq> Replace \<Longrightarrow> vault_restore policy r (vault_of rs) = vault_of (rs @ [r])"
  by (simp add: vault_restore_def vault_put_def vault_append)

lemma fold_vault_restore:
  "policy \<noteq> Replace \<Longrightarrow> fold (vault_restore policy) rs (vault_of xs) = vault_of (xs @ rs)"
  by (induction rs arbitrary: xs) (simp_all add: vault_restore_append)

text \<open>Records with new keys and identifiers are appended as they are.\<close>

lemma restore_loop_distinct:
  "distinct (map rec_key (ks_records ks @ rs)) \<Longrightarrow> distinct (map cr_id (ks_records ks @ rs)) \<Longrightarrow>
   restore_loop L policy rs ks t w =
     Some (ks\<lparr>ks_records := ks_records ks @ rs\<rparr>, t\<lparr>is_imported := is_imported t + length rs\<rparr>, w)"
proof (induction rs arbitrary: ks t)
  case (Cons r rs)
  have "position (matches_key (cr_origin r) (cr_username r)) (ks_records ks) = None"
  proof -
    have "rec_key r \<notin> rec_key ` set (ks_records ks)" using Cons.prems(1) by simp
    then have "\<forall>x \<in> set (ks_records ks). rec_key x \<noteq> rec_key r" by (metis imageI)
    then show ?thesis by (simp add: position_None matches_key_fun rec_key_def)
  qed
  moreover have "\<not> id_used (ks_records ks) (cr_id r)"
  proof -
    have "cr_id r \<notin> set (map cr_id (ks_records ks))" using Cons.prems(2) by simp
    then show ?thesis by (simp only: id_used_iff not_False_eq_True)
  qed
  ultimately have one: "restore_one L policy r ks t w =
      Some (ks\<lparr>ks_records := ks_records ks @ [r]\<rparr>, t\<lparr>is_imported := is_imported t + 1\<rparr>, w)"
    by (simp add: restore_one_def unique_record_id_def ks_add_def)
  from Cons.IH [of "ks\<lparr>ks_records := ks_records ks @ [r]\<rparr>" "t\<lparr>is_imported := is_imported t + 1\<rparr>"] Cons.prems
  show ?case by (simp add: one)
qed simp

section \<open>A file that was exported\<close>

lemma export_file:
  assumes "export_encrypted_backup L pass target a w = (a1, w1, Some (path, blob))"
  shows "pass \<noteq> []" and "export_backup L pass (ap_keystore a) w = (Inr blob, w1)"
    and "ui_backup_error (ap_ui a1) = []" and "ui_backup_success (ap_ui a1) \<noteq> []"
  using assms
  by (auto simp: export_encrypted_backup_def backup_set_success_def update_ui_def Let_def
      split: if_splits prod.splits sum.splits backup_target.splits)

lemma pick_exported:
  assumes laws: "disk_laws L" "hex_ok L" "hmac_ok L"
    and e: "export_encrypted_backup L pass target a w = (a1, w1, Some (path, blob))"
    and "length blob \<le> MAX_BACKUP_BYTES" "ks_records (ap_keystore a) \<noteq> []"
  obtains ui where "pick_restore_backup L pass (FileBytes blob) b =
     b\<lparr>ap_pending_restore := Some (ks_records (ap_keystore a)), ap_ui := ui\<rparr>"
proof -
  have "records_from_backup L pass blob = Inr (ks_records (ap_keystore a))"
    using records_from_export [OF _ laws(2) _ laws(3) export_file(2) [OF e]] laws(1) by (simp add: disk_laws_def)
  then show thesis
    using assms(5,6) export_file(1) [OF e] by (intro that) (simp add: pick_restore_backup_def update_ui_def)
qed

text \<open>What confirming a restore does, with the outcome of the loop.\<close>

lemma confirm_cases:
  assumes c: "on_backup_restore_confirm L p a v = Some (a', v')" and rs: "ap_pending_restore a = Some rs"
  obtains ks t v1 where "restore_many L rs (policy_from_int p) (ap_keystore a) v = Some (ks, t, v1)"
    "ap_pending_restore a' = None"
    "if ui_backup_error (ap_ui a') = [] then ap_keystore a' = ks else ap_keystore a' = ap_keystore a"
proof -
  from c rs obtain ks t v1 where m: "restore_many L rs (policy_from_int p) (ap_keystore a) v = Some (ks, t, v1)"
    by (auto simp: on_backup_restore_confirm_def Let_def split: option.splits)
  note k = restore_many_keeps [OF m]
  obtain ok a1 v2 where q: "persist_or_restore L (ks_snapshot (ap_keystore a)) ks (a\<lparr>ap_pending_restore := None\<rparr>) v1 = (ok, a1, v2)"
    using prod_cases3 by blast
  then have a1: "ap_pending_restore a1 = None" "ap_keystore a1 = (if ok then ks else ap_keystore a)"
    using k(1) by (auto simp: persist_or_restore_def split: prod.splits bool.splits)
  have fin: "ap_pending_restore a2 = ap_pending_restore a0" "ap_keystore a2 = ap_keystore a0"
    if "app_refresh L a0 v0 = (a2, v3)" for a0 a2 v0 v3
    using that by (auto simp: app_refresh_def update_ui_def split: prod.splits)
  have "ap_pending_restore a' = None \<and>
      (if ui_backup_error (ap_ui a') = [] then ap_keystore a' = ks else ap_keystore a' = ap_keystore a)"
    using c rs m q a1
    by (cases ok) (auto simp: on_backup_restore_confirm_def backup_set_success_def update_ui_def Let_def
        split: if_splits prod.splits dest: fin)
  with m show thesis by (auto intro: that)
qed

lemma confirm_saved:
  assumes "ap_pending_restore a = Some rs" and "restore_many L rs (policy_from_int p) (ap_keystore a) v = Some (ks, t, v1)"
    and "is_imported t > 0" and "persist_keystore L ks v1 = (True, v2)"
  obtains a' v' where "on_backup_restore_confirm L p a v = Some (a', v')" "ui_backup_error (ap_ui a') = []"
proof -
  obtain a2 v3 where "app_refresh L (a\<lparr>ap_pending_restore := None, ap_keystore := ks\<rparr>) v2 = (a2, v3)" by force
  with assms have "\<exists>msg. on_backup_restore_confirm L p a v =
      Some (backup_set_success msg (update_ui (\<lambda>u. u\<lparr>ui_backup_restore_count := 0\<rparr>) a2), v3)"
    by (simp add: on_backup_restore_confirm_def persist_or_restore_def Let_def) (rule exI, rule HOL.refl)
  then show thesis by (auto intro: that simp: backup_set_success_def update_ui_def)
qed

section \<open>Properties of the backup flow\<close>


lemma length_tlv [simp]: "length (tlv_field bs) = 2 * length bs + 1"
  by (induction bs) (simp_all add: tlv_field_def)

text \<open>An export with the sample parameters, to a target the file system takes.\<close>

lemma sample_export:
  fixes a :: app and w :: "'z disk_world_scheme"
  assumes "ks_records (ap_keystore a) = rs"
  obtains a1 w1 path blob where
    "export_encrypted_backup (sample_app rs) (replicate 12 1) (Target ''d'' True) a w = (a1, w1, Some (path, blob))"
    "length blob \<le> 1000"
proof -
  let ?L = "sample_app rs"
  obtain salt w1 where f: "fill_bytes BACKUP_SALT_BYTES w = (salt, w1)" by force
  obtain key where k: "derive_backup_key ?L (replicate 12 1) salt BACKUP_KDF_ITERATIONS = Inr key"
    using derive_backup_key_pbkdf2 [OF sample_app_laws(5), of BACKUP_KDF_ITERATIONS]
    by (auto simp: BACKUP_KDF_ITERATIONS_def)
  obtain n w2 where n: "fill_bytes 12 w1 = (n, w2)" by force
  have s: "seal_blob ?L key [1] w1 = (Inr (n @ [1] @ replicate 16 (hd key)), w2)"
    using n by (simp add: seal_blob_def sample_app_sel sample_json_sel sample_libs_def sample_encrypt_def)
  have j: "json_of_records ?L rs = Inr [1]" "json_of_backup ?L g = Inr (sample_backup_json g)" for g
    by (simp_all add: sample_app_def sample_json_def json_libs.defs libs.defs)
  obtain blob where "export_backup ?L (replicate 12 1) (ap_keystore a) w = (Inr blob, w2)" "length blob \<le> 1000"
    using f k s j assms n length_fill_bytes [OF f] length_fill_bytes [OF n]
    by (simp add: export_backup_def sample_backup_json_def sample_app_sel sample_json_sel sample_libs_def
        BACKUP_MAGIC_def BACKUP_KDF_def BACKUP_SALT_BYTES_def as_bytes_def of_bytes_def)
  then show thesis
    by (intro that [of _ _ _ blob]) (auto simp: export_encrypted_backup_def Let_def)
qed


text \<open>
  Sizes. Hex doubles the length, and the JSON text of a backup contains the ciphertext.
\<close>

definition backup_text_ok :: "'l json_libs_scheme \<Rightarrow> bool" where
  "backup_text_ok L \<longleftrightarrow>
     (\<forall>bs. length (hex_encode L bs) = 2 * length bs) \<and>
     (\<forall>f bs. json_of_backup L f = Inr bs \<longrightarrow> length (bf_ciphertext_hex f) \<le> length bs)"

lemma export_length:
  assumes laws: "aead_ok L" "hmac_ok L" "backup_text_ok L"
    and e: "export_backup L pass ks w = (Inr b, w')" and raw: "json_of_records L (ks_records ks) = Inr raw"
  shows "2 * (length raw + 16) \<le> length b"
proof -
  obtain salt w1 where f: "fill_bytes BACKUP_SALT_BYTES w = (salt, w1)" by force
  from e raw f obtain key sealed w2 where
    key: "derive_backup_key L pass salt BACKUP_KDF_ITERATIONS = Inr key"
    and s: "seal_blob L key raw w1 = (Inr sealed, w2)"
    and j: "json_of_backup L \<lparr>bf_magic = BACKUP_MAGIC, bf_version = BACKUP_VERSION, bf_kdf = BACKUP_KDF,
              bf_iterations = BACKUP_KDF_ITERATIONS, bf_salt_hex = hex_encode L salt,
              bf_nonce_hex = hex_encode L (take 12 sealed),
              bf_ciphertext_hex = hex_encode L (drop 12 sealed)\<rparr> = Inr b"
    by (auto simp: export_backup_def split: if_splits sum.splits prod.splits)
  from s obtain n c where n: "length n = 12" "sealed = n @ c" "aes_gcm_encrypt L key n raw = Some c" by (rule seal_blob_Inr)
  have "length c = length raw + 16"
    using aead_okD [OF laws(1) derive_backup_key_length [OF laws(2) key] n(1,3)] by simp
  moreover have "length (hex_encode L (drop 12 sealed)) \<le> length b"
    using laws(3) j unfolding backup_text_ok_def by fastforce
  ultimately show ?thesis using n(1,2) laws(3) by (simp add: backup_text_ok_def)
qed

text \<open>
  A large vault exports a backup that no device restores. The ciphertext is written in hex,
  so once the JSON text of the records reaches half of \<open>MAX_BACKUP_BYTES\<close> (2 MiB, half of what
  one CSV import may bring in) the file is over the limit that only the restore side checks:
  the export reports success, and picking the file fails with "Backup file is too large." for
  every passphrase, on every device.
\<close>

lemma large_vault_backup_is_refused:
  assumes laws: "aead_ok L" "hmac_ok L" "backup_text_ok L"
    and export: "export_encrypted_backup L pass target a w = (a1, w1, Some (path, blob))"
    and raw: "json_of_records L (ks_records (ap_keystore a)) = Inr raw" "MAX_BACKUP_BYTES \<le> 2 * length raw"
  shows "ui_backup_error (ap_ui a1) = [] \<and> ui_backup_success (ap_ui a1) \<noteq> [] \<and>
     (\<forall>pass' b. pass' = [] \<or>
        pick_restore_backup L pass' (FileBytes blob) b = backup_set_error ''Backup file is too large.'' b)"
proof -
  have "MAX_BACKUP_BYTES < length blob"
    using export_length [OF laws export_file(2) [OF export] raw(1)] raw(2) by simp
  then show ?thesis
    using export_file(3,4) [OF export] by (auto simp: pick_restore_backup_def)
qed

text \<open>Items with different keys do not disturb each other.\<close>

lemma vault_import_other: "k \<noteq> item_key it \<Longrightarrow> vault_import policy it v k = v k"
  by (simp add: vault_import_def vault_put_def)

lemma fold_vault_other: "k \<notin> item_key ` set items \<Longrightarrow> fold (vault_import policy) items v k = v k"
  by (induction items arbitrary: v) (auto simp: vault_import_other)

lemma fold_vault_import:
  "distinct (map item_key items) \<Longrightarrow> it \<in> set items \<Longrightarrow> policy = Replace \<or> v (item_key it) = None \<Longrightarrow>
   fold (vault_import policy) items v (item_key it) = Some (ii_password it, False)"
proof (induction items arbitrary: v)
  case (Cons x items)
  show ?case
  proof (cases "it = x")
    case True
    then have "item_key it \<notin> item_key ` set items" using Cons.prems(1) by auto
    with True Cons.prems(3) show ?thesis
      by (simp add: fold_vault_other) (auto simp: vault_import_def vault_put_def)
  next
    case False
    then have it: "it \<in> set items" using Cons.prems(2) by simp
    moreover have "item_key x \<notin> item_key ` set items" using Cons.prems(1) by simp
    ultimately have "item_key it \<noteq> item_key x" by (metis imageI)
    note this it
    with Cons show ?thesis by (simp add: vault_import_other)
  qed
qed simp

text \<open>What picking a Google export leaves for confirmation.\<close>

lemma length_concat_ge: "(\<And>x. x \<in> set xs \<Longrightarrow> f x \<noteq> []) \<Longrightarrow> length xs \<le> length (concat (map f xs))"
proof (induction xs)
  case (Cons x xs)
  then have "f x \<noteq> []" "length xs \<le> length (concat (map f xs))" by auto
  then show ?case by (cases "f x") auto
qed simp

lemma google_file_length: "length rs \<le> length (google_file crlf rs)"
proof -
  have "length (google_header # map google_row rs) \<le> length (google_file crlf rs)"
    unfolding google_file_def by (rule length_concat_ge) (simp add: write_row_def)
  then show ?thesis by simp
qed

lemma map_filter_length: "length (List.map_filter f xs) \<le> length xs"
  by (induction xs) (simp_all add: List.map_filter_simps split: option.splits)

lemma pick_google:
  assumes f: "rs \<noteq> []" "list_all usable_record rs" "str_ok (google_file crlf rs)" "length (google_file crlf rs) \<le> 4 * 1024 * 1024"
    and items: "items = List.map_filter (\<lambda>r. import_item_of L (r\<lparr>ir_origin := canonicalise_origin L (ir_origin r)\<rparr>)) rs" "items \<noteq> []"
  obtains ui where "pick_and_parse L (FileBytes (as_bytes (google_file crlf rs))) a =
     a\<lparr>ap_pending_import := Some items, ap_ui := ui\<rparr>" "ui_import_error ui = []"
proof -
  let ?rs = "map (\<lambda>r. r\<lparr>ir_origin := canonicalise_origin L (ir_origin r)\<rparr>) rs"
  have "items = List.map_filter (import_item_of L) ?rs"
    by (simp add: items(1) List.map_filter_def filter_map comp_def)
  then have "pick_and_parse L (FileBytes (as_bytes (google_file crlf rs))) a =
      a\<lparr>ap_pending_import := Some items, ap_ui := (ap_ui a)\<lparr>ui_import_source := source_label Google,
        ui_import_count := to_i32 (int (length ?rs - length (filter (\<lambda>r. import_item_of L r = None) ?rs))),
        ui_import_error := []\<rparr>\<rparr>"
    using google_export_is_imported [OF f(1-3), of L] f(4) items(2)
    by (simp add: pick_and_parse_def update_ui_def Let_def as_bytes_def)
  then show thesis by (rule that) simp
qed

lemma import_confirm_cases:
  assumes c: "on_import_confirm L p a v = (a', v')" and items: "ap_pending_import a = Some items"
    and clean: "ui_import_error (ap_ui a) = []"
  obtains ks t v1 where "import_many L items (policy_from_int p) (ap_keystore a) v = (ks, t, v1)"
    "ap_pending_import a' = None"
    "if ui_import_error (ap_ui a') = []
     then ap_keystore a' = ks \<and> ui_import_imported (ap_ui a') = to_i32 (int (is_imported t)) \<and>
       ui_import_skipped (ap_ui a') = to_i32 (int (is_skipped t)) \<and>
       ui_import_replaced (ap_ui a') = to_i32 (int (is_replaced t))
     else ap_keystore a' = ap_keystore a"
proof -
  obtain ks t v1 where m: "import_many L items (policy_from_int p) (ap_keystore a) v = (ks, t, v1)"
    using prod_cases3 by blast
  note k = import_many_keeps [OF m]
  obtain ok a1 v2 where q: "persist_or_restore L (ks_snapshot (ap_keystore a)) ks (a\<lparr>ap_pending_import := None\<rparr>) v1 = (ok, a1, v2)"
    using prod_cases3 by blast
  then have a1: "ap_pending_import a1 = None" "ap_keystore a1 = (if ok then ks else ap_keystore a)" "ap_ui a1 = ap_ui a"
    using k(1) by (auto simp: persist_or_restore_def split: prod.splits bool.splits)
  have fin: "ap_pending_import a2 = ap_pending_import a0" "ap_keystore a2 = ap_keystore a0"
      "ui_import_error (ap_ui a2) = ui_import_error (ap_ui a0)"
    if "app_refresh L a0 v0 = (a2, v3)" for a0 a2 v0 v3
    using that by (auto simp: app_refresh_def update_ui_def refresh_credentials_def Let_def split: prod.splits)
  show thesis
  proof (rule that [OF m])
    show "ap_pending_import a' = None"
      using c items m q a1
      by (cases ok) (auto simp: on_import_confirm_def set_import_error_def update_ui_def Let_def
          split: if_splits prod.splits dest: fin)
    show "if ui_import_error (ap_ui a') = []
     then ap_keystore a' = ks \<and> ui_import_imported (ap_ui a') = to_i32 (int (is_imported t)) \<and>
       ui_import_skipped (ap_ui a') = to_i32 (int (is_skipped t)) \<and>
       ui_import_replaced (ap_ui a') = to_i32 (int (is_replaced t))
     else ap_keystore a' = ap_keystore a"
      using c items m q a1 clean
      by (cases ok) (auto simp: on_import_confirm_def set_import_error_def update_ui_def Let_def
          split: if_splits prod.splits dest: fin)
  qed
qed

text \<open>
  C18: a CSV export reaches the vault. Pick a file that Google wrote for a list of entries and
  confirm: if the app reports no error, the vault is the old one with the usable entries put
  in, in order and under the chosen policy, and the three counters on the screen add up to
  their number; an entry whose site and user name occur once, and were not there before (or
  with \<open>Replace\<close>), is found with its password. If it reports an error the keystore is as
  before. Either way a restart finds the keystore that is in memory.
\<close>

theorem csv_export_reaches_the_vault:
  assumes laws: "disk_laws L" and s: "synced L master (ap_keystore a) w"
    and csv: "rs \<noteq> []" "list_all usable_record rs" "str_ok (google_file crlf rs)" "length (google_file crlf rs) \<le> 4 * 1024 * 1024"
    and items: "items = List.map_filter (\<lambda>r. import_item_of L (r\<lparr>ir_origin := canonicalise_origin L (ir_origin r)\<rparr>)) rs" "items \<noteq> []"
    and confirm: "on_import_confirm L p (pick_and_parse L (FileBytes (as_bytes (google_file crlf rs))) a) w = (a', w')"
  shows "load_keystore L master (dw_disk w') = Inr (ap_keystore a') \<and> ap_pending_import a' = None \<and>
     (if ui_import_error (ap_ui a') = []
      then vault_of (ks_records (ap_keystore a')) =
             fold (vault_import (policy_from_int p)) items (vault_of (ks_records (ap_keystore a))) \<and>
           ui_import_imported (ap_ui a') + ui_import_skipped (ap_ui a') + ui_import_replaced (ap_ui a') = int (length items) \<and>
           (\<forall>it \<in> set items. distinct (map item_key items) \<and>
              (p = 1 \<or> vault_of (ks_records (ap_keystore a)) (item_key it) = None) \<longrightarrow>
              vault_of (ks_records (ap_keystore a')) (item_key it) = Some (ii_password it, False))
      else ap_keystore a' = ap_keystore a)"
proof -
  let ?v = "vault_of (ks_records (ap_keystore a))" and ?pol = "policy_from_int p"
  from csv items obtain ui where pick: "pick_and_parse L (FileBytes (as_bytes (google_file crlf rs))) a =
      a\<lparr>ap_pending_import := Some items, ap_ui := ui\<rparr>" (is "_ = ?a") and ui: "ui_import_error ui = []"
    by (rule pick_google)
  have sync: "synced L master (ap_keystore a') w'"
    using keepsD [OF callback_invariant.keeps_import_confirm [OF synced_invariant [OF laws]] confirm [unfolded pick]] s by simp
  have "ap_pending_import ?a = Some items" "ui_import_error (ap_ui ?a) = []" by (simp_all add: ui)
  with confirm [unfolded pick] obtain ks t w1 where
    m: "import_many L items ?pol (ap_keystore ?a) w = (ks, t, w1)" and none: "ap_pending_import a' = None"
    and out: "if ui_import_error (ap_ui a') = []
       then ap_keystore a' = ks \<and> ui_import_imported (ap_ui a') = to_i32 (int (is_imported t)) \<and>
         ui_import_skipped (ap_ui a') = to_i32 (int (is_skipped t)) \<and>
         ui_import_replaced (ap_ui a') = to_i32 (int (is_replaced t))
       else ap_keystore a' = ap_keystore ?a"
    by (rule import_confirm_cases)
  have m': "import_many L items ?pol (ap_keystore a) w = (ks, t, w1)" using m by simp
  have vault: "vault_of (ks_records ks) = fold (vault_import ?pol) items ?v"
    by (rule import_loop_vault [OF m' [unfolded import_many_def]])
  have found: "vault_of (ks_records ks) (item_key it) = Some (ii_password it, False)"
    if "it \<in> set items" "distinct (map item_key items)" "p = 1 \<or> ?v (item_key it) = None" for it
    using that unfolding vault by (intro fold_vault_import) (auto simp: policy_from_int_def)
  have total: "is_imported t + is_skipped t + is_replaced t = length items"
    using import_many_accounts_for_every_item [OF m'] by blast
  have "length items \<le> 4 * 1024 * 1024"
    using google_file_length [of rs crlf] csv(4) map_filter_length [of "\<lambda>r. import_item_of L (r\<lparr>ir_origin := canonicalise_origin L (ir_origin r)\<rparr>)" rs]
    by (simp add: items(1))
  then have "to_i32 (int (is_imported t)) + to_i32 (int (is_skipped t)) + to_i32 (int (is_replaced t)) = int (length items)"
    using total by (simp add: to_i32_id)
  with out vault found none sync show ?thesis by (auto simp: synced_def)
qed

lemma import_saved:
  assumes "ap_pending_import a = Some items" "ui_import_error (ap_ui a) = []"
    and "import_many L items (policy_from_int p) (ap_keystore a) v = (ks, t, v1)"
    and "is_imported t > 0" and "persist_keystore L ks v1 = (True, v2)"
  obtains a' v' where "on_import_confirm L p a v = (a', v')" "ui_import_error (ap_ui a') = []"
proof -
  let ?a = "a\<lparr>ap_pending_import := None, ap_keystore := ks\<rparr>"
  obtain a2 v3 where f: "app_refresh L ?a v2 = (a2, v3)" by force
  let ?a' = "update_ui (\<lambda>u. u\<lparr>ui_import_imported := to_i32 (int (is_imported t)), ui_import_skipped := to_i32 (int (is_skipped t)),
         ui_import_replaced := to_i32 (int (is_replaced t)), ui_import_count := 0\<rparr>) a2"
  have "on_import_confirm L p a v = (?a', v3)"
    using assms f by (simp add: on_import_confirm_def persist_or_restore_def Let_def)
  moreover have "ui_import_error (ap_ui ?a') = []"
    using f assms(2) by (auto simp: app_refresh_def update_ui_def refresh_credentials_def Let_def split: prod.splits)
  ultimately show thesis by (rule that)
qed

text \<open>One row, imported by a new device.\<close>

definition imported_list :: "credential_record list" where
  "imported_list =
     [\<lparr>cr_id = 0, cr_origin = ''https://a.b'', cr_username = ''u'', cr_password = ''p'', cr_label = [],
       cr_color = next_automatic_color (keystore_new sample_libs []), cr_archived = False, cr_notes = None,
       cr_created_at = 0, cr_last_used_at = 0\<rparr>]"

lemma csv_export_reaches_the_vault_witness:
  "\<exists>a' w'. on_import_confirm (sample_app imported_list) 0
       (pick_and_parse (sample_app imported_list) (FileBytes (as_bytes (google_file False [sample_row])))
          (app_new (keystore_new (sample_app imported_list) [7]))) (sample_disk (sconst True)) = (a', w') \<and>
     ui_import_error (ap_ui a') = [] \<and>
     vault_of (ks_records (ap_keystore a')) (''https://a.b'', ''u'') = Some (''p'', False)"
proof -
  let ?L = "sample_app imported_list" and ?w = "sample_disk (sconst True)"
  let ?a = "app_new (keystore_new ?L [7])" and ?ks = "(keystore_new ?L [7])\<lparr>ks_records := imported_list\<rparr>"
  let ?it = "\<lparr>ii_origin = ''https://a.b'', ii_username = ''u'', ii_password = ''p'', ii_label = [], ii_notes = []\<rparr>"
  have i: "import_item_of ?L (sample_row\<lparr>ir_origin := canonicalise_origin ?L (ir_origin sample_row)\<rparr>) = Some ?it"
    by (simp add: import_item_of_def origin_parse_def canonicalise_origin_def sample_app_sel sample_json_sel) code_simp
  then have items: "[?it] = List.map_filter (\<lambda>r. import_item_of ?L (r\<lparr>ir_origin := canonicalise_origin ?L (ir_origin r)\<rparr>)) [sample_row]"
    by (simp add: List.map_filter_simps)
  have csv: "[sample_row] \<noteq> []" "length (google_file False [sample_row]) \<le> 4 * 1024 * 1024"
    using sample_file(3) by simp_all
  obtain ui where pick: "pick_and_parse ?L (FileBytes (as_bytes (google_file False [sample_row]))) ?a =
      ?a\<lparr>ap_pending_import := Some [?it], ap_ui := ui\<rparr>" (is "_ = ?pa") and ui: "ui_import_error ui = []"
    by (rule pick_google [OF csv(1) sample_file(1,2) csv(2) items]) simp
  obtain w1 where m: "import_many ?L [?it] (policy_from_int 0) (keystore_new ?L [7]) ?w = (?ks, summary_zero\<lparr>is_imported := 1\<rparr>, w1)"
    and w1: "dw_writes w1 = sconst True"
    by (simp add: import_many_def import_one_def import_insert_def keystore_new_def now_secs_def credential_record_new_def
        uuid_new_v4_def fill_bytes_def Let_def ks_add_def imported_list_def next_automatic_color_def import_notes_def
        sample_disk_def sample_world_def world.defs sample_app_sel sample_json_sel sample_libs_def summary_zero_def numeral_eq_Suc)
  have j: "json_of_records ?L imported_list = Inr [1]"
    by (simp add: sample_app_def sample_json_def json_libs.defs libs.defs)
  obtain w2 where p: "persist_keystore ?L ?ks w1 = (True, w2)"
    by (rule persist_succeeds [OF sample_app_disk_laws [of imported_list] sample_app_laws(2), of ?ks "[7]" "[1]" w1])
      (simp_all add: j w1 keystore_new_def)
  obtain a' w' where c': "on_import_confirm ?L 0 ?pa ?w = (a', w')" and ok: "ui_import_error (ap_ui a') = []"
    by (rule import_saved [where a = ?pa and items = "[?it]" and t = "summary_zero\<lparr>is_imported := 1\<rparr>", OF _ _ _ _ p])
      (use m ui in \<open>simp_all add: app_new_def summary_zero_def\<close>)
  note c = c' [folded pick]
  have n: "synced ?L [7] (ap_keystore ?a) ?w"
    by (simp add: synced_def app_new_def keystore_new_def load_keystore_def sample_disk_def world.defs)
  have v: "vault_of (ks_records (ap_keystore ?a)) (item_key ?it) = None"
    by (simp add: app_new_def keystore_new_def vault_of_def)
  from csv_export_reaches_the_vault [OF sample_app_disk_laws n csv(1) sample_file(1,2) csv(2) items _ c] ok v
  have "vault_of (ks_records (ap_keystore a')) (item_key ?it) = Some (''p'', False)" by auto
  with c ok show ?thesis by (auto simp: item_key_def)
qed

section \<open>The form for a new password\<close>

text \<open>What the form accepts the engine accepts: the same origin, limits and required fields.\<close>

lemma valid_form:
  assumes "validate_new_fields L ori user pw lab = Inr ()"
  obtains o' where "origin_parse L ori = Inr o'" "canonicalize_origin L ori = Inr (as_str o')"
    "check_names user (Some lab) = Inr ()" "check_str_len ''password'' pw MAX_PASSWORD_BYTES = Inr ()" "pw \<noteq> []"
proof -
  from assms obtain o' where o': "origin_parse L ori = Inr o'" "length ori \<le> MAX_ORIGIN_BYTES"
    and e: "validate_edit_fields lab user pw = Inr ()" "pw \<noteq> []"
    by (auto simp: validate_new_fields_def split: if_splits sum.splits)
  from e(1) have "user \<noteq> []" "length lab \<le> MAX_LABEL_BYTES" "length user \<le> MAX_USERNAME_BYTES" "length pw \<le> MAX_PASSWORD_BYTES"
    by (auto simp: validate_edit_fields_def trim_def trim_start_def trim_end_def split: if_splits)
  with o' e(2) show thesis
    by (intro that) (simp_all add: canonicalize_origin_def check_names_def check_str_len_def check_opt_len_def)
qed

text \<open>
  C19: what the form for a new password does. A form with a bad field is refused with that field's
  message and changes nothing else. A form that is accepted satisfies the engine's own checks,
  and if no error is shown afterwards, one entry was appended under the canonical origin that
  the engine computes for the same input. On the vault this is a store that keeps an existing
  entry: a second save for the same site and user name shows success, but the old password
  stays the one found for that key. A save that cannot be written leaves the keystore. Each
  time a restart finds the keystore that is in memory.
\<close>

theorem form_adds_an_entry:
  assumes laws: "disk_laws L" and s: "synced L master (ap_keystore a) w"
    and f: "on_save_new L ori user pw lab c a w = (a', w')"
  shows "load_keystore L master (dw_disk w') = Inr (ap_keystore a') \<and>
     (case validate_new_fields L ori user pw lab of
        Inl (field, msg) \<Rightarrow> a' = set_editing_error field msg a \<and> w' = w
      | Inr _ \<Rightarrow>
          (\<exists>canonical. canonicalize_origin L ori = Inr canonical \<and> check_names user (Some lab) = Inr () \<and>
             check_str_len ''password'' pw MAX_PASSWORD_BYTES = Inr () \<and>
             (if ui_editing_error (ap_ui a') = []
              then (\<exists>r. ks_records (ap_keystore a') = ks_records (ap_keystore a) @ [r] \<and> rec_key r = (canonical, user) \<and>
                      cr_password r = pw \<and> cr_label r = lab \<and> cr_color r = c \<and> \<not> cr_archived r) \<and>
                   vault_of (ks_records (ap_keystore a')) =
                     vault_put Skip (canonical, user) (pw, False) (vault_of (ks_records (ap_keystore a)))
              else ap_keystore a' = ap_keystore a)))"
proof -
  have sync: "synced L master (ap_keystore a') w'"
    by (rule keepsD [OF callback_invariant.keeps_save_new [OF synced_invariant [OF laws]] f s])
  show ?thesis
  proof (cases "validate_new_fields L ori user pw lab")
    case (Inl e)
    then show ?thesis using f sync by (cases e) (auto simp: on_save_new_def synced_def)
  next
    case (Inr u)
    then have valid: "validate_new_fields L ori user pw lab = Inr ()" by simp
    then obtain o' where o': "origin_parse L ori = Inr o'" and eng: "canonicalize_origin L ori = Inr (as_str o')"
      "check_names user (Some lab) = Inr ()" "check_str_len ''password'' pw MAX_PASSWORD_BYTES = Inr ()"
      by (rule valid_form)
    obtain rec w1 where r: "credential_record_new L (as_str o') user pw w = (rec, w1)" by force
    let ?r = "rec\<lparr>cr_label := lab, cr_color := c\<rparr>"
    have fields: "rec_key ?r = (as_str o', user)" "secret_of ?r = (pw, False)"
      using credential_record_new_fields [OF r] by (simp_all add: rec_key_def secret_of_def)
    obtain ok a1 w2 where p: "persist_or_restore L (ks_snapshot (ap_keystore a)) (ks_add ?r (ap_keystore a)) a w1 = (ok, a1, w2)"
      using prod_cases3 by blast
    have a1: "ap_keystore a1 = (if ok then ks_add ?r (ap_keystore a) else ap_keystore a)"
      using p by (auto simp: persist_or_restore_def split: prod.splits bool.splits)
    have out: "if ok then ui_editing_error (ap_ui a') = [] \<and> ap_keystore a' = ap_keystore a1
        else ui_editing_error (ap_ui a') \<noteq> [] \<and> ap_keystore a' = ap_keystore a1"
      using f valid o' r p
      by (cases ok) (auto simp: on_save_new_def Let_def set_editing_error_def clear_editing_error_def invoke_backward_def
          update_ui_def split: prod.splits dest: app_refresh_disk)
    have "vault_of (ks_records (ap_keystore a) @ [?r]) =
        vault_put Skip (as_str o', user) (pw, False) (vault_of (ks_records (ap_keystore a)))"
      using fields by (simp add: vault_append vault_put_def)
    with a1 out eng fields valid sync show ?thesis
      by (cases ok) (auto simp: synced_def ks_add_def secret_of_def rec_key_def intro!: exI [of _ ?r])
  qed
qed

text \<open>One entry typed on a new device.\<close>

definition typed_list :: "credential_record list" where
  "typed_list =
     [\<lparr>cr_id = 0, cr_origin = ''https://example.com'', cr_username = ''bob'', cr_password = ''pw'', cr_label = ''x'',
       cr_color = 1, cr_archived = False, cr_notes = None, cr_created_at = 0, cr_last_used_at = 0\<rparr>]"

lemma form_adds_an_entry_witness:
  "\<exists>a' w'. on_save_new (sample_app typed_list) ''https://Example.com/login'' ''bob'' ''pw'' ''x'' 1
       (app_new (keystore_new (sample_app typed_list) [7])) (sample_disk (sconst True)) = (a', w') \<and>
     vault_of (ks_records (ap_keystore a')) (''https://example.com'', ''bob'') = Some (''pw'', False)"
proof -
  let ?L = "sample_app typed_list" and ?w = "sample_disk (sconst True)"
  let ?a = "app_new (keystore_new ?L [7])" and ?ks = "(keystore_new ?L [7])\<lparr>ks_records := typed_list\<rparr>"
  have o: "origin_parse ?L ''https://Example.com/login'' = Inr (Origin ''https://example.com'')"
    by (simp add: origin_parse_def sample_app_sel sample_json_sel) code_simp
  have v: "validate_new_fields ?L ''https://Example.com/login'' ''bob'' ''pw'' ''x'' = Inr ()"
    unfolding validate_new_fields_def o by code_simp
  obtain r w1 where r: "credential_record_new ?L ''https://example.com'' ''bob'' ''pw'' ?w = (r, w1)"
    "ks_add (r\<lparr>cr_label := ''x'', cr_color := 1\<rparr>) (ap_keystore ?a) = ?ks" "dw_writes w1 = sconst True"
    by (simp add: now_secs_def credential_record_new_def uuid_new_v4_def fill_bytes_def Let_def typed_list_def ks_add_def
        app_new_def keystore_new_def sample_disk_def sample_world_def world.defs sample_app_sel sample_json_sel sample_libs_def
        numeral_eq_Suc)
  have j: "json_of_records ?L typed_list = Inr [1]"
    by (simp add: sample_app_def sample_json_def json_libs.defs libs.defs)
  obtain w2 where p: "persist_keystore ?L ?ks w1 = (True, w2)"
    by (rule persist_succeeds [OF sample_app_disk_laws [of typed_list] sample_app_laws(2), of ?ks "[7]" "[1]" w1])
      (simp_all add: j r(3) keystore_new_def)
  obtain a2 w3 where f: "app_refresh ?L (?a\<lparr>ap_keystore := ?ks\<rparr>) w2 = (a2, w3)" by force
  let ?a' = "invoke_backward (clear_editing_error a2)"
  have c: "on_save_new ?L ''https://Example.com/login'' ''bob'' ''pw'' ''x'' 1 ?a ?w = (?a', w3)"
    using v o r p f by (simp add: on_save_new_def persist_or_restore_def Let_def)
  have n: "synced ?L [7] (ap_keystore ?a) ?w"
    by (simp add: synced_def app_new_def keystore_new_def load_keystore_def sample_disk_def world.defs)
  have e: "ui_editing_error (ap_ui ?a') = []"
    by (simp add: invoke_backward_def clear_editing_error_def update_ui_def)
  have k: "canonicalize_origin ?L ''https://Example.com/login'' = Inr ''https://example.com''"
    by (simp add: canonicalize_origin_def o MAX_ORIGIN_BYTES_def)
  from form_adds_an_entry [OF sample_app_disk_laws n c] v e k
  have "vault_of (ks_records (ap_keystore ?a')) =
      vault_put Skip (''https://example.com'', ''bob'') (''pw'', False) (vault_of (ks_records (ap_keystore ?a)))" by auto
  then have "vault_of (ks_records (ap_keystore ?a')) (''https://example.com'', ''bob'') = Some (''pw'', False)"
    by (simp add: vault_put_def app_new_def keystore_new_def vault_of_def del: ap_keystore_ui)
  with c show ?thesis by blast
qed

end
