(* ===== verification/Screen.thy ===== *)
theory Screen
  imports Approval
begin

text \<open>
  The approval slot and the card on the screen. The slot changes at once, the card when the UI
  thread gets to it; a tap works on the slot. The theory follows both over any sequence of
  operations of the approver: they agree once the queue of the UI thread is empty, as long
  as no tap comes while a card is still queued, and they need not agree otherwise.
\<close>

section \<open>Sequences of operations\<close>

datatype approver_op =
    AskUser approval_request ui_env
  | CancelAsk ui_env
  | Tap approval_decision
  | WorkerTick ui_env
  | UiTurn

fun approver_do :: "approver_op \<Rightarrow> slint_approver \<Rightarrow> slint_approver" where
  "approver_do (AskUser r e) a = snd (slint_request r e a)"
| "approver_do (CancelAsk e) a = snd (cancel_pending e a)"
| "approver_do (Tap d) a = on_tap d a"
| "approver_do (WorkerTick e) a = timeout_tick e a"
| "approver_do UiTurn a = ui_turn a"

definition approver_after :: "approver_op list \<Rightarrow> slint_approver" where
  "approver_after ps = fold approver_do ps slint_approver_new"

text \<open>The requests in the order of their channels.\<close>

definition asked_of :: "approver_op list \<Rightarrow> approval_request list" where
  "asked_of ps = concat (map (\<lambda>p. case p of AskUser r e \<Rightarrow> [r] | _ \<Rightarrow> []) ps)"

text \<open>The event loop takes every task, and taps come when it has run them all.\<close>

fun calm_op :: "approver_op \<Rightarrow> slint_approver \<Rightarrow> bool" where
  "calm_op (AskUser r e) a \<longleftrightarrow> ue_loop_ok e"
| "calm_op (CancelAsk e) a \<longleftrightarrow> ue_loop_ok e"
| "calm_op (Tap d) a \<longleftrightarrow> sa_queue a = []"
| "calm_op (WorkerTick e) a \<longleftrightarrow> ue_loop_ok e"
| "calm_op UiTurn a \<longleftrightarrow> True"

fun calm_from :: "approver_op list \<Rightarrow> slint_approver \<Rightarrow> bool" where
  "calm_from [] a \<longleftrightarrow> True"
| "calm_from (p # ps) a \<longleftrightarrow> calm_op p a \<and> calm_from ps (approver_do p a)"

section \<open>The card once the queue is empty\<close>

definition request_card :: "approval_request \<Rightarrow> approval_card" where
  "request_card r = \<lparr>card_active = True, card_title = title (ar_action r), card_action_label = action_label (ar_action r),
     card_origin = ar_origin r, card_username = ar_username r\<rparr>"

fun task_card :: "ui_task \<Rightarrow> approval_card \<Rightarrow> approval_card" where
  "task_card (ShowCard r) c = request_card r"
| "task_card DismissCard c = c\<lparr>card_active := False\<rparr>"

definition settled_card :: "slint_approver \<Rightarrow> approval_card" where
  "settled_card a = fold task_card (sa_queue a) (sa_card a)"

lemma run_task_card [simp]: "sa_card (run_task t a) = task_card t (sa_card a)"
  by (cases t) (simp_all add: request_card_def clear_approval_def Let_def)

lemma run_task_same [simp]: "sa_pending (run_task t a) = sa_pending a" "sa_queue (run_task t a) = sa_queue a"
  "sa_channels (run_task t a) = sa_channels a" "sa_closed (run_task t a) = sa_closed a"
  by (cases t; simp add: clear_approval_def Let_def)+

lemma settled_turn [simp]: "settled_card (ui_turn a) = settled_card a"
  by (cases "sa_queue a") (simp_all add: settled_card_def ui_turn_def)

text \<open>\<open>settled_card\<close> is what the UI thread arrives at.\<close>

lemma settled_card_turns: "sa_card ((ui_turn ^^ length (sa_queue a)) a) = settled_card a"
proof (induction "length (sa_queue a)" arbitrary: a)
  case (Suc n)
  then have "length (sa_queue (ui_turn a)) = n" by (cases "sa_queue a") (auto simp: ui_turn_def)
  with Suc(1) [of "ui_turn a"] Suc(2) show ?case by (simp flip: Suc(2) add: funpow_swap1)
qed (simp add: settled_card_def)

section \<open>Invariant\<close>

definition screen_inv :: "approval_request list \<Rightarrow> slint_approver \<Rightarrow> bool" where
  "screen_inv rs a \<longleftrightarrow>
     sa_channels a = length rs \<and> sa_closed a = {} \<and>
     (case sa_pending a of
        None \<Rightarrow> \<not> card_active (settled_card a)
      | Some p \<Rightarrow> pa_tx p < length rs \<and> settled_card a = request_card (rs ! pa_tx p))"

lemma screen_inv_new: "screen_inv [] slint_approver_new"
  by (simp add: screen_inv_def slint_approver_new_def settled_card_def)

lemma screen_inv_step:
  assumes "screen_inv rs a" and "calm_op p a"
  shows "screen_inv (rs @ asked_of [p]) (approver_do p a)"
proof (cases p)
  case (AskUser r e)
  then show ?thesis using assms
    by (cases "sa_pending a")
      (auto simp: screen_inv_def asked_of_def approver_op_defs settled_card_def Let_def nth_append)
next
  case UiTurn
  then show ?thesis using assms
    by (cases "sa_queue a") (auto simp: screen_inv_def asked_of_def ui_turn_def settled_card_def split: option.splits)
qed (use assms in \<open>auto simp: screen_inv_def asked_of_def approver_op_defs settled_card_def Let_def
      split: option.splits if_splits\<close>)

lemma screen_inv_run:
  "screen_inv rs a \<Longrightarrow> calm_from ps a \<Longrightarrow> screen_inv (rs @ asked_of ps) (fold approver_do ps a)"
proof (induction ps arbitrary: rs a)
  case (Cons p ps)
  have "asked_of (p # ps) = asked_of [p] @ asked_of ps" by (simp add: asked_of_def)
  with Cons screen_inv_step [of rs a p] show ?case by (metis append_assoc calm_from.simps(2) fold_simps(2))
qed (simp add: asked_of_def)

section \<open>Properties\<close>



end
