(* ===== verification/Runs.thy ===== *)
theory Runs
  imports Main
begin

text \<open>
  Runs of a labelled step relation, with their trace, oldest label first; how an invariant
  and a simulation of steps extend to runs, each proved once in a locale; and the step of a
  run at which an observation changes.
\<close>

inductive trace_run :: "('s \<Rightarrow> 'e \<Rightarrow> 's \<Rightarrow> bool) \<Rightarrow> 's \<Rightarrow> 'e list \<Rightarrow> 's \<Rightarrow> bool" for step where
  trace_start: "trace_run step s [] s"
| trace_more: "trace_run step s tr s1 \<Longrightarrow> step s1 e s2 \<Longrightarrow> trace_run step s (tr @ [e]) s2"

lemma trace_run_append:
  "trace_run step s1 tr2 s2 \<Longrightarrow> trace_run step s tr1 s1 \<Longrightarrow> trace_run step s (tr1 @ tr2) s2"
proof (induction rule: trace_run.induct)
  case (trace_more s1 tr2 s3 e s4)
  then show ?case using trace_run.trace_more [of step s "tr1 @ tr2" s3 e s4] by simp
qed simp

lemma trace_run_one: "step s e s' \<Longrightarrow> trace_run step s [e] s'"
  using trace_more [OF trace_start, of step s e s'] by simp

text \<open>What differs between two states of a run changed at one of its steps.\<close>

lemma trace_run_changes:
  assumes "trace_run step s tr s'" and "f s' \<noteq> f s"
  obtains tr1 e tr2 s1 s2 where "tr = tr1 @ e # tr2" "trace_run step s tr1 s1" "step s1 e s2" "f s2 \<noteq> f s1"
proof -
  have "\<exists>tr1 e tr2 s1 s2. tr = tr1 @ e # tr2 \<and> trace_run step s tr1 s1 \<and> step s1 e s2 \<and> f s2 \<noteq> f s1"
    using assms
  proof (induction rule: trace_run.induct)
    case (trace_more s tr s1 e s2)
    show ?case
    proof (cases "f s2 = f s1")
      case True
      with trace_more obtain ta x tb u v where
        "tr = ta @ x # tb" "trace_run step s ta u" "step u x v" "f v \<noteq> f u" by metis
      then show ?thesis by (metis append_assoc append_Cons)
    next
      case False
      with trace_more show ?thesis by blast
    qed
  qed simp
  with that show thesis by blast
qed

locale step_invariant =
  fixes step :: "'s \<Rightarrow> 'e \<Rightarrow> 's \<Rightarrow> bool" and inv :: "'s \<Rightarrow> bool"
  assumes preserved: "step s e s' \<Longrightarrow> inv s \<Longrightarrow> inv s'"
begin

lemma run_invariant: "trace_run step s tr s' \<Longrightarrow> inv s \<Longrightarrow> inv s'"
  by (induction rule: trace_run.induct) (auto intro: preserved)

end

text \<open>A concrete system whose steps are steps of an abstract one, under an invariant.\<close>

locale step_simulation = step_invariant step inv
  for step :: "'s \<Rightarrow> 'e \<Rightarrow> 's \<Rightarrow> bool" and inv :: "'s \<Rightarrow> bool" +
  fixes step' :: "'t \<Rightarrow> 'f \<Rightarrow> 't \<Rightarrow> bool" and abs :: "'s \<Rightarrow> 't" and view :: "'e \<Rightarrow> 'f"
  assumes simulated: "step s e s' \<Longrightarrow> inv s \<Longrightarrow> step' (abs s) (view e) (abs s')"
begin

lemma run_simulated:
  "trace_run step s tr s' \<Longrightarrow> inv s \<Longrightarrow> trace_run step' (abs s) (map view tr) (abs s')"
proof (induction rule: trace_run.induct)
  case (trace_start s)
  show ?case by (simp add: trace_run.trace_start)
next
  case (trace_more s tr s1 e s2)
  then have "inv s1" by (blast intro: run_invariant)
  with trace_more trace_run.trace_more [of step' "abs s" "map view tr" "abs s1" "view e" "abs s2"] simulated
  show ?case by simp
qed

end

text \<open>A concrete system each of whose steps is some run of an abstract one, maybe an empty one.\<close>

locale step_refinement =
  fixes step :: "'s \<Rightarrow> 'e \<Rightarrow> 's \<Rightarrow> bool" and step' :: "'t \<Rightarrow> 'f \<Rightarrow> 't \<Rightarrow> bool"
    and abs :: "'s \<Rightarrow> 't" and part :: "'e \<Rightarrow> 'f list"
  assumes refines: "step s e s' \<Longrightarrow> trace_run step' (abs s) (part e) (abs s')"
begin

lemma run_refines: "trace_run step s tr s' \<Longrightarrow> trace_run step' (abs s) (concat (map part tr)) (abs s')"
proof (induction rule: trace_run.induct)
  case (trace_more s tr s1 e s2)
  from trace_run_append [OF refines [OF trace_more.hyps(2)] trace_more.IH] show ?case by simp
qed (simp add: trace_start)

end

lemma trace_run_split:
  assumes "trace_run step s (tr1 @ e # tr2) s'"
  obtains s1 s2 where "trace_run step s tr1 s1" "step s1 e s2" "trace_run step s2 tr2 s'"
proof -
  have "\<exists>s1 s2. trace_run step s tr1 s1 \<and> step s1 e s2 \<and> trace_run step s2 tr2 s'"
    using assms
  proof (induction tr2 arbitrary: s' rule: rev_induct)
    case Nil
    then show ?case by (cases rule: trace_run.cases) (auto intro: trace_start)
  next
    case (snoc f tr2)
    from snoc.prems obtain s3 where s3: "trace_run step s (tr1 @ e # tr2) s3" "step s3 f s'"
      by (cases rule: trace_run.cases) auto
    with snoc.IH [OF s3(1)] show ?case by (blast intro: trace_more)
  qed
  with that show thesis by blast
qed

end
