(* ===== verification/System.thy ===== *)
theory System
  imports Server CommitSteps Vault Runs
begin

text \<open>
  The whole app: host requests, the approver and the waiting handlers of \<open>Server\<close>, and the
  callbacks of the user interface of \<open>AppRun\<close>, over one keystore and one disk. A step is a
  host step (a request up to its await, a tap on the card, a time out, a turn of the UI
  queue, the end of a handler) or one callback. The system refines \<open>Server\<close>, with each
  callback as one of its edits, so the trace invariant of \<open>Server\<close> holds of it.
\<close>

section \<open>The system\<close>

record 'w system =
  sy_run :: "'w running"
  sy_approver :: slint_approver
  sy_waiting :: "waiting list"

definition system_new :: "'w running \<Rightarrow> 'w system" where
  "system_new r = \<lparr>sy_run = r, sy_approver = slint_approver_new, sy_waiting = []\<rparr>"

definition server_of :: "'w system \<Rightarrow> (keystore, 'w) server" where
  "server_of S =
     \<lparr>sv_engine = engine_of (sy_run S), sv_approver = sy_approver S, sv_waiting = sy_waiting S,
      sv_world = rn_world (sy_run S)\<rparr>"

definition put_server :: "(keystore, 'w) server \<Rightarrow> 'w system \<Rightarrow> 'w system" where
  "put_server sv S =
     \<lparr>sy_run = put_engine (sv_engine sv) (sv_world sv) (sy_run S), sy_approver = sv_approver sv,
      sy_waiting = sv_waiting sv\<rparr>"

datatype system_event = Host event | User app_op

fun host_view :: "system_event \<Rightarrow> event" where
  "host_view (Host e) = e"
| "host_view (User p) = Edited"

inductive system_step ::
  "'l app_libs_scheme \<Rightarrow> 'z disk_world_scheme system \<Rightarrow> system_event \<Rightarrow> 'z disk_world_scheme system \<Rightarrow> bool"
for L where
  host: "server_step L (keystore_ops L) (on_write L) (server_of S) e sv \<Longrightarrow> e \<noteq> Edited \<Longrightarrow>
     system_step L S (Host e) (put_server sv S)"
| user: "app_step L p (sy_run S) = Some r \<Longrightarrow> system_step L S (User p) (S\<lparr>sy_run := r\<rparr>)"

inductive_cases system_step_HostE: "system_step L S (Host e) S'"
section \<open>It refines the server\<close>

lemma server_of_put [simp]:
  "en_idle_ms (sv_engine sv) = DEFAULT_IDLE_MS \<Longrightarrow> server_of (put_server sv S) = sv"
  by (simp add: server_of_def put_server_def engine_of_def put_engine_def)

lemma commit_idle:
  "commit_store_mutation ops hook mut en w = (r, en', w') \<Longrightarrow> en_idle_ms en' = en_idle_ms en"
  by (auto simp: commit_store_mutation_def Let_def split: prod.splits sum.splits bool.splits)

lemma resume_idle:
  "resume L ops hook k d en w = Some (r, en', w') \<Longrightarrow> en_idle_ms en' = en_idle_ms en"
  by (cases d; cases k)
    (auto simp: resume_def split: prod.splits sum.splits option.splits dest!: seal_password_frame commit_idle)

lemma server_step_idle:
  "server_step L ops hook s e s' \<Longrightarrow> en_idle_ms (sv_engine s) = i \<Longrightarrow> en_idle_ms (sv_engine s') = i"
  by (induction rule: server_step.induct) (auto dest: dispatch_frame resume_idle)

interpretation idle_constant: step_invariant "server_step L ops hook" "\<lambda>s. en_idle_ms (sv_engine s) = i"
  by unfold_locales (rule server_step_idle)

lemma on_app_session: "on_app f s = Some s' \<Longrightarrow> rn_session s' = rn_session s"
  by (auto simp: on_app_def)

lemma on_both_session: "on_both f s = Some s' \<Longrightarrow> rn_session s' = rn_session s"
  by (auto simp: on_both_def split: prod.splits)

lemma app_step_session: "app_step L p s = Some s' \<Longrightarrow> rn_session s' = rn_session s"
  by (cases p) (auto dest: on_app_session on_both_session split: option.splits)

lemma system_step_server:
  assumes "system_step L S e S'"
  shows "server_step L (keystore_ops L) (on_write L) (server_of S) (host_view e) (server_of S')"
  using assms
proof cases
  case (host ev sv)
  have "en_idle_ms (sv_engine sv) = DEFAULT_IDLE_MS"
    by (rule server_step_idle [OF host(3)]) (simp add: server_of_def engine_of_def)
  with host show ?thesis by simp
next
  case (user p r)
  have "server_of S' = (server_of S)\<lparr>sv_engine := (sv_engine (server_of S))\<lparr>en_store := ap_keystore (rn_app r)\<rparr>,
      sv_world := rn_world r\<rparr>"
    using user app_step_session [OF user(3)] by (simp add: server_of_def engine_of_def)
  then show ?thesis using user(1) server_step.edit by simp
qed

interpretation on_server: step_simulation "system_step L" "\<lambda>_. True"
  "server_step L (keystore_ops L) (on_write L)" server_of host_view
  by unfold_locales (simp_all add: system_step_server)

lemma server_run_trace:
  "trace_run (server_step L ops hook) s tr s' \<Longrightarrow> server_run L ops hook s tr s'"
  by (induction rule: trace_run.induct) (auto intro: server_run.intros)

lemma system_run_inv:
  assumes "trace_run (system_step L) (system_new r) tr S"
  shows "server_inv (map host_view tr) (server_of S)"
proof (rule server_run_inv [OF server_run_trace [OF on_server.run_simulated [OF assms]]])
  show "server_of (system_new r) = server_new (engine_of r) (rn_world r)"
    by (simp add: server_of_def system_new_def server_new_def)
qed simp

section \<open>Memory and disk\<close>

definition system_synced :: "'l app_libs_scheme \<Rightarrow> bytes \<Rightarrow> 'z disk_world_scheme system \<Rightarrow> bool" where
  "system_synced L master S \<longleftrightarrow> running_synced L master (sy_run S)"

section \<open>What a card may write\<close>

definition writes_card :: "approval_request \<Rightarrow> bool" where
  "writes_card ar \<longleftrightarrow> ar_action ar \<in> {Save, Update, RestoreAndUpdate, Generate, GenerateAndUpdate, GenerateAndRestore}"

abbreviation vault_in :: "'w running \<Rightarrow> vault" where
  "vault_in r \<equiv> vault_of (ks_records (ap_keystore (rn_app r)))"

section \<open>An approved store, to the disk\<close>

text \<open>A request that reaches its await, and the tap that approves it.\<close>

lemma ask_tap:
  fixes S :: "'z disk_world_scheme system" and e :: ui_env
  assumes inv: "slint_inv (sy_approver S)" and e: "ue_loop_ok e"
    and d: "dispatch L (keystore_ops L) (rq_method rq) now (engine_of (sy_run S)) (rn_world (sy_run S)) = (Ask ar k, en, w)"
    and wt: "wt = \<lparr>wt_ticket = Waiting (sa_channels (sy_approver S)), wt_id = rq_id rq, wt_request = ar, wt_kont = k\<rparr>"
  obtains S2 where "trace_run (system_step L) S
       [Host (Asked rq wt), Host (Tapped Approve (Some (sa_channels (sy_approver S))))] S2"
    "wt \<in> set (sy_waiting S2)" "ticket_decision (sy_approver S2) (wt_ticket wt) = Some Approve"
    "engine_of (sy_run S2) = en" "rn_world (sy_run S2) = w"
proof -
  let ?c = "sa_channels (sy_approver S)"
  obtain t a where q: "slint_request ar e (sy_approver S) = (t, a)" by force
  note v = slint_request_view [OF inv q]
  have t: "t = Waiting ?c" using v(3) e by simp
  have a: "slint_inv a" by (rule slint_request_inv [OF inv q])
  obtain p where p: "sa_pending a = Some p" "pa_tx p = ?c" using v(3) e by auto
  define sv1 where "sv1 = (server_of S)\<lparr>sv_engine := en, sv_world := w, sv_approver := a, sv_waiting := sv_waiting (server_of S) @ [wt]\<rparr>"
  have idle: "en_idle_ms en = DEFAULT_IDLE_MS" using dispatch_frame [OF d] by (simp add: engine_of_def)
  have st1: "server_step L (keystore_ops L) (on_write L) (server_of S) (Asked rq wt) sv1"
    unfolding sv1_def by (rule server_step.ask [where now = now and e = e and t = t]) (use d q t wt in \<open>simp_all add: server_of_def\<close>)
  let ?S1 = "put_server sv1 S"
  have o1: "server_of ?S1 = sv1" by (rule server_of_put) (simp add: sv1_def idle)
  have r1: "system_step L S (Host (Asked rq wt)) ?S1" by (rule system_step.host [OF st1]) simp
  have slot: "slot_channel (sv_approver sv1) = Some ?c" using p by (simp add: sv1_def slot_channel_def)
  define sv2 where "sv2 = sv1\<lparr>sv_approver := on_approve (sv_approver sv1)\<rparr>"
  have st2: "server_step L (keystore_ops L) (on_write L) (server_of ?S1) (Tapped Approve (Some ?c)) sv2"
    unfolding o1 sv2_def slot [symmetric] by (rule server_step.tap_approve)
  let ?S2 = "put_server sv2 ?S1"
  have o2: "server_of ?S2 = sv2" by (rule server_of_put) (simp add: sv2_def sv1_def idle)
  have r2: "system_step L ?S1 (Host (Tapped Approve (Some ?c))) ?S2" by (rule system_step.host [OF st2]) simp
  have dec: "ticket_decision (sv_approver sv2) (wt_ticket wt) = Some Approve"
    using on_tap_view [OF a, of Approve] p wt
    by (simp add: sv2_def sv1_def on_approve_def decide_pending_def)
  have t1: "trace_run (system_step L) S [Host (Asked rq wt)] ?S1" by (rule trace_run_one) (rule r1)
  have t2: "trace_run (system_step L) ?S1 [Host (Tapped Approve (Some ?c))] ?S2" by (rule trace_run_one) (rule r2)
  have "trace_run (system_step L) S [Host (Asked rq wt), Host (Tapped Approve (Some ?c))] ?S2"
    using trace_run_append [OF t2 t1] by simp
  moreover have "engine_of (sy_run ?S2) = en"
    using arg_cong [OF o2, of sv_engine] by (simp add: server_of_def sv2_def sv1_def)
  ultimately show thesis
    by (intro that [of ?S2]) (use dec in \<open>simp_all add: put_server_def put_engine_def sv2_def sv1_def\<close>)
qed

text \<open>The three host steps of a request that the user approves.\<close>

lemma ask_tap_resume:
  fixes S :: "'z disk_world_scheme system" and e :: ui_env
  assumes inv: "slint_inv (sy_approver S)" and e: "ue_loop_ok e"
    and d: "dispatch L (keystore_ops L) (rq_method rq) now (engine_of (sy_run S)) (rn_world (sy_run S)) = (Ask ar k, en, w)"
    and r: "resume L (keystore_ops L) (on_write L) k Approve en w = Some (x, en', w')"
    and wt: "wt = \<lparr>wt_ticket = Waiting (sa_channels (sy_approver S)), wt_id = rq_id rq, wt_request = ar, wt_kont = k\<rparr>"
  obtains S' where "trace_run (system_step L) S
       [Host (Asked rq wt), Host (Tapped Approve (Some (sa_channels (sy_approver S)))), Host (Resumed wt Approve x)] S'"
    "ap_keystore (rn_app (sy_run S')) = en_store en'" "rn_world (sy_run S') = w'"
proof -
  obtain S2 where t: "trace_run (system_step L) S
       [Host (Asked rq wt), Host (Tapped Approve (Some (sa_channels (sy_approver S))))] S2"
    and s: "wt \<in> set (sy_waiting S2)" "ticket_decision (sy_approver S2) (wt_ticket wt) = Some Approve"
      "engine_of (sy_run S2) = en" "rn_world (sy_run S2) = w"
    by (rule ask_tap [OF inv e d wt])
  define sv3 where "sv3 = (server_of S2)\<lparr>sv_engine := en', sv_world := w', sv_waiting := remove1 wt (sv_waiting (server_of S2))\<rparr>"
  have st3: "server_step L (keystore_ops L) (on_write L) (server_of S2) (Resumed wt Approve x) sv3"
    unfolding sv3_def by (rule server_step.finish) (use r wt s in \<open>simp_all add: server_of_def\<close>)
  have r3: "system_step L S2 (Host (Resumed wt Approve x)) (put_server sv3 S2)" by (rule system_step.host [OF st3]) simp
  have t3: "trace_run (system_step L) S2 [Host (Resumed wt Approve x)] (put_server sv3 S2)" by (rule trace_run_one) (rule r3)
  show thesis using trace_run_append [OF t3 t]
    by (intro that [of "put_server sv3 S2"]) (simp_all add: sv3_def put_server_def put_engine_def)
qed

text \<open>A \<open>store\<close> that passes every check is put to the user.\<close>

lemma store_dispatch_asks:
  fixes S :: "'z disk_world_scheme system"
  assumes laws: "disk_laws L" "hex_ok L"
    and host: "session_inv host" "seal L (as_bytes pw) t host wh = (Inr (sp_password_sealed p), host1, wh1)"
      "ss_key (rn_session (sy_run S)) = ss_key host"
    and checks: "canonicalize_origin L (sp_origin p) = Inr ori" "check_names (sp_username p) (sp_label p) = Inr ()"
      "str_ok pw" "length pw \<le> MAX_PASSWORD_BYTES"
    and gate: "gate_session (sp_request_nonce p) now (engine_of (sy_run S)) = (Inr (), en1)"
  obtains ar act en' where "dispatch L (keystore_ops L) (StoreCredential p) now (engine_of (sy_run S)) (rn_world (sy_run S)) =
      (Ask ar (AfterStore ori (sp_username p) (sp_label p) pw act), en', rn_world (sy_run S))"
    "en_store en' = ap_keystore (rn_app (sy_run S))"
proof -
  let ?ops = "keystore_ops L :: (keystore, credential_record list, 'z disk_world_scheme) store_ops"
  let ?en = "engine_of (sy_run S)" and ?w = "rn_world (sy_run S)"
  have a: "aead_ok L" using laws(1) by (simp add: disk_laws_def)
  have k: "ss_key (en_session ?en) = ss_key host" using host(3) by (simp add: engine_of_def)
  obtain ar act s where "store_begin L ?ops p now ?en =
      (Ask ar (AfterStore ori (sp_username p) (sp_label p) pw act), en1\<lparr>en_session := s\<rparr>)"
    using store_begin_asks [OF a laws(2) host(1,2) checks(3,4,1) HOL.refl checks(2) gate k, where ops = ?ops] by blast
  then have d: "dispatch L ?ops (StoreCredential p) now ?en ?w =
      (Ask ar (AfterStore ori (sp_username p) (sp_label p) pw act), en1\<lparr>en_session := s\<rparr>, ?w)" by simp
  have "en_store (en1\<lparr>en_session := s\<rparr>) = ap_keystore (rn_app (sy_run S))"
    using dispatch_frame [OF d] by (simp add: engine_of_def)
  with d that show thesis by blast
qed

text \<open>A request that passes every check; its record list has a JSON text and the write succeeds.\<close>

lemma approved_store_run:
  fixes S :: "'z disk_world_scheme system"
  assumes laws: "disk_laws L" "aead_total L" "hex_ok L"
    and state: "system_synced L master S" "slint_inv (sy_approver S)"
    and host: "session_inv host" "seal L (as_bytes pw) t host wh = (Inr (sp_password_sealed p), host1, wh1)"
      "ss_key (rn_session (sy_run S)) = ss_key host"
    and checks: "canonicalize_origin L (sp_origin p) = Inr ori" "check_names (sp_username p) (sp_label p) = Inr ()"
      "str_ok pw" "length pw \<le> MAX_PASSWORD_BYTES"
    and gate: "gate_session (sp_request_nonce p) now (engine_of (sy_run S)) = (Inr (), en1)"
    and upsert: "ks_upsert L ori (sp_username p) pw (sp_label p) (ap_keystore (rn_app (sy_run S))) (rn_world (sy_run S)) = (x, ks, v)"
    and json: "json_of_records L (ks_records ks) = Inr raw" "length raw < 2 ^ 32"
    and ok: "shd (dw_writes (rn_world (sy_run S)))"
  obtains wt act S' r where "trace_run (system_step L) S
       [Host (Asked \<lparr>rq_id = i, rq_method = StoreCredential p\<rparr> wt), Host (Tapped Approve (Some (sa_channels (sy_approver S)))),
        Host (Resumed wt Approve (Inr (CredentialStored act)))] S'"
    "wt_ticket wt = Waiting (sa_channels (sy_approver S))"
    "app_start L master (rn_world (sy_run S')) = Inr r"
    "vault_in r = (vault_in (sy_run S))((ori, sp_username p) \<mapsto> (pw, False))"
proof -
  let ?ops = "keystore_ops L :: (keystore, credential_record list, 'z disk_world_scheme) store_ops"
  let ?en = "engine_of (sy_run S)" and ?w = "rn_world (sy_run S)"
  obtain ar act en' where d: "dispatch L ?ops (StoreCredential p) now ?en ?w =
      (Ask ar (AfterStore ori (sp_username p) (sp_label p) pw act), en', ?w)"
    and st: "en_store en' = ap_keystore (rn_app (sy_run S))"
    by (rule store_dispatch_asks [OF laws(1,3) host checks gate])
  let ?en1 = en' and ?k = "AfterStore ori (sp_username p) (sp_label p) pw act"
  have u: "ks_upsert L ori (sp_username p) pw (sp_label p) (en_store ?en1) ?w = (x, ks, v)" using upsert st by simp
  have x: "x = Inr ()" using u by (cases rule: ks_upsert_cases)
  have sy: "synced L master (ap_keystore (rn_app (sy_run S))) ?w"
    using state(1) by (simp add: system_synced_def running_synced_def)
  have key: "ks_key ks = derive_key L master" using ks_upsert_disk [OF u] sy st by (simp add: synced_def)
  have wr: "shd (dw_writes v)" using on_writes.upsert [OF u] ok by simp
  obtain w2 where h: "persist_keystore L ks v = (True, w2)" "synced L master ks w2"
    by (rule persist_succeeds [OF laws(1,2) key json wr])
  have r: "resume L ?ops (on_write L) ?k Approve ?en1 ?w =
      Some (Inr (CredentialStored act), ?en1\<lparr>en_store := ks\<rparr>, w2)"
    by (rule ks_engine.resume_store_approved(1)) (use u x h(1) in \<open>simp_all add: keystore_ops_def on_write_def\<close>)
  let ?rq = "\<lparr>rq_id = i, rq_method = StoreCredential p\<rparr>"
  define wt where "wt = \<lparr>wt_ticket = Waiting (sa_channels (sy_approver S)), wt_id = rq_id ?rq, wt_request = ar, wt_kont = ?k\<rparr>"
  have d': "dispatch L ?ops (rq_method ?rq) now ?en ?w = (Ask ar ?k, ?en1, ?w)" using d by simp
  obtain S' where run: "trace_run (system_step L) S
       [Host (Asked ?rq wt), Host (Tapped Approve (Some (sa_channels (sy_approver S)))),
        Host (Resumed wt Approve (Inr (CredentialStored act)))] S'"
    and S': "ap_keystore (rn_app (sy_run S')) = en_store (?en1\<lparr>en_store := ks\<rparr>)" "rn_world (sy_run S') = w2"
    by (rule ask_tap_resume [OF state(2) _ d' r wt_def, of "\<lparr>ue_now = 0, ue_loop_ok = True\<rparr>"]) simp
  have "running_synced L master (sy_run S')" using h(2) S' by (simp add: running_synced_def)
  then obtain r' where "app_start L master (rn_world (sy_run S')) = Inr r'"
    "ap_keystore (rn_app r') = ap_keystore (rn_app (sy_run S'))" by (rule synced_restart)
  with run S' upsert_vault [OF u] st show thesis
    by (intro that [of wt act S' r']) (simp_all add: wt_def)
qed

section \<open>A sample run\<close>

text \<open>
  The app started on an empty disk, after a host has established a session. The host has the key
  of \<open>sample_session\<close>.
\<close>

definition session_ready :: "credential_record list \<Rightarrow> bool stream \<Rightarrow> disk_world system \<Rightarrow> bool" where
  "session_ready rs writes S \<longleftrightarrow>
     ap_keystore (rn_app (sy_run S)) = keystore_new (sample_app rs) [7] \<and> rn_session (sy_run S) = sample_session \<and>
     w_rng (rn_world (sy_run S)) = sconst 0 \<and> w_clock (rn_world (sy_run S)) = sconst 0 \<and>
     dw_disk (rn_world (sy_run S)) = None \<and> dw_writes (rn_world (sy_run S)) = writes \<and>
     sy_approver S = slint_approver_new"

lemma sample_accept:
  assumes "w_rng (w :: 'z world_scheme) = sconst 0"
  obtains dev where "accept (sample_app rs) (of_bytes (replicate 32 7)) SESSION_INFO 1000 session_new w = (Inr dev, sample_session, w)"
proof -
  let ?L = "sample_app rs"
  have f: "fill_bytes 32 w = (replicate 32 0, w)" using assms by (simp add: fill_bytes_def numeral_eq_Suc)
  have p: "parse_pubkey ?L (of_bytes (replicate 32 7)) = Inr (replicate 32 7)"
    by (simp add: parse_pubkey_def sample_app_sel sample_json_sel sample_libs_def)
  have x: "x25519_shared ?L (replicate 32 0) (replicate 32 7) = replicate 32 7"
    by (simp add: sample_app_def sample_json_def json_libs.defs libs.defs sample_libs_def pad32_def)
  have k: "hkdf_expand32 ?L (replicate 32 7) SESSION_INFO = replicate 32 7"
    by (simp add: sample_app_sel sample_json_sel sample_libs_def pad32_def)
  have z: "\<not> all_zero (replicate 32 7)" by (simp add: all_zero_def list_all_iff)
  have act: "activate (replicate 32 7) 1000 (session_new\<lparr>ss_state := Handshaking\<rparr>) = sample_session"
    by (simp add: activate_def session_new_def sample_session_def)
  show thesis by (rule that) (simp add: accept_def Let_def f p x k z act)
qed

lemma sample_session_start:
  obtains r S resp where "app_start (sample_app rs) [7] (sample_disk writes) = Inr r"
    "trace_run (system_step (sample_app rs)) (system_new r)
       [Host (Answered \<lparr>rq_id = ''0'', rq_method = EstablishSession (of_bytes (replicate 32 7))\<rparr> resp)] S"
    "session_ready rs writes S"
proof -
  let ?L = "sample_app rs" and ?w = "sample_disk writes"
  let ?rq = "\<lparr>rq_id = ''0'', rq_method = EstablishSession (of_bytes (replicate 32 7))\<rparr>"
  obtain a w where a: "app_refresh ?L (app_new (keystore_new ?L [7])) ?w = (a, w)" by force
  have w: "w_rng w = sconst 0" "w_clock w = sconst 0" "dw_disk w = None" "dw_writes w = writes"
    using a by (auto simp: app_refresh_def refresh_credentials_def visible_records_def app_new_def keystore_new_def
        sample_disk_def sample_world_def world.defs)
  have ks: "ap_keystore a = keystore_new ?L [7]" using app_refresh_disk [OF a] by (simp add: app_new_def)
  define r where "r = \<lparr>rn_app = a, rn_session = session_new, rn_world = w\<rparr>"
  have r: "app_start ?L [7] ?w = Inr r"
    using a by (simp add: app_start_def load_keystore_def r_def) (simp add: sample_disk_def world.defs)
  obtain dev where acc: "accept ?L (of_bytes (replicate 32 7)) SESSION_INFO 1000 session_new w = (Inr dev, sample_session, w)"
    by (rule sample_accept [OF w(1)])
  let ?S0 = "system_new r"
  define sv where "sv = (server_of ?S0)\<lparr>sv_engine := (engine_of r)\<lparr>en_session := sample_session\<rparr>, sv_world := w\<rparr>"
  have st: "server_step ?L (keystore_ops ?L) (on_write ?L) (server_of ?S0)
      (Answered ?rq (Inr (SessionEstablished dev))) sv"
    unfolding sv_def by (rule server_step.answer [where now = 1000])
      (simp add: acc server_of_def system_new_def engine_of_def r_def)
  have "system_step ?L ?S0 (Host (Answered ?rq (Inr (SessionEstablished dev)))) (put_server sv ?S0)"
    by (rule system_step.host [OF st]) simp
  then have "trace_run (system_step ?L) ?S0 [Host (Answered ?rq (Inr (SessionEstablished dev)))] (put_server sv ?S0)"
    by (rule trace_run_one)
  moreover have "session_ready rs writes (put_server sv ?S0)"
    by (simp add: session_ready_def put_server_def put_engine_def sv_def engine_of_def server_of_def system_new_def
        r_def w ks)
  ultimately show thesis using r that by blast
qed

lemma session_ready_synced: "session_ready rs writes S \<Longrightarrow> system_synced (sample_app rs) [7] S"
  by (simp add: session_ready_def system_synced_def running_synced_def synced_def load_keystore_def keystore_new_def)

lemma sample_app_sealed:
  obtains sealed s w' where
    "seal (sample_app rs) p t sample_session (w :: 'z world_scheme) = (Inr sealed, s, w')"
  by (cases "fill_bytes 12 w") (simp add: seal_def sample_session_def sample_app_sel sample_json_sel sample_libs_def
      sample_encrypt_def)

definition sample_store :: "string \<Rightarrow> store_params" where
  "sample_store sealed = \<lparr>sp_origin = ''https://example.com'', sp_username = ''ann'', sp_label = None,
     sp_password_sealed = sealed, sp_request_nonce = 1\<rparr>"

lemma sample_store_sel [simp]:
  "sp_origin (sample_store x) = ''https://example.com''" "sp_username (sample_store x) = ''ann''"
  "sp_label (sample_store x) = None" "sp_password_sealed (sample_store x) = x" "sp_request_nonce (sample_store x) = 1"
  by (simp_all add: sample_store_def)

lemma sample_checks:
  "canonicalize_origin (sample_app rs) (sp_origin (sample_store x)) = Inr ''https://example.com''"
  "check_names (sp_username (sample_store x)) (sp_label (sample_store x)) = Inr ()"
  "str_ok ''host''" "length ''host'' \<le> MAX_PASSWORD_BYTES"
proof -
  show "canonicalize_origin (sample_app rs) (sp_origin (sample_store x)) = Inr ''https://example.com''"
    by (simp add: canonicalize_origin_def origin_parse_def sample_app_sel sample_json_sel) code_simp
  show "check_names (sp_username (sample_store x)) (sp_label (sample_store x)) = Inr ()"
    unfolding sample_store_sel by code_simp
qed code_simp+

text \<open>In that session a store passes every check, and its record list has a JSON text.\<close>

lemma session_ready_store:
  fixes S :: "disk_world system"
  assumes "session_ready [raced_records ! 0] writes S"
  obtains sealed s w en1 ks v where
    "slint_inv (sy_approver S)" "sa_channels (sy_approver S) = 0"
    "seal (sample_app [raced_records ! 0]) (as_bytes ''host'') 0 sample_session sample_world =
       (Inr (sp_password_sealed (sample_store sealed)), s, w)"
    "ss_key (rn_session (sy_run S)) = ss_key sample_session"
    "gate_session (sp_request_nonce (sample_store sealed)) 2000 (engine_of (sy_run S)) = (Inr (), en1)"
    "ks_upsert (sample_app [raced_records ! 0]) ''https://example.com'' (sp_username (sample_store sealed)) ''host''
       (sp_label (sample_store sealed)) (ap_keystore (rn_app (sy_run S))) (rn_world (sy_run S)) = (Inr (), ks, v)"
    "json_of_records (sample_app [raced_records ! 0]) (ks_records ks) = Inr [1]" "length ([1] :: bytes) < 2 ^ 32"
    "dw_writes (rn_world (sy_run S)) = writes"
proof -
  let ?L = "sample_app [raced_records ! 0]"
  let ?ks = "(keystore_new ?L [7])\<lparr>ks_records := [raced_records ! 0]\<rparr>"
  note r = assms [unfolded session_ready_def]
  obtain sealed s w where sl: "seal ?L (as_bytes ''host'') 0 sample_session sample_world = (Inr sealed, s, w)"
    by (rule sample_app_sealed)
  have "\<exists>en1. gate_session (sp_request_nonce (sample_store sealed)) 2000 (engine_of (sy_run S)) = (Inr (), en1)"
    using r by (simp add: gate_session_Inr engine_of_def check_idle_iff) (simp add: sample_session_def)
  then obtain en1 where g: "gate_session (sp_request_nonce (sample_store sealed)) 2000 (engine_of (sy_run S)) = (Inr (), en1)"
    by blast
  obtain v where u: "ks_upsert ?L ''https://example.com'' ''ann'' ''host'' None (keystore_new ?L [7]) (rn_world (sy_run S)) =
      (Inr (), ?ks, v)"
    using r by (simp add: ks_upsert_def keystore_new_def now_secs_def credential_record_new_def uuid_new_v4_def
        fill_bytes_def Let_def ks_add_def raced_records_def next_automatic_color_def sample_app_sel sample_json_sel
        sample_libs_def numeral_eq_Suc)
  have j: "json_of_records ?L (ks_records ?ks) = Inr [1]"
    by (simp add: sample_app_def sample_json_def json_libs.defs libs.defs)
  show thesis
    by (rule that [OF _ _ _ _ g _ j])
      (use r u sl in \<open>simp_all add: slint_inv_new slint_approver_new_def [THEN arg_cong [of _ _ sa_channels]]\<close>)
qed

section \<open>Properties\<close>

text \<open>
  C3: an approved store reaches the disk. In a state where memory and disk agree, let a host send a
  \<open>store\<close> whose origin, names, password and nonce pass the checks and whose password is sealed
  under the session key, and let the user tap \<open>Approve\<close> on its card. If the records have a JSON
  text and the write succeeds, the handler answers \<open>credential_stored\<close>, and an app that is
  restarted on the resulting disk has exactly the old entries with the host's password, not
  archived, for the canonical origin and the user name.
\<close>

theorem approved_store_reaches_the_disk:
  fixes S :: "'z disk_world_scheme system"
  assumes laws: "disk_laws L" "aead_total L" "hex_ok L"
    and state: "system_synced L master S" "slint_inv (sy_approver S)"
    and host: "session_inv host" "seal L (as_bytes pw) t host wh = (Inr (sp_password_sealed p), host1, wh1)"
      "ss_key (rn_session (sy_run S)) = ss_key host"
    and checks: "canonicalize_origin L (sp_origin p) = Inr ori" "check_names (sp_username p) (sp_label p) = Inr ()"
      "str_ok pw" "length pw \<le> MAX_PASSWORD_BYTES"
    and gate: "gate_session (sp_request_nonce p) now (engine_of (sy_run S)) = (Inr (), en1)"
    and upsert: "ks_upsert L ori (sp_username p) pw (sp_label p) (ap_keystore (rn_app (sy_run S))) (rn_world (sy_run S)) = (x, ks, v)"
    and json: "json_of_records L (ks_records ks) = Inr raw" "length raw < 2 ^ 32"
    and ok: "shd (dw_writes (rn_world (sy_run S)))"
  shows "\<exists>wt act S' r. trace_run (system_step L) S
       [Host (Asked \<lparr>rq_id = i, rq_method = StoreCredential p\<rparr> wt), Host (Tapped Approve (Some (sa_channels (sy_approver S)))),
        Host (Resumed wt Approve (Inr (CredentialStored act)))] S' \<and>
     wt_ticket wt = Waiting (sa_channels (sy_approver S)) \<and>
     app_start L master (rn_world (sy_run S')) = Inr r \<and>
     vault_in r = (vault_in (sy_run S))((ori, sp_username p) \<mapsto> (pw, False))"
proof -
  obtain wt act S' r where "trace_run (system_step L) S
       [Host (Asked \<lparr>rq_id = i, rq_method = StoreCredential p\<rparr> wt), Host (Tapped Approve (Some (sa_channels (sy_approver S)))),
        Host (Resumed wt Approve (Inr (CredentialStored act)))] S'"
    "wt_ticket wt = Waiting (sa_channels (sy_approver S))"
    "app_start L master (rn_world (sy_run S')) = Inr r"
    "vault_in r = (vault_in (sy_run S))((ori, sp_username p) \<mapsto> (pw, False))"
    by (rule approved_store_run [OF laws state host checks gate upsert json ok])
  then show ?thesis by (intro exI conjI)
qed

lemma approved_store_reaches_the_disk_witness:
  "\<exists>(r :: disk_world running) tr S sealed wt act S' r'.
     app_start (sample_app [raced_records ! 0]) [7] (sample_disk (sconst True)) = Inr r \<and>
     trace_run (system_step (sample_app [raced_records ! 0])) (system_new r) tr S \<and>
     trace_run (system_step (sample_app [raced_records ! 0])) S
       [Host (Asked \<lparr>rq_id = ''1'', rq_method = StoreCredential (sample_store sealed)\<rparr> wt),
        Host (Tapped Approve (Some 0)), Host (Resumed wt Approve (Inr (CredentialStored act)))] S' \<and>
     app_start (sample_app [raced_records ! 0]) [7] (rn_world (sy_run S')) = Inr r' \<and>
     vault_in r' = (vault_in (sy_run S))((''https://example.com'', ''ann'') \<mapsto> (''host'', False))"
proof -
  let ?L = "sample_app [raced_records ! 0]"
  obtain r S resp where r: "app_start ?L [7] (sample_disk (sconst True)) = Inr r"
    and run: "trace_run (system_step ?L) (system_new r)
       [Host (Answered \<lparr>rq_id = ''0'', rq_method = EstablishSession (of_bytes (replicate 32 7))\<rparr> resp)] S"
    and ready: "session_ready [raced_records ! 0] (sconst True) S" by (rule sample_session_start)
  obtain sealed s w en1 ks v where h: "slint_inv (sy_approver S)" "sa_channels (sy_approver S) = 0"
    "seal ?L (as_bytes ''host'') 0 sample_session sample_world = (Inr (sp_password_sealed (sample_store sealed)), s, w)"
    "ss_key (rn_session (sy_run S)) = ss_key sample_session"
    "gate_session (sp_request_nonce (sample_store sealed)) 2000 (engine_of (sy_run S)) = (Inr (), en1)"
    "ks_upsert ?L ''https://example.com'' (sp_username (sample_store sealed)) ''host''
       (sp_label (sample_store sealed)) (ap_keystore (rn_app (sy_run S))) (rn_world (sy_run S)) = (Inr (), ks, v)"
    "json_of_records ?L (ks_records ks) = Inr [1]" "length ([1] :: bytes) < 2 ^ 32"
    "dw_writes (rn_world (sy_run S)) = sconst True" by (rule session_ready_store [OF ready])
  have ok: "shd (dw_writes (rn_world (sy_run S)))" using h(9) by simp
  note ex = approved_store_reaches_the_disk [OF sample_app_disk_laws sample_app_laws(2,3)
      session_ready_synced [OF ready] h(1) sample_session_inv(1) h(3,4) sample_checks h(5-8) ok,
      where i = "''1''", unfolded h(2) sample_store_sel(2)]
  from ex show ?thesis
    by (elim exE conjE) (intro exI conjI, rule r, rule run, assumption+)
qed

end
