(* ===== verification/Threads.thy ===== *)
theory Threads
  imports System
begin

text \<open>
  The whole app at the grain of its locks. \<open>System\<close> runs the end of an approved \<open>store\<close> or
  \<open>generate\<close> handler as one step; here it is cut, as in \<open>CommitSteps\<close>, into the locked section
  that snapshots and mutates, the hook that writes, the rollback when the hook failed, and
  the answer. Any number of handlers may be between these sections, while host requests,
  taps, time outs and callbacks of the user run.
\<close>

section \<open>The steps\<close>

record commit =
  cm_waiting :: waiting
  cm_password :: string
  cm_phase :: commit_phase

record 'w threads =
  th_system :: "'w system"
  th_commits :: "commit list"

definition threads_new :: "'w running \<Rightarrow> 'w threads" where
  "threads_new r = \<lparr>th_system = system_new r, th_commits = []\<rparr>"

text \<open>
  The handler from its await into its first locked section: the password it stores, the
  phase it is in, the store and the world. \<open>None\<close>: there is no commit, or the generator
  does not return.
\<close>

fun begin_commit ::
  "'l app_libs_scheme \<Rightarrow> kont \<Rightarrow> keystore \<Rightarrow> 'z disk_world_scheme \<Rightarrow>
   (string \<times> commit_phase \<times> keystore \<times> 'z disk_world_scheme) option"
where
  "begin_commit L (AfterRelease user pw now) ks w = None"
| "begin_commit L (AfterStore ori user lab pw act) ks w =
     Some (pw, commit_turn L (upsert_mutation (keystore_ops L) ori user pw lab) Begin ks w)"
| "begin_commit L (AfterGenerate ori user lab len charset act now) ks w =
     map_option (\<lambda>(pw, w1). (pw, commit_turn L (upsert_mutation (keystore_ops L) ori user pw lab) Begin ks w1))
       (generate_password len charset w)"

text \<open>The answer, once the commit has ended.\<close>

fun end_commit ::
  "'l app_libs_scheme \<Rightarrow> kont \<Rightarrow> string \<Rightarrow> engine_error + unit \<Rightarrow> keystore engine \<Rightarrow> 'z disk_world_scheme \<Rightarrow>
   (engine_error + response_body) \<times> keystore engine \<times> 'z disk_world_scheme"
where
  "end_commit L k pw (Inl e) en w = (Inl e, en, w)"
| "end_commit L (AfterRelease user p now) pw (Inr u) en w = (Inr Empty, en, w)"      \<comment> \<open>does not occur\<close>
| "end_commit L (AfterStore ori user lab p act) pw (Inr u) en w = (Inr (CredentialStored act), en, w)"
| "end_commit L (AfterGenerate ori user lab len charset act now) pw (Inr u) en w =
     (case seal_password L pw now en w of
        (Inl e, en1, w1) \<Rightarrow> (Inl e, en1, w1)
      | (Inr h, en1, w1) \<Rightarrow> (Inr (PasswordGenerated h act), en1, w1))"

text \<open>A locked section of a commit that has begun; \<open>commit_turn\<close> uses no mutation there.\<close>

definition later_turn ::
  "'l json_libs_scheme \<Rightarrow> commit_phase \<Rightarrow> keystore \<Rightarrow> 'z disk_world_scheme \<Rightarrow> commit_phase \<times> keystore \<times> 'z disk_world_scheme"
where
  "later_turn L = commit_turn L (\<lambda>ks w. (Inr (), ks, w))"

definition put_store :: "keystore \<Rightarrow> 'w \<Rightarrow> 'w system \<Rightarrow> 'w system" where
  "put_store ks w S =
     S\<lparr>sy_run := (sy_run S)\<lparr>rn_app := (rn_app (sy_run S))\<lparr>ap_keystore := ks\<rparr>, rn_world := w\<rparr>\<rparr>"

definition store_of :: "'w system \<Rightarrow> keystore" where
  "store_of S = ap_keystore (rn_app (sy_run S))"

definition world_of :: "'w system \<Rightarrow> 'w" where
  "world_of S = rn_world (sy_run S)"

datatype thread_event =
    Sys system_event
  | Began waiting
  | Turned waiting commit_phase                   \<comment> \<open>the phase it is in afterwards\<close>
  | Finished waiting "engine_error + response_body"

text \<open>Steps of \<open>System\<close> but the end of an approved handler that commits.\<close>

fun uncut :: "system_event \<Rightarrow> bool" where
  "uncut (Host (Resumed wt Approve r)) \<longleftrightarrow> (\<exists>user pw now. wt_kont wt = AfterRelease user pw now)"
| "uncut _ \<longleftrightarrow> True"

inductive thread_step ::
  "'l app_libs_scheme \<Rightarrow> 'z disk_world_scheme threads \<Rightarrow> thread_event \<Rightarrow> 'z disk_world_scheme threads \<Rightarrow> bool"
for L where
  sys: "system_step L (th_system T) e S \<Longrightarrow> uncut e \<Longrightarrow> thread_step L T (Sys e) (T\<lparr>th_system := S\<rparr>)"
| began: "wt \<in> set (sy_waiting (th_system T)) \<Longrightarrow>
     ticket_decision (sy_approver (th_system T)) (wt_ticket wt) = Some Approve \<Longrightarrow>
     begin_commit L (wt_kont wt) (store_of (th_system T)) (world_of (th_system T)) = Some (pw, ph, ks, w) \<Longrightarrow>
     thread_step L T (Began wt)
       \<lparr>th_system = (put_store ks w (th_system T))\<lparr>sy_waiting := remove1 wt (sy_waiting (th_system T))\<rparr>,
        th_commits = th_commits T @ [\<lparr>cm_waiting = wt, cm_password = pw, cm_phase = ph\<rparr>]\<rparr>"
| turned: "i < length (th_commits T) \<Longrightarrow> cm = th_commits T ! i \<Longrightarrow> (\<forall>r. cm_phase cm \<noteq> Committed r) \<Longrightarrow>
     later_turn L (cm_phase cm) (store_of (th_system T)) (world_of (th_system T)) = (ph, ks, w) \<Longrightarrow>
     thread_step L T (Turned (cm_waiting cm) ph)
       \<lparr>th_system = put_store ks w (th_system T), th_commits = (th_commits T)[i := cm\<lparr>cm_phase := ph\<rparr>]\<rparr>"
| finished: "cm \<in> set (th_commits T) \<Longrightarrow> cm_phase cm = Committed r \<Longrightarrow>
     end_commit L (wt_kont (cm_waiting cm)) (cm_password cm) r (engine_of (sy_run (th_system T)))
       (world_of (th_system T)) = (res, en, w) \<Longrightarrow>
     thread_step L T (Finished (cm_waiting cm) res)
       \<lparr>th_system = (th_system T)\<lparr>sy_run := put_engine en w (sy_run (th_system T))\<rparr>,
        th_commits = remove1 cm (th_commits T)\<rparr>"

section \<open>Undisturbed, it is the one step of \<open>System\<close>\<close>

lemma undisturbed_commit:
  assumes b: "begin_commit L k (store_of S) (world_of S) = Some (pw, ph, ks, w)"
    and t1: "later_turn L ph ks w = (ph1, ks1, w1)" and t2: "later_turn L ph1 ks1 w1 = (Committed r, ks2, w2)"
  shows "resume L (keystore_ops L) (on_write L) k Approve (engine_of (sy_run S)) (world_of S) =
     Some (end_commit L k pw r ((engine_of (sy_run S))\<lparr>en_store := ks2\<rparr>) w2)"
proof -
  have c: "commit_store_mutation (keystore_ops L) (on_write L) mut en v = (r, en\<lparr>en_store := ks2\<rparr>, w2)"
    if "commit_turn L mut Begin (en_store en) v = (ph, ks, w)" for mut en v
    using that t1 t2
    by (auto simp: commit_store_mutation_def later_turn_def keystore_ops_def Let_def
        split: prod.splits sum.splits bool.splits)
  show ?thesis
  proof (cases k)
    case (AfterStore ori user lab p act)
    then have "commit_turn L (upsert_mutation (keystore_ops L) ori user pw lab) Begin
        (en_store (engine_of (sy_run S))) (world_of S) = (ph, ks, w)" "pw = p"
      using b by (auto simp: store_of_def engine_of_def)
    from c [OF this(1)] this(2) AfterStore show ?thesis by (cases r) (simp_all add: resume_def)
  next
    case (AfterGenerate ori user lab len charset act now)
    then obtain v where g: "generate_password len charset (world_of S) = Some (pw, v)"
      and "commit_turn L (upsert_mutation (keystore_ops L) ori user pw lab) Begin
        (en_store (engine_of (sy_run S))) v = (ph, ks, w)"
      using b by (auto simp: store_of_def engine_of_def)
    from c [OF this(2)] g AfterGenerate show ?thesis
      by (cases r) (auto simp: resume_def split: prod.splits sum.splits)
  qed (use b in simp)
qed

section \<open>Memory and disk\<close>

definition open_commit :: "'w threads \<Rightarrow> bool" where
  "open_commit T \<longleftrightarrow> (\<exists>cm \<in> set (th_commits T). \<exists>sn. cm_phase cm = Mutated sn)"

definition sound_commits :: "'w threads \<Rightarrow> bool" where
  "sound_commits T \<longleftrightarrow> (\<forall>cm \<in> set (th_commits T). (\<exists>sn. cm_phase cm = Mutated sn) \<or> (\<exists>r. cm_phase cm = Committed r))"

definition level :: "'l app_libs_scheme \<Rightarrow> bytes \<Rightarrow> 'z disk_world_scheme threads \<Rightarrow> bool" where
  "level L master T \<longleftrightarrow> synced L master (store_of (th_system T)) (world_of (th_system T)) \<or> open_commit T"

fun hook_failed :: "thread_event \<Rightarrow> bool" where
  "hook_failed (Turned wt (HookFailed sn)) \<longleftrightarrow> True"
| "hook_failed _ \<longleftrightarrow> False"

lemma put_store_sel [simp]:
  "store_of (put_store ks w S) = ks" "world_of (put_store ks w S) = w"
  "sy_approver (put_store ks w S) = sy_approver S" "sy_waiting (put_store ks w S) = sy_waiting S"
  by (simp_all add: put_store_def store_of_def world_of_def)

lemma store_world_waiting [simp]:
  "store_of (S\<lparr>sy_waiting := ws\<rparr>) = store_of S" "world_of (S\<lparr>sy_waiting := ws\<rparr>) = world_of S"
  by (simp_all add: store_of_def world_of_def)

text \<open>What every callback keeps, with any alternative that depends on the disk alone.\<close>

lemma lagging_invariant:
  assumes "disk_laws L"
  shows "callback_invariant L (\<lambda>ks w :: 'z disk_world_scheme. ks_key ks = derive_key L master \<and>
     (synced L master ks w \<or> B (dw_disk w)))"
proof unfold_locales
  fix ks0 ks a and w :: "'z disk_world_scheme" and ok a' w'
  assume p: "ks_key ks0 = derive_key L master \<and> (synced L master ks0 w \<or> B (dw_disk w))"
    and k: "ks_key ks = ks_key ks0" and r: "persist_or_restore L (ks_snapshot ks0) ks a w = (ok, a', w')"
  obtain b w1 where pk: "persist_keystore L ks w = (b, w1)" by force
  have "ks_key ks = derive_key L master" using p k by simp
  from persist_synced [OF assms this pk] r pk p k
  show "ks_key (ap_keystore a') = derive_key L master \<and> (synced L master (ap_keystore a') w' \<or> B (dw_disk w'))"
    by (cases b) (auto simp: persist_or_restore_def synced_def)
qed (auto simp: synced_def)

lemma host_uncut:
  assumes "server_step L (keystore_ops L) hook s e s'" and "e \<noteq> Edited" and "uncut (Host e)"
  shows "en_store (sv_engine s') = en_store (sv_engine s) \<and> dw_disk (sv_world s') = dw_disk (sv_world s)"
  using assms(1)
proof cases
  case (finish wt d r en w)
  show ?thesis
  proof (cases "d = Approve")
    case True
    then obtain user pw now where "wt_kont wt = AfterRelease user pw now" using assms(3) finish(1) by auto
    with True finish show ?thesis by (auto simp: resume_def split: prod.splits sum.splits dest!: seal_password_disk)
  next
    case False
    with finish show ?thesis by (simp add: resume_denied)
  qed
qed (use assms(2) in \<open>auto dest!: dispatch_disk\<close>)

lemma system_uncut:
  assumes laws: "disk_laws L" and st: "system_step L S e S'" and u: "uncut e"
    and P: "ks_key (store_of S) = derive_key L master" "synced L master (store_of S) (world_of S) \<or> B (dw_disk (world_of S))"
  shows "ks_key (store_of S') = derive_key L master \<and>
     (synced L master (store_of S') (world_of S') \<or> B (dw_disk (world_of S')))"
  using st
proof cases
  case (host ev sv)
  have "store_of S' = store_of S \<and> dw_disk (world_of S') = dw_disk (world_of S)"
    using host_uncut [OF host(3,4)] u host(1,2)
    by (simp add: store_of_def world_of_def put_server_def put_engine_def server_of_def engine_of_def)
  with P show ?thesis by (auto simp: synced_def)
next
  case (user p r)
  from callback_invariant.ui_step [OF lagging_invariant [OF laws, of master B] user(3)] P user(2) show ?thesis
    by (simp add: store_of_def world_of_def)
qed

text \<open>The first section opens a commit and leaves disk and key.\<close>

lemma begin_commit_view:
  assumes "begin_commit L k ks w = Some (pw, ph, ks', w')"
  shows "(\<exists>sn. ph = Mutated sn) \<and> ks_key ks' = ks_key ks \<and> dw_disk w' = dw_disk w"
proof -
  have u: "(\<exists>sn. ph = Mutated sn) \<and> ks_key ks' = ks_key ks \<and> dw_disk w' = dw_disk v"
    if "commit_turn L (upsert_mutation (keystore_ops L) ori user p lab) Begin ks v = (ph, ks', w')"
    for ori user p lab and v
    using that
    by (auto simp: upsert_mutation_def keystore_ops_def upsert_never_fails split: prod.splits sum.splits dest!: ks_upsert_disk)
  show ?thesis using assms
    by (cases k) (auto simp del: commit_turn.simps dest!: u dest: on_disk.generating)
qed

lemma end_commit_view:
  "end_commit L k pw r en w = (res, en', w') \<Longrightarrow> en_store en' = en_store en \<and> dw_disk w' = dw_disk w"
  by (cases r; cases k) (auto split: prod.splits sum.splits dest!: seal_password_disk)

lemma sound_commits_update:
  assumes "sound_commits T" and "th_commits T' = (th_commits T)[i := cm]" and "cm_phase cm = Committed r"
  shows "sound_commits T'"
  unfolding sound_commits_def
proof
  fix x
  assume "x \<in> set (th_commits T')"
  then have "x = cm \<or> x \<in> set (th_commits T)" using set_update_subset_insert [of "th_commits T" i cm] assms(2) by auto
  with assms(1,3) show "(\<exists>sn. cm_phase x = Mutated sn) \<or> (\<exists>r. cm_phase x = Committed r)"
    unfolding sound_commits_def by blast
qed

lemma put_engine_store:
  "store_of (S\<lparr>sy_run := put_engine en w (sy_run S)\<rparr>) = en_store en"
  "world_of (S\<lparr>sy_run := put_engine en w (sy_run S)\<rparr>) = w"
  "en_store (engine_of (sy_run S)) = store_of S"
  by (simp_all add: store_of_def world_of_def put_engine_def engine_of_def)

text \<open>One step, whatever its hook does: the disk is as before or holds what is in memory.\<close>

lemma thread_step_key_disk:
  assumes laws: "disk_laws L" and st: "thread_step L T e T'"
    and key: "ks_key (store_of (th_system T)) = derive_key L master"
  shows "ks_key (store_of (th_system T')) = derive_key L master"
    and "dw_disk (world_of (th_system T')) = dw_disk (world_of (th_system T)) \<or>
         synced L master (store_of (th_system T')) (world_of (th_system T'))"
proof -
  have "ks_key (store_of (th_system T')) = derive_key L master \<and>
    (dw_disk (world_of (th_system T')) = dw_disk (world_of (th_system T)) \<or>
     synced L master (store_of (th_system T')) (world_of (th_system T')))"
    using st
  proof cases
    case (sys ev S)
    from system_uncut [OF laws sys(3,4) key, of "\<lambda>d. d = dw_disk (world_of (th_system T))"] sys(2)
    show ?thesis by auto
  next
    case (began wt pw ph ks w)
    then show ?thesis using begin_commit_view [OF began(5)] key by simp
  next
    case (turned i cm ph ks w)
    obtain b w1 where h: "on_write L (store_of (th_system T)) (world_of (th_system T)) = (b, w1)" by force
    have "if b then synced L master (store_of (th_system T)) w1 else dw_disk w1 = dw_disk (world_of (th_system T))"
      by (rule persist_synced [OF laws key h [unfolded on_write_def]])
    with turned(2,5,6) h key show ?thesis
      by (cases "cm_phase cm"; cases b) (auto simp: later_turn_def ks_restore_snapshot_def)
  next
    case (finished cm r res en w)
    then show ?thesis using end_commit_view [OF finished(5)] key by (simp add: put_engine_store)
  qed
  then show "ks_key (store_of (th_system T')) = derive_key L master"
    and "dw_disk (world_of (th_system T')) = dw_disk (world_of (th_system T)) \<or>
         synced L master (store_of (th_system T')) (world_of (th_system T'))" by simp_all
qed

text \<open>One step, when its hook, if it runs one, succeeds.\<close>

lemma thread_step_level:
  assumes laws: "disk_laws L" and st: "thread_step L T e T'" and ok: "\<not> hook_failed e"
    and key: "ks_key (store_of (th_system T)) = derive_key L master" and snd: "sound_commits T"
  shows "sound_commits T'" and "level L master T \<Longrightarrow> level L master T'"
proof -
  have "sound_commits T' \<and> (level L master T \<longrightarrow> level L master T')"
    using st
  proof cases
    case (sys ev S)
    from system_uncut [OF laws sys(3,4) key, of "\<lambda>d. False"] sys(2) snd
    show ?thesis by (auto simp: level_def open_commit_def sound_commits_def)
  next
    case (began wt pw ph ks w)
    note v = begin_commit_view [OF began(5)]
    have "open_commit T'" using v began(2) by (auto simp: open_commit_def)
    with v began(2) snd show ?thesis by (auto simp: level_def sound_commits_def)
  next
    case (turned i cm ph ks w)
    from turned(3,4) have "cm \<in> set (th_commits T)" by simp
    with snd turned(5) obtain sn where m: "cm_phase cm = Mutated sn" unfolding sound_commits_def by blast
    obtain b w1 where h: "on_write L (store_of (th_system T)) (world_of (th_system T)) = (b, w1)" by force
    have b: b using turned(1,6) ok m h by (cases b) (auto simp: later_turn_def)
    then have r: "ph = Committed (Inr ())" "ks = store_of (th_system T)" "w = w1"
      using turned(6) m h by (auto simp: later_turn_def)
    have "synced L master (store_of (th_system T)) w1"
      using persist_synced [OF laws key h [unfolded on_write_def]] b by simp
    moreover have "sound_commits T'"
      by (rule sound_commits_update [OF snd, of _ i "cm\<lparr>cm_phase := ph\<rparr>"]) (simp_all add: turned(2) r(1))
    ultimately show ?thesis using turned(2) r by (simp add: level_def)
  next
    case (finished cm r res en w)
    have "open_commit T'" if "open_commit T"
      using that finished(2,4) by (auto simp: open_commit_def intro: bexI [OF _ in_set_remove1 [THEN iffD2]])
    moreover have "sound_commits T'"
      using snd finished(2) set_remove1_subset [of cm "th_commits T"] by (auto simp: sound_commits_def)
    ultimately show ?thesis
      using end_commit_view [OF finished(5)] finished(2) by (auto simp: level_def put_engine_store synced_def)
  qed
  then show "sound_commits T'" and "level L master T \<Longrightarrow> level L master T'" by simp_all
qed

section \<open>Traces\<close>

text \<open>
  The trace as \<open>Server\<close> sees it: a handler leaves its await when its commit begins, and what
  the commit does later is an edit.
\<close>

fun thread_view :: "thread_event \<Rightarrow> event" where
  "thread_view (Sys e) = host_view e"
| "thread_view (Began wt) = Resumed wt Approve (Inl (Internal, []))"
| "thread_view (Turned wt ph) = Edited"
| "thread_view (Finished wt r) = Edited"

lemma server_of_sel [simp]:
  "sv_approver (server_of S) = sy_approver S" "sv_waiting (server_of S) = sy_waiting S"
  by (simp_all add: server_of_def)

lemma thread_step_inv:
  assumes "thread_step L T e T'" and inv: "server_inv tr (server_of (th_system T))"
  shows "server_inv (tr @ [thread_view e]) (server_of (th_system T'))"
  using assms(1)
proof cases
  case (sys ev S)
  then show ?thesis using server_step_inv [OF system_step_server [OF sys(3)] inv] by simp
next
  case (began wt pw ph ks w)
  then show ?thesis
    by (simp only: began(1) thread_view.simps) (rule server_inv_finish [OF inv], simp_all)
next
  case (turned i cm ph ks w)
  then show ?thesis
    by (simp only: turned(1) thread_view.simps) (rule server_inv_same [OF inv], simp_all)
next
  case (finished cm r res en w)
  then show ?thesis
    by (simp only: finished(1) thread_view.simps) (rule server_inv_same [OF inv], simp_all)
qed

definition approved_begin :: "string \<times> string \<Rightarrow> thread_event list \<Rightarrow> thread_event \<Rightarrow> bool" where
  "approved_begin key tr e \<longleftrightarrow>
     (\<exists>wt c rq. e = Began wt \<and> wt_ticket wt = Waiting c \<and> Sys (Host (Asked rq wt)) \<in> set tr \<and>
        approved_by_tap (map thread_view tr) c \<and> writes_card (wt_request wt) \<and>
        key = (ar_origin (wt_request wt), ar_username (wt_request wt)))"

definition user_callback :: "thread_event \<Rightarrow> bool" where
  "user_callback e \<longleftrightarrow> (\<exists>p. e = Sys (User p) \<and> \<not> read_only_op p)"

lemma thread_view_Asked: "Asked rq wt \<in> set (map thread_view tr) \<Longrightarrow> Sys (Host (Asked rq wt)) \<in> set tr"
proof -
  have "Asked rq wt = thread_view e \<Longrightarrow> e = Sys (Host (Asked rq wt))" for e
  proof (cases e)
    case (Sys ev)
    then show "Asked rq wt = thread_view e \<Longrightarrow> ?thesis" by (cases ev) simp_all
  qed simp_all
  then show "Asked rq wt \<in> set (map thread_view tr) \<Longrightarrow> Sys (Host (Asked rq wt)) \<in> set tr" by auto
qed

section \<open>Who changes the vault in memory\<close>

abbreviation vault_mem :: "'w threads \<Rightarrow> vault" where
  "vault_mem T \<equiv> vault_of (ks_records (store_of (th_system T)))"

lemma begin_commit_vault:
  assumes "begin_commit L k ks w = Some (pw, ph, ks', w')" and card: "kont_card ar k"
    and ne: "vault_of (ks_records ks') key \<noteq> vault_of (ks_records ks) key"
  shows "writes_card ar \<and> key = (ar_origin ar, ar_username ar)"
proof -
  have u: "key = (ori, user)"
    if c: "commit_turn L (upsert_mutation (keystore_ops L) ori user p lab) Begin ks v = (ph, ks', w')" for ori user p lab v
  proof -
    obtain x ks1 w1 where up: "ks_upsert L ori user p lab ks v = (x, ks1, w1)" using prod_cases3 by blast
    have "x = Inr ()" using up by (cases rule: ks_upsert_cases)
    then have "ks' = ks1" using c up by (simp add: upsert_mutation_def keystore_ops_def)
    with upsert_vault [OF up] ne show ?thesis by (auto split: if_splits)
  qed
  show ?thesis
  proof (cases k)
    case (AfterStore ori user lab p act)
    then have "key = (ori, user)" using assms(1) u by (auto simp del: commit_turn.simps)
    with AfterStore card show ?thesis by (auto simp: writes_card_def)
  next
    case (AfterGenerate ori user lab len cs act now)
    then have "key = (ori, user)" using assms(1) u by (auto simp del: commit_turn.simps)
    with AfterGenerate card show ?thesis by (auto simp: writes_card_def)
  qed (use assms(1) in simp)
qed

text \<open>The end of a commit whose hook failed: its snapshot is put back.\<close>

fun rolled_back :: "thread_event \<Rightarrow> bool" where
  "rolled_back (Turned wt (Committed (Inl x))) \<longleftrightarrow> True"
| "rolled_back _ \<longleftrightarrow> False"

lemma thread_step_vault:
  assumes st: "thread_step L T e T'" and inv: "server_inv (map thread_view tr) (server_of (th_system T))"
    and ch: "vault_mem T' key \<noteq> vault_mem T key"
  shows "user_callback e \<or> approved_begin key tr e \<or> rolled_back e"
  using st
proof cases
  case (sys ev S)
  from sys(3) show ?thesis
  proof cases
    case (host e' sv)
    have "store_of S = store_of (th_system T)"
      using host_uncut [OF host(3,4)] sys(4) host(1,2)
      by (simp add: store_of_def put_server_def put_engine_def server_of_def engine_of_def)
    then show ?thesis using ch sys(2) by simp
  next
    case (user p r)
    then have "\<not> read_only_op p" using ch sys(2) by (auto simp: store_of_def dest: read_only_step)
    with user sys show ?thesis by (auto simp: user_callback_def)
  qed
next
  case (began wt pw ph ks w)
  have w: "wt \<in> set (sv_waiting (server_of (th_system T)))"
    "ticket_decision (sv_approver (server_of (th_system T))) (wt_ticket wt) = Some Approve"
    using began(3,4) by simp_all
  note tap = approved_waiting_from_tap [OF inv w]
  from tap(1) obtain c rq where a: "wt_ticket wt = Waiting c" "Asked rq wt \<in> set (map thread_view tr)"
    "approved_by_tap (map thread_view tr) c" by blast
  have "writes_card (wt_request wt) \<and> key = (ar_origin (wt_request wt), ar_username (wt_request wt))"
    using begin_commit_vault [OF began(5) tap(2)] ch began(2) by simp
  with a thread_view_Asked [OF a(2)] began(1) show ?thesis unfolding approved_begin_def by blast
next
  case (turned i cm ph ks w)
  then have "ks \<noteq> store_of (th_system T)" using ch by auto
  then have "rolled_back e"
    using turned(1,6) by (cases "cm_phase cm") (auto simp: later_turn_def split: prod.splits bool.splits)
  then show ?thesis by simp
next
  case (finished cm r res en w)
  then show ?thesis using ch end_commit_view [OF finished(5)] by (simp add: put_engine_store)
qed

lemma no_rollback:
  assumes "thread_step L T e T'" and "sound_commits T"
  shows "\<not> rolled_back e"
  using assms(1)
proof cases
  case (turned i cm ph ks w)
  from turned(3,4) have "cm \<in> set (th_commits T)" by simp
  with assms(2) turned(5) obtain sn where "cm_phase cm = Mutated sn" unfolding sound_commits_def by blast
  with turned(1,6) show ?thesis by (auto simp: later_turn_def split: prod.splits bool.splits)
qed simp_all

section \<open>Runs whose hooks succeed\<close>

definition threads_inv :: "'l app_libs_scheme \<Rightarrow> bytes \<Rightarrow> thread_event list \<Rightarrow> 'z disk_world_scheme threads \<Rightarrow> bool" where
  "threads_inv L master tr T \<longleftrightarrow>
     server_inv (map thread_view tr) (server_of (th_system T)) \<and> sound_commits T \<and> level L master T \<and>
     ks_key (store_of (th_system T)) = derive_key L master"

lemma threads_inv_new:
  assumes "disk_laws L" and "app_start L master w = Inr r"
  shows "threads_inv L master [] (threads_new r)"
proof -
  have "server_of (system_new r) = server_new (engine_of r) (rn_world r)"
    by (simp add: server_of_def system_new_def server_new_def)
  then have "server_inv [] (server_of (system_new r))" using server_inv_new by simp
  with app_start_synced [OF assms] show ?thesis
    by (simp add: threads_inv_def threads_new_def sound_commits_def level_def store_of_def world_of_def
        system_new_def running_synced_def synced_def)
qed

lemma threads_inv_run:
  assumes "disk_laws L"
  shows "trace_run (thread_step L) T tr T' \<Longrightarrow> \<not> list_ex hook_failed tr \<Longrightarrow> threads_inv L master tr0 T \<Longrightarrow>
     threads_inv L master (tr0 @ tr) T'"
proof (induction rule: trace_run.induct)
  case (trace_more T tr T1 e T2)
  then have i: "threads_inv L master (tr0 @ tr) T1" and ok: "\<not> hook_failed e" by simp_all
  then have k: "ks_key (store_of (th_system T1)) = derive_key L master" "sound_commits T1"
    by (simp_all add: threads_inv_def)
  from thread_step_key_disk(1) [OF assms trace_more.hyps(2) k(1)] thread_step_level [OF assms trace_more.hyps(2) ok k]
    thread_step_inv [OF trace_more.hyps(2)] i
  show ?case unfolding threads_inv_def by force
qed simp

text \<open>
  What the disk holds is what memory was, at some point since the start of the stretch,
  whichever writes failed.
\<close>

lemma run_key:
  assumes "disk_laws L"
  shows "trace_run (thread_step L) T tr T' \<Longrightarrow> ks_key (store_of (th_system T)) = derive_key L master \<Longrightarrow>
     ks_key (store_of (th_system T')) = derive_key L master"
  by (induction rule: trace_run.induct) (auto intro: thread_step_key_disk(1) [OF assms])

lemma disk_was_memory:
  assumes laws: "disk_laws L"
  shows "trace_run (thread_step L) T tr T' \<Longrightarrow>
     synced L master (store_of (th_system T)) (world_of (th_system T)) \<Longrightarrow>
     \<exists>us vs U. tr = us @ vs \<and> trace_run (thread_step L) T us U \<and>
       load_keystore L master (dw_disk (world_of (th_system T'))) = Inr (store_of (th_system U))"
proof (induction rule: trace_run.induct)
  case (trace_start T)
  then show ?case using trace_run.trace_start [of "thread_step L" T] by (auto simp: synced_def)
next
  case (trace_more T tr T1 e T2)
  have k: "ks_key (store_of (th_system T1)) = derive_key L master"
    using run_key [OF laws trace_more.hyps(1)] trace_more.prems by (simp add: synced_def)
  from thread_step_key_disk(2) [OF laws trace_more.hyps(2) k] show ?case
  proof
    assume "dw_disk (world_of (th_system T2)) = dw_disk (world_of (th_system T1))"
    moreover obtain us vs U where "tr = us @ vs" "trace_run (thread_step L) T us U"
      "load_keystore L master (dw_disk (world_of (th_system T1))) = Inr (store_of (th_system U))"
      using trace_more.IH [OF trace_more.prems] by blast
    ultimately show ?thesis by (intro exI [of _ us] exI [of _ "vs @ [e]"] exI [of _ U]) simp
  next
    assume "synced L master (store_of (th_system T2)) (world_of (th_system T2))"
    then show ?thesis
      using trace_run.trace_more [OF trace_more.hyps] by (intro exI [of _ "tr @ [e]"] exI [of _ "[]"]) (auto simp: synced_def)
  qed
qed

lemma app_start_load:
  assumes "load_keystore L master (dw_disk w) = Inr ks"
  obtains r where "app_start L master w = Inr r" "ap_keystore (rn_app r) = ks"
proof -
  obtain a w1 where a: "app_refresh L (app_new ks) w = (a, w1)" by force
  with assms app_refresh_disk [OF a] that show thesis by (simp add: app_start_def app_new_def)
qed

section \<open>Properties\<close>

text \<open>
  C2: interleaved handlers change only what was approved. Let any number of approved handlers be between their
  locked sections while requests, taps, time outs and callbacks run, and suppose that no hook
  of a handler fails (writes of callbacks may). Then a restart always succeeds, and finds what
  is in memory whenever no handler is between its mutation and its hook. Over any stretch that
  starts at such a moment, an entry that a restart would find changes only if in the stretch
  the user changed the keystore on the device, or a handler began its commit whose card named exactly
  that origin and user name and which the user had approved by a tap on its own channel.
\<close>

theorem interleaved_handlers_change_only_what_was_approved:
  assumes laws: "disk_laws L" and start: "app_start L master w = Inr r"
    and run1: "trace_run (thread_step L) (threads_new r) tr1 T1" and quiet: "\<not> open_commit T1"
    and run2: "trace_run (thread_step L) T1 tr2 T2" and ok: "\<not> list_ex hook_failed (tr1 @ tr2)"
  shows "\<exists>r1 r2. app_start L master (world_of (th_system T1)) = Inr r1 \<and>
     app_start L master (world_of (th_system T2)) = Inr r2 \<and>
     ap_keystore (rn_app r1) = store_of (th_system T1) \<and>
     (\<not> open_commit T2 \<longrightarrow> ap_keystore (rn_app r2) = store_of (th_system T2)) \<and>
     (\<forall>key. vault_in r2 key \<noteq> vault_in r1 key \<longrightarrow>
        (\<exists>us e vs. tr2 = us @ e # vs \<and> (user_callback e \<or> approved_begin key (tr1 @ us) e)))"
proof -
  have ok1: "\<not> list_ex hook_failed tr1" and ok2: "\<not> list_ex hook_failed tr2" using ok by simp_all
  have i1: "threads_inv L master tr1 T1"
    using threads_inv_run [OF laws run1 ok1 threads_inv_new [OF laws start]] by simp
  have i2: "threads_inv L master (tr1 @ tr2) T2" by (rule threads_inv_run [OF laws run2 ok2 i1])
  have s1: "synced L master (store_of (th_system T1)) (world_of (th_system T1))"
    using i1 quiet by (simp add: threads_inv_def level_def)
  obtain r1 where r1: "app_start L master (world_of (th_system T1)) = Inr r1" "ap_keystore (rn_app r1) = store_of (th_system T1)"
    using s1 by (auto simp: synced_def elim: app_start_load)
  obtain us vs U where u: "tr2 = us @ vs" "trace_run (thread_step L) T1 us U"
    "load_keystore L master (dw_disk (world_of (th_system T2))) = Inr (store_of (th_system U))"
    using disk_was_memory [OF laws run2 s1] by blast
  obtain r2 where r2: "app_start L master (world_of (th_system T2)) = Inr r2" "ap_keystore (rn_app r2) = store_of (th_system U)"
    by (rule app_start_load [OF u(3)])
  have "ap_keystore (rn_app r2) = store_of (th_system T2)" if "\<not> open_commit T2"
    using i2 that u(3) r2(2) by (simp add: threads_inv_def level_def synced_def)
  moreover have "\<exists>us e vs. tr2 = us @ e # vs \<and> (user_callback e \<or> approved_begin key (tr1 @ us) e)"
    if "vault_in r2 key \<noteq> vault_in r1 key" for key
  proof -
    have "vault_mem U key \<noteq> vault_mem T1 key" using that r1(2) r2(2) by simp
    from trace_run_changes [of "thread_step L" T1 us U "\<lambda>T. vault_mem T key", OF u(2) this]
    obtain xs e ys V W where us: "us = xs @ e # ys" and v: "trace_run (thread_step L) T1 xs V"
      and st: "thread_step L V e W" and ch: "vault_mem W key \<noteq> vault_mem V key" .
    have okx: "\<not> list_ex hook_failed xs" using ok2 u(1) us by simp_all
    have "threads_inv L master (tr1 @ xs) V" by (rule threads_inv_run [OF laws v okx i1])
    then have "server_inv (map thread_view (tr1 @ xs)) (server_of (th_system V))" "sound_commits V"
      by (simp_all add: threads_inv_def)
    from thread_step_vault [OF st this(1) ch] no_rollback [OF st this(2)]
    have "user_callback e \<or> approved_begin key (tr1 @ xs) e" by blast
    moreover have "tr2 = xs @ e # (ys @ vs)" using u(1) us by simp
    ultimately show ?thesis by blast
  qed
  ultimately show ?thesis using r1 r2(1) by blast
qed

text \<open>Steps of \<open>System\<close> that are not cut are steps here.\<close>

lemma uncut_run:
  assumes "trace_run (system_step L) S es S'" and "list_all uncut es"
  shows "trace_run (thread_step L) (T\<lparr>th_system := S\<rparr>) (map Sys es) (T\<lparr>th_system := S'\<rparr>)"
  using assms
proof (induction rule: trace_run.induct)
  case (trace_more S es S1 e S2)
  have "thread_step L (T\<lparr>th_system := S1\<rparr>) (Sys e) (T\<lparr>th_system := S1\<rparr>\<lparr>th_system := S2\<rparr>)"
    by (rule thread_step.sys) (use trace_more in simp_all)
  with trace_more show ?case using trace_run.trace_more by fastforce
qed (simp add: trace_start)

text \<open>A cut commit of an approved \<open>store\<close> that nothing disturbs: its mutation, then its hook.\<close>

lemma cut_store:
  assumes wt: "wt \<in> set (sy_waiting S)" "ticket_decision (sy_approver S) (wt_ticket wt) = Some Approve"
    "wt_kont wt = AfterStore ori user lab pw act"
    and u: "ks_upsert L ori user pw lab (store_of S) (world_of S) = (Inr (), ks, v)"
    and h: "persist_keystore L ks v = (True, w')"
  obtains S' where "trace_run (thread_step L) \<lparr>th_system = S, th_commits = []\<rparr> [Began wt, Turned wt (Committed (Inr ()))]
      \<lparr>th_system = S', th_commits = [\<lparr>cm_waiting = wt, cm_password = pw, cm_phase = Committed (Inr ())\<rparr>]\<rparr>"
    "store_of S' = ks" "world_of S' = w'"
proof -
  let ?cm = "\<lambda>ph. \<lparr>cm_waiting = wt, cm_password = pw, cm_phase = ph\<rparr>"
  let ?ph = "Mutated (ks_snapshot (store_of S))"
  let ?S1 = "(put_store ks v S)\<lparr>sy_waiting := remove1 wt (sy_waiting S)\<rparr>"
  have b: "begin_commit L (wt_kont wt) (store_of S) (world_of S) = Some (pw, ?ph, ks, v)"
    using u by (simp add: wt(3) upsert_mutation_def keystore_ops_def)
  have s1: "thread_step L \<lparr>th_system = S, th_commits = []\<rparr> (Began wt) \<lparr>th_system = ?S1, th_commits = [?cm ?ph]\<rparr>"
    using thread_step.began [of wt "\<lparr>th_system = S, th_commits = []\<rparr>" L pw ?ph ks v] wt(1,2) b by simp
  have l: "later_turn L ?ph (store_of ?S1) (world_of ?S1) = (Committed (Inr ()), ks, w')"
    using h by (simp add: later_turn_def on_write_def)
  have s2: "thread_step L \<lparr>th_system = ?S1, th_commits = [?cm ?ph]\<rparr> (Turned wt (Committed (Inr ())))
      \<lparr>th_system = put_store ks w' ?S1, th_commits = [?cm (Committed (Inr ()))]\<rparr>"
    using thread_step.turned [of 0 "\<lparr>th_system = ?S1, th_commits = [?cm ?ph]\<rparr>" "?cm ?ph" L "Committed (Inr ())" ks w'] l by simp
  have "trace_run (thread_step L) \<lparr>th_system = S, th_commits = []\<rparr> ([Began wt] @ [Turned wt (Committed (Inr ()))])
      \<lparr>th_system = put_store ks w' ?S1, th_commits = [?cm (Committed (Inr ()))]\<rparr>"
    by (rule trace_run_append [OF trace_run_one [of "thread_step L", OF s2] trace_run_one [of "thread_step L", OF s1]])
  then show thesis by (intro that [of "put_store ks w' ?S1"]) simp_all
qed

text \<open>The hook of a commit fails, undisturbed: the records it found are back.\<close>

lemma cut_store_fails:
  assumes wt: "wt \<in> set (sy_waiting S)" "ticket_decision (sy_approver S) (wt_ticket wt) = Some Approve"
    "wt_kont wt = AfterStore ori user lab pw act"
    and u: "ks_upsert L ori user pw lab (store_of S) (world_of S) = (Inr (), ks, v)"
    and h: "persist_keystore L ks v = (False, w')"
  obtains S' where "trace_run (thread_step L) \<lparr>th_system = S, th_commits = []\<rparr>
      [Began wt, Turned wt (HookFailed (ks_records (store_of S))), Turned wt (Committed (Inl (Internal, ''persist failed'')))]
      \<lparr>th_system = S', th_commits = [\<lparr>cm_waiting = wt, cm_password = pw, cm_phase = Committed (Inl (Internal, ''persist failed''))\<rparr>]\<rparr>"
proof -
  let ?cm = "\<lambda>ph. \<lparr>cm_waiting = wt, cm_password = pw, cm_phase = ph\<rparr>"
  let ?sn = "ks_records (store_of S)" and ?last = "Committed (Inl (Internal, ''persist failed''))"
  let ?S1 = "(put_store ks v S)\<lparr>sy_waiting := remove1 wt (sy_waiting S)\<rparr>"
  let ?T1 = "\<lparr>th_system = ?S1, th_commits = [?cm (Mutated ?sn)]\<rparr>"
  let ?T2 = "\<lparr>th_system = put_store ks w' ?S1, th_commits = [?cm (HookFailed ?sn)]\<rparr>"
  have b: "begin_commit L (wt_kont wt) (store_of S) (world_of S) = Some (pw, Mutated ?sn, ks, v)"
    using u by (simp add: wt(3) upsert_mutation_def keystore_ops_def ks_snapshot_def)
  have s1: "thread_step L \<lparr>th_system = S, th_commits = []\<rparr> (Began wt) ?T1"
    using thread_step.began [of wt "\<lparr>th_system = S, th_commits = []\<rparr>" L pw "Mutated ?sn" ks v] wt(1,2) b by simp
  have l2: "later_turn L (Mutated ?sn) (store_of ?S1) (world_of ?S1) = (HookFailed ?sn, ks, w')"
    using h by (simp add: later_turn_def on_write_def)
  have s2: "thread_step L ?T1 (Turned wt (HookFailed ?sn)) ?T2"
    using thread_step.turned [of 0 ?T1 "?cm (Mutated ?sn)" L "HookFailed ?sn" ks w'] l2 by simp
  let ?T3 = "\<lparr>th_system = put_store (ks_restore_snapshot ?sn ks) w' (th_system ?T2), th_commits = [?cm ?last]\<rparr>"
  have l3: "later_turn L (HookFailed ?sn) (store_of (th_system ?T2)) (world_of (th_system ?T2)) = (?last, ks_restore_snapshot ?sn ks, w')"
    by (simp add: later_turn_def)
  have s3: "thread_step L ?T2 (Turned wt ?last) ?T3"
    using thread_step.turned [of 0 ?T2 "?cm (HookFailed ?sn)" L ?last "ks_restore_snapshot ?sn ks" w'] l3 by simp
  have "trace_run (thread_step L) \<lparr>th_system = S, th_commits = []\<rparr>
      (([Began wt] @ [Turned wt (HookFailed ?sn)]) @ [Turned wt ?last]) ?T3"
    by (rule trace_run_append [OF trace_run_one [of "thread_step L", OF s3]
          trace_run_append [OF trace_run_one [of "thread_step L", OF s2] trace_run_one [of "thread_step L", OF s1]]])
  then show thesis by (intro that [of "th_system ?T3"]) simp
qed

text \<open>A host asks to store a password in the sample session, and the user approves it.\<close>

lemma sample_tapped:
  assumes ready: "session_ready [raced_records ! 0] writes S1"
  obtains rq wt lab act S2 ks v where
    "trace_run (thread_step (sample_app [raced_records ! 0])) \<lparr>th_system = S1, th_commits = []\<rparr>
      [Sys (Host (Asked rq wt)), Sys (Host (Tapped Approve (Some 0)))] \<lparr>th_system = S2, th_commits = []\<rparr>"
    "wt \<in> set (sy_waiting S2)" "ticket_decision (sy_approver S2) (wt_ticket wt) = Some Approve"
    "wt_kont wt = AfterStore ''https://example.com'' ''ann'' lab ''host'' act"
    "ks_upsert (sample_app [raced_records ! 0]) ''https://example.com'' ''ann'' ''host'' lab (store_of S2) (world_of S2) = (Inr (), ks, v)"
    "store_of S2 = ap_keystore (rn_app (sy_run S1))" "world_of S2 = rn_world (sy_run S1)"
    "ks_key ks = derive_key (sample_app [raced_records ! 0]) [7]" "dw_writes v = writes"
    "json_of_records (sample_app [raced_records ! 0]) (ks_records ks) = Inr [1]"
proof -
  let ?L = "sample_app [raced_records ! 0]"
  obtain sealed s w en1 ks v where h: "slint_inv (sy_approver S1)" "sa_channels (sy_approver S1) = 0"
    "seal ?L (as_bytes ''host'') 0 sample_session sample_world = (Inr (sp_password_sealed (sample_store sealed)), s, w)"
    "ss_key (rn_session (sy_run S1)) = ss_key sample_session"
    "gate_session (sp_request_nonce (sample_store sealed)) 2000 (engine_of (sy_run S1)) = (Inr (), en1)"
    "ks_upsert ?L ''https://example.com'' (sp_username (sample_store sealed)) ''host''
       (sp_label (sample_store sealed)) (ap_keystore (rn_app (sy_run S1))) (rn_world (sy_run S1)) = (Inr (), ks, v)"
    "json_of_records ?L (ks_records ks) = Inr [1]" "length ([1] :: bytes) < 2 ^ 32"
    "dw_writes (rn_world (sy_run S1)) = writes" by (rule session_ready_store [OF ready])
  let ?rq = "\<lparr>rq_id = ''1'', rq_method = StoreCredential (sample_store sealed)\<rparr>"
  obtain ar act en' where d: "dispatch ?L (keystore_ops ?L) (rq_method ?rq) 2000 (engine_of (sy_run S1)) (rn_world (sy_run S1)) =
      (Ask ar (AfterStore ''https://example.com'' (sp_username (sample_store sealed)) (sp_label (sample_store sealed)) ''host'' act),
       en', rn_world (sy_run S1))" and st: "en_store en' = ap_keystore (rn_app (sy_run S1))"
    unfolding request.select_convs
    by (rule store_dispatch_asks [OF sample_app_disk_laws sample_app_laws(3) sample_session_inv(1) h(3,4) sample_checks h(5)])
  define wt where "wt = \<lparr>wt_ticket = Waiting (sa_channels (sy_approver S1)), wt_id = rq_id ?rq, wt_request = ar,
     wt_kont = AfterStore ''https://example.com'' (sp_username (sample_store sealed)) (sp_label (sample_store sealed)) ''host'' act\<rparr>"
  obtain S2 where run2: "trace_run (system_step ?L) S1 [Host (Asked ?rq wt), Host (Tapped Approve (Some (sa_channels (sy_approver S1))))] S2"
    and w2: "wt \<in> set (sy_waiting S2)" "ticket_decision (sy_approver S2) (wt_ticket wt) = Some Approve"
      "engine_of (sy_run S2) = en'" "rn_world (sy_run S2) = rn_world (sy_run S1)"
    by (rule ask_tap [OF h(1) _ d wt_def, of "\<lparr>ue_now = 0, ue_loop_ok = True\<rparr>"]) simp
  have same: "store_of S2 = ap_keystore (rn_app (sy_run S1))" "world_of S2 = rn_world (sy_run S1)"
    using w2(3,4) st by (auto simp: store_of_def world_of_def engine_of_def)
  have "synced ?L [7] (ap_keystore (rn_app (sy_run S1))) (rn_world (sy_run S1))"
    using session_ready_synced [OF ready] by (simp add: system_synced_def running_synced_def)
  then have key: "ks_key ks = derive_key ?L [7]" using ks_upsert_disk [OF h(6)] by (simp add: synced_def)
  have wr: "dw_writes v = writes" using on_writes.upsert [OF h(6)] h(9) by simp
  have u2: "trace_run (thread_step ?L) \<lparr>th_system = S1, th_commits = []\<rparr>
      [Sys (Host (Asked ?rq wt)), Sys (Host (Tapped Approve (Some 0)))] \<lparr>th_system = S2, th_commits = []\<rparr>"
    using uncut_run [OF run2, of "\<lparr>th_system = S1, th_commits = []\<rparr>"] h(2) by simp
  show thesis
    by (rule that [OF u2 w2(1,2) _ _ same key wr h(7)]) (use h(6) in \<open>simp_all add: wt_def same\<close>)
qed

lemma sample_cut_store:
  assumes ready: "session_ready [raced_records ! 0] (sconst True) S1"
  obtains rq wt cms S3 where "trace_run (thread_step (sample_app [raced_records ! 0])) \<lparr>th_system = S1, th_commits = []\<rparr>
      [Sys (Host (Asked rq wt)), Sys (Host (Tapped Approve (Some 0))), Began wt, Turned wt (Committed (Inr ()))]
      \<lparr>th_system = S3, th_commits = cms\<rparr>"
    "\<not> open_commit \<lparr>th_system = S3, th_commits = cms\<rparr>"
    "vault_of (ks_records (store_of S3)) (''https://example.com'', ''ann'') = Some (''host'', False)"
proof -
  let ?L = "sample_app [raced_records ! 0]"
  obtain rq wt lab act S2 ks v where a: "trace_run (thread_step ?L) \<lparr>th_system = S1, th_commits = []\<rparr>
      [Sys (Host (Asked rq wt)), Sys (Host (Tapped Approve (Some 0)))] \<lparr>th_system = S2, th_commits = []\<rparr>"
    and w: "wt \<in> set (sy_waiting S2)" "ticket_decision (sy_approver S2) (wt_ticket wt) = Some Approve"
      "wt_kont wt = AfterStore ''https://example.com'' ''ann'' lab ''host'' act"
    and u: "ks_upsert ?L ''https://example.com'' ''ann'' ''host'' lab (store_of S2) (world_of S2) = (Inr (), ks, v)"
    and k: "ks_key ks = derive_key ?L [7]" "dw_writes v = sconst True" "json_of_records ?L (ks_records ks) = Inr [1]"
    by (rule sample_tapped [OF ready])
  have wr: "shd (dw_writes v)" "length ([1] :: bytes) < 2 ^ 32" using k(2) by simp_all
  obtain w' where p: "persist_keystore ?L ks v = (True, w')"
    by (rule persist_succeeds [OF sample_app_disk_laws sample_app_laws(2) k(1,3) wr(2,1)])
  obtain S3 where run3: "trace_run (thread_step ?L) \<lparr>th_system = S2, th_commits = []\<rparr> [Began wt, Turned wt (Committed (Inr ()))]
      \<lparr>th_system = S3, th_commits = [\<lparr>cm_waiting = wt, cm_password = ''host'', cm_phase = Committed (Inr ())\<rparr>]\<rparr>"
    and S3: "store_of S3 = ks" by (rule cut_store [OF w u p])
  show thesis
  proof (rule that)
    show "trace_run (thread_step ?L) \<lparr>th_system = S1, th_commits = []\<rparr>
        [Sys (Host (Asked rq wt)), Sys (Host (Tapped Approve (Some 0))), Began wt, Turned wt (Committed (Inr ()))]
        \<lparr>th_system = S3, th_commits = [\<lparr>cm_waiting = wt, cm_password = ''host'', cm_phase = Committed (Inr ())\<rparr>]\<rparr>"
      using trace_run_append [OF run3 a] by (simp only: append.simps)
    show "\<not> open_commit \<lparr>th_system = S3, th_commits = [\<lparr>cm_waiting = wt, cm_password = ''host'', cm_phase = Committed (Inr ())\<rparr>]\<rparr>"
      by (simp add: open_commit_def)
    show "vault_of (ks_records (store_of S3)) (''https://example.com'', ''ann'') = Some (''host'', False)"
      using upsert_vault [OF u] S3 by simp
  qed
qed

lemma interleaved_handlers_change_only_what_was_approved_witness:
  "\<exists>(r :: disk_world running) T1 T2 r1 r2 tr1 tr2 us e vs.
     trace_run (thread_step (sample_app [raced_records ! 0])) (threads_new r) tr1 T1 \<and>
     trace_run (thread_step (sample_app [raced_records ! 0])) T1 tr2 T2 \<and>
     app_start (sample_app [raced_records ! 0]) [7] (world_of (th_system T1)) = Inr r1 \<and>
     app_start (sample_app [raced_records ! 0]) [7] (world_of (th_system T2)) = Inr r2 \<and>
     vault_in r1 (''https://example.com'', ''ann'') = None \<and>
     vault_in r2 (''https://example.com'', ''ann'') = Some (''host'', False) \<and>
     tr2 = us @ e # vs \<and> (user_callback e \<or> approved_begin (''https://example.com'', ''ann'') (tr1 @ us) e)"
proof -
  let ?L = "sample_app [raced_records ! 0]" and ?key = "(''https://example.com'', ''ann'')"
  obtain r S1 resp where r: "app_start ?L [7] (sample_disk (sconst True)) = Inr r"
    and run1: "trace_run (system_step ?L) (system_new r)
       [Host (Answered \<lparr>rq_id = ''0'', rq_method = EstablishSession (of_bytes (replicate 32 7))\<rparr> resp)] S1"
    and ready: "session_ready [raced_records ! 0] (sconst True) S1" by (rule sample_session_start)
  obtain rq wt cms S3 where t2: "trace_run (thread_step ?L) \<lparr>th_system = S1, th_commits = []\<rparr>
      [Sys (Host (Asked rq wt)), Sys (Host (Tapped Approve (Some 0))), Began wt, Turned wt (Committed (Inr ()))]
      \<lparr>th_system = S3, th_commits = cms\<rparr>"
    and closed: "\<not> open_commit \<lparr>th_system = S3, th_commits = cms\<rparr>"
    and new: "vault_of (ks_records (store_of S3)) ?key = Some (''host'', False)"
    by (rule sample_cut_store [OF ready])
  let ?tr1 = "[Sys (Host (Answered \<lparr>rq_id = ''0'', rq_method = EstablishSession (of_bytes (replicate 32 7))\<rparr> resp))]"
  let ?tr2 = "[Sys (Host (Asked rq wt)), Sys (Host (Tapped Approve (Some 0))), Began wt, Turned wt (Committed (Inr ()))]"
  have t1: "trace_run (thread_step ?L) (threads_new r) ?tr1 \<lparr>th_system = S1, th_commits = []\<rparr>"
    using uncut_run [OF run1, of "threads_new r"] by (simp add: threads_new_def)
  have q: "\<not> open_commit \<lparr>th_system = S1, th_commits = []\<rparr>" "\<not> list_ex hook_failed (?tr1 @ ?tr2)"
    by (simp_all add: open_commit_def)
  obtain r1 r2 where a: "app_start ?L [7] (world_of S1) = Inr r1" "app_start ?L [7] (world_of S3) = Inr r2"
      "ap_keystore (rn_app r1) = store_of S1" "ap_keystore (rn_app r2) = store_of S3"
    and c: "vault_in r2 ?key \<noteq> vault_in r1 ?key \<Longrightarrow>
        \<exists>us e vs. ?tr2 = us @ e # vs \<and> (user_callback e \<or> approved_begin ?key (?tr1 @ us) e)"
    using interleaved_handlers_change_only_what_was_approved [OF sample_app_disk_laws r t1 q(1) t2 q(2)] closed
    by (auto simp del: append.simps)
  have v1: "vault_in r1 ?key = None"
    using ready a(3) by (simp add: session_ready_def store_of_def keystore_new_def vault_of_def)
  have v2: "vault_in r2 ?key = Some (''host'', False)" using new a(4) by simp
  obtain us e vs where e: "?tr2 = us @ e # vs" "user_callback e \<or> approved_begin ?key (?tr1 @ us) e"
    using c v1 v2 by auto
  show ?thesis
    by (intro exI conjI) (rule t1, rule t2, use a in simp, use a in simp, rule v1, rule v2, rule e(1), rule e(2))
qed

end
