(* ===== verification/Overlap.thy ===== *)
theory Overlap
  imports Threads
begin

text \<open>
  Memory, disk and the user at the grain of the locks, whichever writes fail. A commit whose
  hook failed puts back the records it found when it began; when something else changed the
  keystore since, that change is taken back too, in memory but not on disk. The theory says
  that this is the only way in which memory and disk part, and the only way in which an
  entry of the vault changes without the user.
\<close>

section \<open>Commits in flight\<close>

text \<open>The records a commit will put back if its hook fails.\<close>

fun kept :: "commit_phase \<Rightarrow> credential_record list option" where
  "kept (Mutated sn) = Some sn"
| "kept (HookFailed sn) = Some sn"
| "kept _ = None"

definition in_flight :: "'w threads \<Rightarrow> bool" where
  "in_flight T \<longleftrightarrow> (\<exists>cm \<in> set (th_commits T). kept (cm_phase cm) \<noteq> None)"

text \<open>What may change the keystore while the commit of \<open>wt\<close> is in flight, that commit aside.\<close>

fun disturbs :: "waiting \<Rightarrow> thread_event \<Rightarrow> bool" where
  "disturbs wt (Sys e) \<longleftrightarrow> user_callback (Sys e)"
| "disturbs wt (Began wt') \<longleftrightarrow> True"
| "disturbs wt (Turned wt' ph) \<longleftrightarrow> wt' \<noteq> wt"
| "disturbs wt (Finished wt' r) \<longleftrightarrow> False"

definition disturbed :: "thread_event list \<Rightarrow> waiting \<Rightarrow> bool" where
  "disturbed tr wt \<longleftrightarrow> (\<exists>as bs. tr = as @ Began wt # bs \<and> list_ex (disturbs wt) bs)"

text \<open>A commit was rolled back although the keystore may have changed since it began.\<close>

definition overlapped_rollback :: "thread_event list \<Rightarrow> bool" where
  "overlapped_rollback tr \<longleftrightarrow>
     (\<exists>as wt x bs. tr = as @ Turned wt (Committed (Inl x)) # bs \<and> disturbed as wt)"

lemma disturbed_later: "disturbed tr wt \<Longrightarrow> disturbed (tr @ tr') wt"
proof -
  assume "disturbed tr wt"
  then obtain as bs where "tr = as @ Began wt # bs" "list_ex (disturbs wt) bs"
    unfolding disturbed_def by blast
  then have "tr @ tr' = as @ Began wt # (bs @ tr') \<and> list_ex (disturbs wt) (bs @ tr')" by simp
  then show ?thesis unfolding disturbed_def by blast
qed

lemma disturbed_now:
  assumes "Began wt \<in> set tr" and "disturbs wt e"
  shows "disturbed (tr @ [e]) wt"
proof -
  from assms(1) obtain as bs where "tr = as @ Began wt # bs" using split_list by metis
  then have "tr @ [e] = as @ Began wt # (bs @ [e]) \<and> list_ex (disturbs wt) (bs @ [e])" using assms(2) by simp
  then show ?thesis unfolding disturbed_def by blast
qed

lemma overlapped_prefix: "overlapped_rollback tr \<Longrightarrow> overlapped_rollback (tr @ tr')"
  unfolding overlapped_rollback_def by (metis append.assoc append_Cons)

lemma overlapped_now: "disturbed tr wt \<Longrightarrow> overlapped_rollback (tr @ [Turned wt (Committed (Inl x))])"
  unfolding overlapped_rollback_def by blast

section \<open>Which commits there are\<close>

definition commits_inv :: "thread_event list \<Rightarrow> 'z disk_world_scheme threads \<Rightarrow> bool" where
  "commits_inv tr T \<longleftrightarrow>
     server_inv (map thread_view tr) (server_of (th_system T)) \<and> distinct (map cm_waiting (th_commits T)) \<and>
     (\<forall>cm \<in> set (th_commits T). Began (cm_waiting cm) \<in> set tr \<and> cm_phase cm \<noteq> Begin)"

lemma commits_inv_new: "commits_inv [] (threads_new r)"
proof -
  have "server_of (system_new r) = server_new (engine_of r) (rn_world r)"
    by (simp add: server_of_def system_new_def server_new_def)
  then show ?thesis using server_inv_new by (simp add: commits_inv_def threads_new_def)
qed

text \<open>A handler begins its commit once: it has left its await, whose channel answers once.\<close>

lemma begins_once:
  assumes inv: "server_inv (map thread_view tr) s" and wt: "wt \<in> set (sv_waiting s)"
    and w: "wt_ticket wt = Waiting c"
  shows "Began wt \<notin> set tr"
proof
  assume "Began wt \<in> set tr"
  then obtain as bs where "tr = as @ Began wt # bs" using split_list by metis
  then have "c \<in> set (resumed_channels (map thread_view tr))"
    using w by (simp add: resumed_channels_def channels_of_def)
  moreover have "c \<in> set (channels_of (sv_waiting s))"
    using wt w by (force simp: channels_of_def)
  ultimately show False using inv by (auto simp: server_inv_def)
qed

text \<open>The commits after one of them has moved on.\<close>

lemma commits_update:
  assumes "distinct (map cm_waiting cs)" and "i < length cs" and "cm_waiting y = cm_waiting (cs ! i)"
  shows "map cm_waiting (cs[i := y]) = map cm_waiting cs"
    and "set (cs[i := y]) = insert y {c \<in> set cs. cm_waiting c \<noteq> cm_waiting y}"
proof -
  show "map cm_waiting (cs[i := y]) = map cm_waiting cs"
    using assms by (metis list_update_id map_update nth_map)
  show "set (cs[i := y]) = insert y {c \<in> set cs. cm_waiting c \<noteq> cm_waiting y}"
  proof (intro set_eqI iffI)
    fix c assume "c \<in> set (cs[i := y])"
    then obtain j where j: "j < length cs" "c = cs[i := y] ! j" by (auto simp: in_set_conv_nth)
    show "c \<in> insert y {c \<in> set cs. cm_waiting c \<noteq> cm_waiting y}"
    proof (cases "j = i")
      case False
      then have "cm_waiting (cs ! j) \<noteq> cm_waiting (cs ! i)"
        using assms(1,2) j(1) by (simp add: distinct_conv_nth)
      with False j assms(3) show ?thesis by simp
    qed (use j in simp)
  next
    fix c assume "c \<in> insert y {c \<in> set cs. cm_waiting c \<noteq> cm_waiting y}"
    then consider "c = y" | "c \<in> set cs" "cm_waiting c \<noteq> cm_waiting y" by blast
    then show "c \<in> set (cs[i := y])"
    proof cases
      case 2
      then obtain j where "j < length cs" "cs ! j = c" "j \<noteq> i" using assms(3) by (auto simp: in_set_conv_nth)
      then show ?thesis by (auto simp: in_set_conv_nth intro!: exI [of _ j])
    qed (use assms(2) set_update_memI in fast)
  qed
qed

lemma begin_commit_keeps:
  "begin_commit L k ks w = Some (pw, ph, ks', w') \<Longrightarrow> ph = Mutated (ks_records ks)"
  by (cases k)
    (auto simp: upsert_mutation_def keystore_ops_def ks_snapshot_def upsert_never_fails split: prod.splits sum.splits)

lemma later_turn_phase: "later_turn L ph ks w = (ph', ks', w') \<Longrightarrow> ph' \<noteq> Begin"
  by (cases ph) (auto simp: later_turn_def split: prod.splits bool.splits)

lemma thread_step_commits:
  assumes st: "thread_step L T e T'" and inv: "commits_inv tr T"
  shows "commits_inv (tr @ [e]) T'"
proof -
  have s: "server_inv (map thread_view (tr @ [e])) (server_of (th_system T'))"
    using thread_step_inv [OF st] inv by (simp add: commits_inv_def)
  note i = inv [unfolded commits_inv_def]
  have "distinct (map cm_waiting (th_commits T')) \<and>
    (\<forall>cm \<in> set (th_commits T'). Began (cm_waiting cm) \<in> set (tr @ [e]) \<and> cm_phase cm \<noteq> Begin)"
    using st
  proof cases
    case (began wt pw ph ks w)
    have w: "wt \<in> set (sv_waiting (server_of (th_system T)))"
      "ticket_decision (sv_approver (server_of (th_system T))) (wt_ticket wt) = Some Approve"
      using began(3,4) by simp_all
    obtain c where "wt_ticket wt = Waiting c" using approved_waiting_from_tap(1) [OF _ w] i by blast
    from begins_once [OF _ w(1) this] i have "Began wt \<notin> set tr" by blast
    with i began(1,2) begin_commit_keeps [OF began(5)] show ?thesis by auto
  next
    case (turned j cm ph ks w)
    with commits_update [of "th_commits T" j "cm\<lparr>cm_phase := ph\<rparr>"] later_turn_phase [OF turned(6)] i
    show ?thesis by auto
  next
    case (finished cm r res en w)
    have "distinct (map cm_waiting (remove1 cm cs))" if "distinct (map cm_waiting cs)" for cs
      using that by (simp add: distinct_map inj_on_diff)
    with i set_remove1_subset [of cm "th_commits T"] finished(2) show ?thesis by auto
  qed (use i in auto)
  with s show ?thesis by (simp add: commits_inv_def)
qed

section \<open>Memory and disk\<close>

text \<open>A restart would find these records.\<close>

definition on_flash :: "'l app_libs_scheme \<Rightarrow> bytes \<Rightarrow> credential_record list \<Rightarrow> 'z disk_world_scheme threads \<Rightarrow> bool" where
  "on_flash L master rs T \<longleftrightarrow>
     load_keystore L master (dw_disk (world_of (th_system T))) = Inr \<lparr>ks_records = rs, ks_key = derive_key L master\<rparr>"

definition troubled :: "thread_event list \<Rightarrow> 'w threads \<Rightarrow> bool" where
  "troubled tr T \<longleftrightarrow> (\<exists>cm \<in> set (th_commits T). kept (cm_phase cm) \<noteq> None \<and> disturbed tr (cm_waiting cm))"

text \<open>
  Without a commit in flight memory is on disk. With one, either some commit in flight has been
  disturbed, so that its rollback would be an overlapped one, or what each would put back is
  on disk.
\<close>

definition calm_inv :: "'l app_libs_scheme \<Rightarrow> bytes \<Rightarrow> thread_event list \<Rightarrow> 'z disk_world_scheme threads \<Rightarrow> bool" where
  "calm_inv L master tr T \<longleftrightarrow>
     ks_key (store_of (th_system T)) = derive_key L master \<and>
     (on_flash L master (ks_records (store_of (th_system T))) T \<or> in_flight T) \<and>
     (troubled tr T \<or>
      (\<forall>cm \<in> set (th_commits T). \<forall>sn. kept (cm_phase cm) = Some sn \<longrightarrow> on_flash L master sn T))"

lemma on_flash_synced:
  "ks_key (store_of (th_system T)) = derive_key L master \<Longrightarrow>
   on_flash L master (ks_records (store_of (th_system T))) T \<longleftrightarrow>
   synced L master (store_of (th_system T)) (world_of (th_system T))"
  by (cases "store_of (th_system T)") (simp add: on_flash_def synced_def)

lemma on_flash_disk:
  "dw_disk (world_of (th_system T')) = dw_disk (world_of (th_system T)) \<Longrightarrow> on_flash L master rs T' = on_flash L master rs T"
  by (simp add: on_flash_def)

text \<open>A step that touches neither memory, disk nor the commits in flight.\<close>

lemma calm_same:
  assumes "calm_inv L master tr T" and "store_of (th_system T') = store_of (th_system T)"
    and d: "dw_disk (world_of (th_system T')) = dw_disk (world_of (th_system T))"
    and "{cm \<in> set (th_commits T'). kept (cm_phase cm) \<noteq> None} = {cm \<in> set (th_commits T). kept (cm_phase cm) \<noteq> None}"
  shows "calm_inv L master (tr @ [e]) T'"
proof -
  have f: "in_flight T' = in_flight T" using assms(4) unfolding in_flight_def by blast
  have t: "troubled tr T \<Longrightarrow> troubled (tr @ [e]) T'"
    using assms(4) disturbed_later unfolding troubled_def by blast
  have k: "(\<forall>cm \<in> set (th_commits T). \<forall>sn. kept (cm_phase cm) = Some sn \<longrightarrow> on_flash L master sn T) \<Longrightarrow>
    (\<forall>cm \<in> set (th_commits T'). \<forall>sn. kept (cm_phase cm) = Some sn \<longrightarrow> on_flash L master sn T)"
    using assms(4) by blast
  show ?thesis using assms(1,2) f t k unfolding calm_inv_def on_flash_disk [OF d] by metis
qed

text \<open>A step that disturbs every commit in flight, and leaves memory on disk when there is none.\<close>

lemma calm_disturbed:
  assumes "calm_inv L master tr T" and inv: "commits_inv tr T"
    and c: "th_commits T' = th_commits T" and k: "ks_key (store_of (th_system T')) = derive_key L master"
    and e: "\<And>wt. disturbs wt e"
    and s: "synced L master (store_of (th_system T)) (world_of (th_system T)) \<Longrightarrow>
       synced L master (store_of (th_system T')) (world_of (th_system T'))"
  shows "calm_inv L master (tr @ [e]) T'"
proof -
  have "in_flight T \<Longrightarrow> troubled (tr @ [e]) T'"
    using inv disturbed_now [OF _ e] by (auto simp: in_flight_def troubled_def c commits_inv_def)
  moreover have "in_flight T' = in_flight T" by (simp add: in_flight_def c)
  moreover have "\<not> in_flight T \<Longrightarrow> kept (cm_phase cm) = Some sn \<Longrightarrow> cm \<in> set (th_commits T') \<Longrightarrow> False" for cm sn
    by (force simp: in_flight_def c)
  moreover have "on_flash L master (ks_records (store_of (th_system T))) T \<Longrightarrow>
      on_flash L master (ks_records (store_of (th_system T'))) T'"
    using s on_flash_synced [of T L master] on_flash_synced [OF k] assms(1) by (simp add: calm_inv_def)
  ultimately show ?thesis using assms(1) k unfolding calm_inv_def by blast
qed

text \<open>A locked section of the commit \<open>cm\<close>.\<close>

lemma calm_turned:
  assumes laws: "disk_laws L" and calm: "calm_inv L master tr T" and inv: "commits_inv tr T"
    and i: "i < length (th_commits T)" "cm = th_commits T ! i" "\<forall>r. cm_phase cm \<noteq> Committed r"
    and t: "later_turn L (cm_phase cm) (store_of (th_system T)) (world_of (th_system T)) = (ph, ks, w)"
    and T': "th_system T' = put_store ks w (th_system T)" "th_commits T' = (th_commits T)[i := cm\<lparr>cm_phase := ph\<rparr>]"
    and no: "\<And>x. ph = Committed (Inl x) \<Longrightarrow> \<not> disturbed tr (cm_waiting cm)"
  shows "calm_inv L master (tr @ [Turned (cm_waiting cm) ph]) T'"
proof -
  let ?e = "Turned (cm_waiting cm) ph"
  have cm: "cm \<in> set (th_commits T)" using i(1,2) by simp
  have key: "ks_key (store_of (th_system T)) = derive_key L master" using calm by (simp add: calm_inv_def)
  have set': "set (th_commits T') = insert (cm\<lparr>cm_phase := ph\<rparr>) {c \<in> set (th_commits T). cm_waiting c \<noteq> cm_waiting cm}"
    using commits_update(2) [of "th_commits T" i "cm\<lparr>cm_phase := ph\<rparr>"] inv i(1,2) T'(2) by (simp add: commits_inv_def)
  have others: "troubled (tr @ [?e]) T'"
    if "c \<in> set (th_commits T)" "cm_waiting c \<noteq> cm_waiting cm" "kept (cm_phase c) \<noteq> None" for c
    using that inv disturbed_now [of "cm_waiting c" tr ?e] set' by (auto simp: troubled_def commits_inv_def)
  have flight: "troubled (tr @ [?e]) T' \<Longrightarrow> in_flight T'" by (auto simp: troubled_def in_flight_def)
  have only: "troubled (tr @ [?e]) T' \<or>
      (\<forall>c \<in> set (th_commits T'). \<forall>sn. kept (cm_phase c) = Some sn \<longrightarrow> on_flash L master sn T')"
    if "kept ph = None \<or> (\<exists>sn. kept ph = Some sn \<and> on_flash L master sn T')"
    using that others by (auto simp: set')
  obtain b w1 where h: "on_write L (store_of (th_system T)) (world_of (th_system T)) = (b, w1)" by force
  have hook: "if b then synced L master (store_of (th_system T)) w1 else dw_disk w1 = dw_disk (world_of (th_system T))"
    by (rule persist_synced [OF laws key h [unfolded on_write_def]])
  have same: ?thesis
    if p: "kept (cm_phase cm) \<noteq> None" "kept ph = kept (cm_phase cm)" "ks = store_of (th_system T)"
      "dw_disk w = dw_disk (world_of (th_system T))"
  proof -
    have d: "dw_disk (world_of (th_system T')) = dw_disk (world_of (th_system T))" using T'(1) p(4) by simp
    have f: "in_flight T'" using p(1,2) set' by (auto simp: in_flight_def)
    have "troubled (tr @ [?e]) T'" if "troubled tr T"
    proof -
      from that obtain c where c: "c \<in> set (th_commits T)" "kept (cm_phase c) \<noteq> None" "disturbed tr (cm_waiting c)"
        by (auto simp: troubled_def)
      show ?thesis
      proof (cases "cm_waiting c = cm_waiting cm")
        case True
        with c(3) p(1,2) disturbed_later [of tr "cm_waiting cm" "[?e]"] set' show ?thesis by (auto simp: troubled_def)
      qed (use others c in blast)
    qed
    moreover have "on_flash L master sn T'"
      if "\<not> troubled tr T" "kept ph = Some sn" for sn
      unfolding on_flash_disk [OF d] using that calm cm p(2) by (simp add: calm_inv_def)
    ultimately show ?thesis
      using only p(1,2) f key T'(1) p(3) by (cases "kept ph") (auto simp: calm_inv_def)
  qed
  show ?thesis
  proof (cases "cm_phase cm")
    case Begin
    then show ?thesis using inv cm by (simp add: commits_inv_def)
  next
    case (Mutated sn)
    show ?thesis
    proof (cases b)
      case True
      then have r: "ph = Committed (Inr ())" "ks = store_of (th_system T)" "w = w1"
        using t h Mutated by (auto simp: later_turn_def)
      have k': "ks_key (store_of (th_system T')) = derive_key L master" using T'(1) r(2) key by simp
      have "synced L master (store_of (th_system T')) (world_of (th_system T'))" using hook True T'(1) r by simp
      with on_flash_synced [OF k'] only r(1) k' show ?thesis by (simp add: calm_inv_def)
    next
      case False
      then have "ph = HookFailed sn" "ks = store_of (th_system T)" "w = w1"
        using t h Mutated by (auto simp: later_turn_def)
      with False hook Mutated show ?thesis by (intro same) simp_all
    qed
  next
    case (HookFailed sn)
    then have r: "ph = Committed (Inl (Internal, ''persist failed''))" "ks = ks_restore_snapshot sn (store_of (th_system T))"
      "w = world_of (th_system T)" using t by (auto simp: later_turn_def)
    have k': "ks_key (store_of (th_system T')) = derive_key L master" "ks_records (store_of (th_system T')) = sn"
      using T'(1) r(2) key by (simp_all add: ks_restore_snapshot_def)
    have d: "dw_disk (world_of (th_system T')) = dw_disk (world_of (th_system T))" using T'(1) r(3) by simp
    have "troubled (tr @ [?e]) T'" if "troubled tr T"
    proof -
      from that obtain c where c: "c \<in> set (th_commits T)" "kept (cm_phase c) \<noteq> None" "disturbed tr (cm_waiting c)"
        by (auto simp: troubled_def)
      with no r(1) others show ?thesis by metis
    qed
    moreover have "on_flash L master sn T'" if "\<not> troubled tr T"
      unfolding on_flash_disk [OF d] using that calm cm HookFailed by (simp add: calm_inv_def)
    ultimately show ?thesis using only flight r(1) k' by (auto simp: calm_inv_def)
  qed (use i(3) in simp)
qed

lemma thread_step_calm:
  assumes laws: "disk_laws L" and st: "thread_step L T e T'" and calm: "calm_inv L master tr T"
    and inv: "commits_inv tr T" and no: "\<not> overlapped_rollback (tr @ [e])"
  shows "calm_inv L master (tr @ [e]) T'"
proof -
  have key: "ks_key (store_of (th_system T)) = derive_key L master" using calm by (simp add: calm_inv_def)
  show ?thesis
    using st
  proof cases
    case (sys ev S)
    show ?thesis
    proof (cases "user_callback e")
      case True
      from system_uncut [OF laws sys(3,4) key, of "\<lambda>d. False"] system_uncut [OF laws sys(3,4) key, of "\<lambda>d. True"]
      show ?thesis
        using True sys(1,2) by (intro calm_disturbed [OF calm inv]) simp_all
    next
      case False
      have "store_of S = store_of (th_system T) \<and> dw_disk (world_of S) = dw_disk (world_of (th_system T))"
        using sys(3)
      proof cases
        case (host e' sv)
        with host_uncut [OF host(3,4)] sys(4) show ?thesis
          by (simp add: store_of_def world_of_def put_server_def put_engine_def server_of_def engine_of_def)
      next
        case (user p r)
        with False sys(1) have "read_only_op p" by (simp add: user_callback_def)
        from read_only_step [OF user(3) this] user(2) show ?thesis by (simp add: store_of_def world_of_def)
      qed
      with sys(2) show ?thesis by (intro calm_same [OF calm]) simp_all
    qed
  next
    case (began wt pw ph ks w)
    have ph: "ph = Mutated (ks_records (store_of (th_system T)))" by (rule begin_commit_keeps [OF began(5)])
    have v: "ks_key ks = ks_key (store_of (th_system T))" "dw_disk w = dw_disk (world_of (th_system T))"
      using begin_commit_view [OF began(5)] by simp_all
    have d: "dw_disk (world_of (th_system T')) = dw_disk (world_of (th_system T))" using began(2) v(2) by simp
    have f: "in_flight T'" using began(2) ph by (simp add: in_flight_def)
    have "troubled (tr @ [e]) T'" if "in_flight T"
    proof -
      from that obtain c where c: "c \<in> set (th_commits T)" "kept (cm_phase c) \<noteq> None" by (auto simp: in_flight_def)
      with inv have "disturbed (tr @ [e]) (cm_waiting c)"
        using began(1) by (intro disturbed_now) (simp_all add: commits_inv_def)
      with c began(2) show ?thesis by (auto simp: troubled_def)
    qed
    moreover have "on_flash L master sn T'"
      if "\<not> in_flight T" "c \<in> set (th_commits T')" "kept (cm_phase c) = Some sn" for c sn
    proof -
      have "sn = ks_records (store_of (th_system T))"
        using that began(2) ph by (force simp: in_flight_def)
      with that(1) calm on_flash_disk [OF d, of L master] show ?thesis by (simp add: calm_inv_def)
    qed
    moreover have "ks_key (store_of (th_system T')) = derive_key L master" using key v(1) began(2) by simp
    ultimately show ?thesis using f unfolding calm_inv_def by blast
  next
    case (turned i cm ph ks w)
    have nd: "\<not> disturbed tr (cm_waiting cm)" if "ph = Committed (Inl x)" for x
      using no that overlapped_now [of tr "cm_waiting cm" x] turned(1) by blast
    show ?thesis
      unfolding turned(1) by (rule calm_turned [OF laws calm inv turned(3-6) _ _ nd]) (simp_all add: turned(2))
  next
    case (finished cm r res en w)
    have "{c \<in> set (remove1 cm (th_commits T)). kept (cm_phase c) \<noteq> None} = {c \<in> set (th_commits T). kept (cm_phase c) \<noteq> None}"
      using finished(4) set_remove1_subset [of cm "th_commits T"]
      by (auto intro!: in_set_remove1 [THEN iffD2])
    with finished(2) end_commit_view [OF finished(5)] show ?thesis
      by (intro calm_same [OF calm]) (simp_all add: put_engine_store)
  qed
qed

section \<open>Runs\<close>

lemma commits_run:
  "trace_run (thread_step L) T tr T' \<Longrightarrow> commits_inv tr0 T \<Longrightarrow> commits_inv (tr0 @ tr) T'"
proof (induction rule: trace_run.induct)
  case (trace_more T tr T1 e T2)
  then show ?case using thread_step_commits [of L T1 e T2 "tr0 @ tr"] by simp
qed simp

lemma calm_run:
  assumes laws: "disk_laws L"
  shows "trace_run (thread_step L) T tr T' \<Longrightarrow> commits_inv [] T \<Longrightarrow> calm_inv L master [] T \<Longrightarrow>
     \<not> overlapped_rollback tr \<Longrightarrow> calm_inv L master tr T'"
proof (induction rule: trace_run.induct)
  case (trace_more T tr T1 e T2)
  have "\<not> overlapped_rollback tr" using trace_more.prems(3) overlapped_prefix by blast
  with trace_more have "calm_inv L master tr T1" by blast
  moreover have "commits_inv tr T1" using commits_run [OF trace_more.hyps(1) trace_more.prems(1)] by simp
  ultimately show ?case using thread_step_calm [OF laws trace_more.hyps(2)] trace_more.prems(3) by blast
qed simp

lemma calm_inv_new:
  assumes "disk_laws L" and "app_start L master w = Inr r"
  shows "calm_inv L master [] (threads_new r)"
proof -
  have s: "synced L master (store_of (th_system (threads_new r))) (world_of (th_system (threads_new r)))"
    using app_start_synced [OF assms]
    by (simp add: threads_new_def store_of_def world_of_def system_new_def running_synced_def)
  then have k: "ks_key (store_of (th_system (threads_new r))) = derive_key L master" by (simp add: synced_def)
  from s k on_flash_synced [OF k] show ?thesis by (simp add: calm_inv_def threads_new_def)
qed

text \<open>A restart at any moment of a run.\<close>

lemma restart_after_run:
  assumes laws: "disk_laws L" and start: "app_start L master w = Inr r"
    and run: "trace_run (thread_step L) (threads_new r) tr T"
  shows "\<exists>r2. app_start L master (world_of (th_system T)) = Inr r2 \<and>
     (\<not> in_flight T \<longrightarrow> \<not> overlapped_rollback tr \<longrightarrow> ap_keystore (rn_app r2) = store_of (th_system T))"
proof -
  have s0: "synced L master (store_of (th_system (threads_new r))) (world_of (th_system (threads_new r)))"
    using app_start_synced [OF laws start]
    by (simp add: threads_new_def store_of_def world_of_def system_new_def running_synced_def)
  from disk_was_memory [OF laws run this] obtain us vs U where "tr = us @ vs" "trace_run (thread_step L) (threads_new r) us U"
    and u: "load_keystore L master (dw_disk (world_of (th_system T))) = Inr (store_of (th_system U))" by blast
  obtain r2 where r2: "app_start L master (world_of (th_system T)) = Inr r2" "ap_keystore (rn_app r2) = store_of (th_system U)"
    by (rule app_start_load [OF u])
  have "store_of (th_system U) = store_of (th_system T)" if "\<not> in_flight T" "\<not> overlapped_rollback tr"
  proof -
    have c: "calm_inv L master tr T"
      by (rule calm_run [OF laws run commits_inv_new calm_inv_new [OF laws start] that(2)])
    then have "synced L master (store_of (th_system T)) (world_of (th_system T))"
      using on_flash_synced [of T L master] that(1) by (simp add: calm_inv_def)
    with u show ?thesis by (simp add: synced_def)
  qed
  with r2 show ?thesis by auto
qed

section \<open>What a rollback undoes\<close>

lemma kept_step:
  assumes st: "thread_step L T e T'" and inv: "commits_inv tr T"
    and cm: "cm \<in> set (th_commits T')" "kept (cm_phase cm) = Some sn"
  shows "(\<exists>cm0 \<in> set (th_commits T). cm_waiting cm0 = cm_waiting cm \<and> kept (cm_phase cm0) = Some sn) \<or>
     (e = Began (cm_waiting cm) \<and> sn = ks_records (store_of (th_system T)))"
  using st
proof cases
  case (began wt pw ph ks w)
  then show ?thesis using cm begin_commit_keeps [OF began(5)] by auto
next
  case (turned i c ph ks w)
  show ?thesis
  proof (cases "cm \<in> set (th_commits T)")
    case False
    then have c: "cm = c\<lparr>cm_phase := ph\<rparr>"
      using cm(1) turned(2) set_update_subset_insert [of "th_commits T" i "c\<lparr>cm_phase := ph\<rparr>"] by auto
    have "c \<in> set (th_commits T)" using turned(3,4) by simp
    moreover from this have "cm_phase c \<noteq> Begin" using inv by (simp add: commits_inv_def)
    then have "kept (cm_phase c) = Some sn"
      using turned(6) cm(2) by (cases "cm_phase c") (auto simp: c later_turn_def split: prod.splits bool.splits)
    ultimately show ?thesis using c by auto
  qed (use cm in blast)
qed (use cm set_remove1_subset in fastforce)+

text \<open>What a commit would put back is what it found when it began.\<close>

lemma kept_origin:
  "trace_run (thread_step L) T0 tr T \<Longrightarrow> commits_inv [] T0 \<Longrightarrow> th_commits T0 = [] \<Longrightarrow>
   cm \<in> set (th_commits T) \<Longrightarrow> kept (cm_phase cm) = Some sn \<Longrightarrow>
   \<exists>as bs V. tr = as @ Began (cm_waiting cm) # bs \<and> trace_run (thread_step L) T0 as V \<and>
     trace_run (thread_step L) V (Began (cm_waiting cm) # bs) T \<and> ks_records (store_of (th_system V)) = sn"
proof (induction arbitrary: cm rule: trace_run.induct)
  case (trace_more T0 tr T1 e T2)
  have "commits_inv tr T1" using commits_run [OF trace_more.hyps(1) trace_more.prems(1)] by simp
  from kept_step [OF trace_more.hyps(2) this trace_more.prems(3,4)] show ?case
  proof
    assume "\<exists>cm0 \<in> set (th_commits T1). cm_waiting cm0 = cm_waiting cm \<and> kept (cm_phase cm0) = Some sn"
    with trace_more.IH [OF trace_more.prems(1,2)] obtain as bs V where o: "tr = as @ Began (cm_waiting cm) # bs"
      "trace_run (thread_step L) T0 as V" "trace_run (thread_step L) V (Began (cm_waiting cm) # bs) T1"
      "ks_records (store_of (th_system V)) = sn" by metis
    with trace_run.trace_more [OF o(3) trace_more.hyps(2)] show ?case
      by (intro exI [of _ as] exI [of _ "bs @ [e]"] exI [of _ V]) simp
  next
    assume "e = Began (cm_waiting cm) \<and> sn = ks_records (store_of (th_system T1))"
    with trace_more.hyps trace_run_one [of "thread_step L", OF trace_more.hyps(2)] show ?case
      by (intro exI [of _ tr] exI [of _ "[]"] exI [of _ T1]) simp
  qed
qed simp

text \<open>
  The rollback \<open>e\<close> of a commit undoes what happened to an entry since the commit began: its own
  approved mutation of that entry, another approved commit on it, a change of the user, or
  an earlier rollback.
\<close>

definition undone :: "string \<times> string \<Rightarrow> thread_event list \<Rightarrow> thread_event \<Rightarrow> bool" where
  "undone key tr e \<longleftrightarrow>
     (\<exists>wt x as cs us d vs. e = Turned wt (Committed (Inl x)) \<and> tr = as @ Began wt # cs \<and> Began wt # cs = us @ d # vs \<and>
        (user_callback d \<or> approved_begin key (as @ us) d \<or> rolled_back d))"

lemma rollback_undoes:
  assumes run: "trace_run (thread_step L) (threads_new r) tr T" and st: "thread_step L T e T'" and e: "rolled_back e"
    and ch: "vault_mem T' key \<noteq> vault_mem T key"
  shows "undone key tr e"
  using st
proof cases
  case (turned i cm ph ks w)
  have cm: "cm \<in> set (th_commits T)" using turned(3,4) by simp
  obtain sn x where p: "cm_phase cm = HookFailed sn" "ph = Committed (Inl x)" "ks_records ks = sn"
    using turned(1,5,6) e
    by (cases "cm_phase cm") (auto simp: later_turn_def ks_restore_snapshot_def split: prod.splits bool.splits)
  have c0: "commits_inv [] (threads_new r)" "th_commits (threads_new r) = []"
    using commits_inv_new by (simp_all add: threads_new_def)
  obtain as bs V where o: "tr = as @ Began (cm_waiting cm) # bs" "trace_run (thread_step L) (threads_new r) as V"
    "trace_run (thread_step L) V (Began (cm_waiting cm) # bs) T" "ks_records (store_of (th_system V)) = sn"
    using kept_origin [OF run c0 cm, of sn] p(1) by auto
  have "vault_mem T key \<noteq> vault_mem V key" using ch o(4) p(3) turned(2) by auto
  from trace_run_changes [of "thread_step L" V _ T "\<lambda>T. vault_mem T key", OF o(3) this]
  obtain us d vs X Y where b: "Began (cm_waiting cm) # bs = us @ d # vs" "trace_run (thread_step L) V us X"
    "thread_step L X d Y" "vault_mem Y key \<noteq> vault_mem X key" .
  have "server_inv (map thread_view (as @ us)) (server_of (th_system X))"
    using commits_run [OF trace_run_append [OF b(2) o(2)] c0(1)] by (simp add: commits_inv_def)
  from thread_step_vault [OF b(3) this b(4)] o(1) b(1) turned(1) p(2) show ?thesis
    unfolding undone_def by blast
qed (use e in simp_all)

section \<open>Properties\<close>

text \<open>
  C1: what is on disk changes only by the user. Take any run of the whole app at the grain of
  its locks (hosts, callbacks, taps, time outs, failing writes of callbacks and hooks, in any
  order, with any number of commits in flight), and any stretch \<open>tr2\<close> of it at whose start a
  restart finds what is in memory. A restart after the stretch succeeds, and if it finds
  another entry for an origin and user name, then somewhere in the stretch the user changed
  the keystore on the device; or a \<open>store\<close> or \<open>generate\<close> handler began its commit whose own card
  named exactly that origin and user name and which the user had approved by a tap while the
  approval slot held its channel; or a commit whose hook failed was rolled back, and since it
  began one of these had happened, or another rollback.
\<close>

theorem disk_changes_need_the_user:
  assumes laws: "disk_laws L" and start: "app_start L master w = Inr r"
    and run1: "trace_run (thread_step L) (threads_new r) tr1 T1"
    and agree: "app_start L master (world_of (th_system T1)) = Inr r1" "ap_keystore (rn_app r1) = store_of (th_system T1)"
    and run2: "trace_run (thread_step L) T1 tr2 T2"
  shows "\<exists>r2. app_start L master (world_of (th_system T2)) = Inr r2 \<and>
     (\<forall>key. vault_in r2 key \<noteq> vault_in r1 key \<longrightarrow>
        (\<exists>us e vs. tr2 = us @ e # vs \<and>
           (user_callback e \<or> approved_begin key (tr1 @ us) e \<or> undone key (tr1 @ us) e)))"
proof -
  have s1: "synced L master (store_of (th_system T1)) (world_of (th_system T1))"
    using app_start_synced [OF laws agree(1)] app_start_Inr [OF agree(1)] agree(2)
    by (simp add: running_synced_def synced_def)
  from disk_was_memory [OF laws run2 s1] obtain us vs U where u: "tr2 = us @ vs" "trace_run (thread_step L) T1 us U"
    "load_keystore L master (dw_disk (world_of (th_system T2))) = Inr (store_of (th_system U))" by blast
  obtain r2 where r2: "app_start L master (world_of (th_system T2)) = Inr r2" "ap_keystore (rn_app r2) = store_of (th_system U)"
    by (rule app_start_load [OF u(3)])
  have "\<exists>us e vs. tr2 = us @ e # vs \<and> (user_callback e \<or> approved_begin key (tr1 @ us) e \<or> undone key (tr1 @ us) e)"
    if "vault_in r2 key \<noteq> vault_in r1 key" for key
  proof -
    have "vault_mem U key \<noteq> vault_mem T1 key" using that agree(2) r2(2) by simp
    from trace_run_changes [of "thread_step L" T1 us U "\<lambda>T. vault_mem T key", OF u(2) this]
    obtain xs e ys V W where us: "us = xs @ e # ys" and v: "trace_run (thread_step L) T1 xs V"
      and st: "thread_step L V e W" and ch: "vault_mem W key \<noteq> vault_mem V key" .
    have run: "trace_run (thread_step L) (threads_new r) (tr1 @ xs) V" by (rule trace_run_append [OF v run1])
    have "server_inv (map thread_view (tr1 @ xs)) (server_of (th_system V))"
      using commits_run [OF run commits_inv_new] by (simp add: commits_inv_def)
    from thread_step_vault [OF st this ch] rollback_undoes [OF run st _ ch]
    have "user_callback e \<or> approved_begin key (tr1 @ xs) e \<or> undone key (tr1 @ xs) e" by blast
    moreover have "tr2 = xs @ e # (ys @ vs)" using u(1) us by simp
    ultimately show ?thesis by blast
  qed
  with r2(1) show ?thesis by blast
qed

text \<open>
  C7: a restart finds every change, and nothing else. Start the app from any disk it can open and
  let it run at the grain of its locks, with any pattern of failing writes, of callbacks and
  of hooks, and with handlers waiting across them. If the power goes at any moment, starting
  again succeeds. If no commit is then between its mutation and its end, it gives exactly the
  keystore that was in memory, unless some commit was rolled back although since it began
  the user had changed the keystore or another commit had made a step. So what the user saw saved is on
  disk, and what failed to reach the disk was taken back in memory. A failing write is one
  that reports it, as the simulator's do; \<open>Device\<close> has the other kind.
\<close>

theorem restart_finds_every_change:
  assumes laws: "disk_laws L" and start: "app_start L master w = Inr r"
    and run: "trace_run (thread_step L) (threads_new r) tr T"
  shows "\<exists>r2. app_start L master (world_of (th_system T)) = Inr r2 \<and>
     (\<not> in_flight T \<longrightarrow> \<not> overlapped_rollback tr \<longrightarrow> ap_keystore (rn_app r2) = store_of (th_system T))"
  by (rule restart_after_run [OF laws start run])

section \<open>Witnesses\<close>

lemma disk_changes_need_the_user_witness:
  "\<exists>(r :: disk_world running) T1 T2 r1 r2 tr1 tr2 us e vs.
     trace_run (thread_step (sample_app [raced_records ! 0])) (threads_new r) tr1 T1 \<and>
     trace_run (thread_step (sample_app [raced_records ! 0])) T1 tr2 T2 \<and>
     app_start (sample_app [raced_records ! 0]) [7] (world_of (th_system T1)) = Inr r1 \<and>
     app_start (sample_app [raced_records ! 0]) [7] (world_of (th_system T2)) = Inr r2 \<and>
     vault_in r2 (''https://example.com'', ''ann'') \<noteq> vault_in r1 (''https://example.com'', ''ann'') \<and>
     tr2 = us @ e # vs \<and> (user_callback e \<or> approved_begin (''https://example.com'', ''ann'') (tr1 @ us) e \<or>
       undone (''https://example.com'', ''ann'') (tr1 @ us) e)"
proof -
  let ?L = "sample_app [raced_records ! 0]" and ?key = "(''https://example.com'', ''ann'')"
  obtain r S1 resp where r: "app_start ?L [7] (sample_disk (sconst True)) = Inr r"
    and run1: "trace_run (system_step ?L) (system_new r)
       [Host (Answered \<lparr>rq_id = ''0'', rq_method = EstablishSession (of_bytes (replicate 32 7))\<rparr> resp)] S1"
    and ready: "session_ready [raced_records ! 0] (sconst True) S1" by (rule sample_session_start)
  let ?tr1 = "[Sys (Host (Answered \<lparr>rq_id = ''0'', rq_method = EstablishSession (of_bytes (replicate 32 7))\<rparr> resp))]"
  have t1: "trace_run (thread_step ?L) (threads_new r) ?tr1 \<lparr>th_system = S1, th_commits = []\<rparr>"
    using uncut_run [OF run1, of "threads_new r"] by (simp add: threads_new_def)
  have "load_keystore ?L [7] (dw_disk (world_of S1)) = Inr (store_of S1)"
    using session_ready_synced [OF ready]
    by (simp add: system_synced_def running_synced_def synced_def world_of_def store_of_def)
  then obtain r1 where r1: "app_start ?L [7] (world_of (th_system \<lparr>th_system = S1, th_commits = []\<rparr>)) = Inr r1"
    "ap_keystore (rn_app r1) = store_of (th_system \<lparr>th_system = S1, th_commits = []\<rparr>)"
    by (auto elim: app_start_load)
  obtain rq wt lab act S2 ks v where a: "trace_run (thread_step ?L) \<lparr>th_system = S1, th_commits = []\<rparr>
      [Sys (Host (Asked rq wt)), Sys (Host (Tapped Approve (Some 0)))] \<lparr>th_system = S2, th_commits = []\<rparr>"
    and w: "wt \<in> set (sy_waiting S2)" "ticket_decision (sy_approver S2) (wt_ticket wt) = Some Approve"
      "wt_kont wt = AfterStore ''https://example.com'' ''ann'' lab ''host'' act"
    and u: "ks_upsert ?L ''https://example.com'' ''ann'' ''host'' lab (store_of S2) (world_of S2) = (Inr (), ks, v)"
    and k: "ks_key ks = derive_key ?L [7]" "dw_writes v = sconst True" "json_of_records ?L (ks_records ks) = Inr [1]"
    by (rule sample_tapped [OF ready])
  have wr: "shd (dw_writes v)" "length ([1] :: bytes) < 2 ^ 32" using k(2) by simp_all
  obtain w' where p: "persist_keystore ?L ks v = (True, w')" "synced ?L [7] ks w'"
    by (rule persist_succeeds [OF sample_app_disk_laws sample_app_laws(2) k(1,3) wr(2,1)])
  obtain S3 where b: "trace_run (thread_step ?L) \<lparr>th_system = S2, th_commits = []\<rparr> [Began wt, Turned wt (Committed (Inr ()))]
      \<lparr>th_system = S3, th_commits = [\<lparr>cm_waiting = wt, cm_password = ''host'', cm_phase = Committed (Inr ())\<rparr>]\<rparr>"
    and S3: "world_of S3 = w'" by (rule cut_store [OF w u p(1)])
  let ?T2 = "\<lparr>th_system = S3, th_commits = [\<lparr>cm_waiting = wt, cm_password = ''host'', cm_phase = Committed (Inr ())\<rparr>]\<rparr>"
  let ?tr2 = "[Sys (Host (Asked rq wt)), Sys (Host (Tapped Approve (Some 0))), Began wt, Turned wt (Committed (Inr ()))]"
  have t2: "trace_run (thread_step ?L) \<lparr>th_system = S1, th_commits = []\<rparr> ?tr2 ?T2"
    using trace_run_append [OF b a] by (simp only: append.simps)
  obtain r2 where r2: "app_start ?L [7] (world_of (th_system ?T2)) = Inr r2"
    and c: "vault_in r2 ?key \<noteq> vault_in r1 ?key \<Longrightarrow> \<exists>us e vs. ?tr2 = us @ e # vs \<and>
       (user_callback e \<or> approved_begin ?key (?tr1 @ us) e \<or> undone ?key (?tr1 @ us) e)"
    using disk_changes_need_the_user [OF sample_app_disk_laws r t1 r1 t2] by blast
  have "ap_keystore (rn_app r2) = ks"
    using app_start_Inr(1) [OF r2] p(2) S3 by (simp add: synced_def)
  then have "vault_in r2 ?key = Some (''host'', False)" using upsert_vault [OF u] by simp
  moreover have "vault_in r1 ?key = None"
    using ready r1(2) by (simp add: session_ready_def store_of_def keystore_new_def vault_of_def)
  ultimately have ne: "vault_in r2 ?key \<noteq> vault_in r1 ?key" by simp
  from c [OF ne] obtain us e vs where e: "?tr2 = us @ e # vs"
    "user_callback e \<or> approved_begin ?key (?tr1 @ us) e \<or> undone ?key (?tr1 @ us) e" by blast
  show ?thesis by (intro exI conjI) (rule t1, rule t2, rule r1(1), rule r2, rule ne, rule e(1), rule e(2))
qed

lemma restart_finds_every_change_witness:
  "\<exists>(r :: disk_world running) tr T r2.
     trace_run (thread_step (sample_app [raced_records ! 0])) (threads_new r) tr T \<and> list_ex hook_failed tr \<and>
     app_start (sample_app [raced_records ! 0]) [7] (world_of (th_system T)) = Inr r2 \<and>
     ap_keystore (rn_app r2) = store_of (th_system T)"
proof -
  let ?L = "sample_app [raced_records ! 0]"
  let ?tr1 = "\<lambda>resp. [Sys (Host (Answered \<lparr>rq_id = ''0'', rq_method = EstablishSession (of_bytes (replicate 32 7))\<rparr> resp))]"
  obtain r S1 resp where r: "app_start ?L [7] (sample_disk (sconst False)) = Inr r"
    and run1: "trace_run (system_step ?L) (system_new r)
       [Host (Answered \<lparr>rq_id = ''0'', rq_method = EstablishSession (of_bytes (replicate 32 7))\<rparr> resp)] S1"
    and ready: "session_ready [raced_records ! 0] (sconst False) S1" by (rule sample_session_start)
  have t1: "trace_run (thread_step ?L) (threads_new r) (?tr1 resp) \<lparr>th_system = S1, th_commits = []\<rparr>"
    using uncut_run [OF run1, of "threads_new r"] by (simp add: threads_new_def)
  obtain rq wt lab act S2 ks v where a: "trace_run (thread_step ?L) \<lparr>th_system = S1, th_commits = []\<rparr>
      [Sys (Host (Asked rq wt)), Sys (Host (Tapped Approve (Some 0)))] \<lparr>th_system = S2, th_commits = []\<rparr>"
    and w: "wt \<in> set (sy_waiting S2)" "ticket_decision (sy_approver S2) (wt_ticket wt) = Some Approve"
      "wt_kont wt = AfterStore ''https://example.com'' ''ann'' lab ''host'' act"
    and u: "ks_upsert ?L ''https://example.com'' ''ann'' ''host'' lab (store_of S2) (world_of S2) = (Inr (), ks, v)"
    and k: "dw_writes v = sconst False"
    by (rule sample_tapped [OF ready])
  obtain ok w' where p: "persist_keystore ?L ks v = (ok, w')" by force
  with persist_fails [of v ?L ks ok w'] k have f: "persist_keystore ?L ks v = (False, w')" by simp
  let ?hf = "Turned wt (HookFailed (ks_records (store_of S2)))" and ?last = "Committed (Inl (Internal, ''persist failed''))"
  obtain S3 where b: "trace_run (thread_step ?L) \<lparr>th_system = S2, th_commits = []\<rparr> [Began wt, ?hf, Turned wt ?last]
      \<lparr>th_system = S3, th_commits = [\<lparr>cm_waiting = wt, cm_password = ''host'', cm_phase = ?last\<rparr>]\<rparr>"
    by (rule cut_store_fails [OF w u f])
  let ?T = "\<lparr>th_system = S3, th_commits = [\<lparr>cm_waiting = wt, cm_password = ''host'', cm_phase = ?last\<rparr>]\<rparr>"
  let ?tr = "?tr1 resp @ [Sys (Host (Asked rq wt)), Sys (Host (Tapped Approve (Some 0))), Began wt, ?hf, Turned wt ?last]"
  have run: "trace_run (thread_step ?L) (threads_new r) ?tr ?T"
    using trace_run_append [OF trace_run_append [OF b a] t1] by (simp only: append.simps append.assoc)
  have "\<not> in_flight ?T" by (simp add: in_flight_def)
  moreover have "\<not> overlapped_rollback ?tr"
    by (auto simp: overlapped_rollback_def disturbed_def Cons_eq_append_conv)
  moreover have "list_ex hook_failed ?tr" by simp
  ultimately show ?thesis
    using restart_finds_every_change [OF sample_app_disk_laws r run] run by blast
qed

end
