(* ===== verification/Device.thy ===== *)
theory Device
  imports CommitSteps Vault
begin

text \<open>
  The device's half of \<open>src/persist.rs\<close>, where the keystore is a \<open>FileBacked\<close>: \<open>write\<close> assigns
  through a guard, whose drop writes the file, and returns \<open>Ok\<close>. A drop returns nothing, so
  what happens there is a parameter: how it leaves the world. The theory compares a drop
  that writes with one that cannot.
\<close>

section \<open>The write\<close>

definition store_write_device :: "(bytes \<Rightarrow> 'w \<Rightarrow> 'w) \<Rightarrow> bytes \<Rightarrow> 'w \<Rightarrow> bool \<times> 'w" where
  "store_write_device drop_guard blob w = (True, drop_guard blob w)"

text \<open>\<open>persist_keystore\<close> of \<open>main.rs\<close> over it, which is also the engine's hook.\<close>

definition persist_keystore_device ::
  "(bytes \<Rightarrow> 'z world_scheme \<Rightarrow> 'z world_scheme) \<Rightarrow> 'l json_libs_scheme \<Rightarrow> keystore \<Rightarrow> 'z world_scheme \<Rightarrow> bool \<times> 'z world_scheme"
where
  "persist_keystore_device drop_guard L ks w =
     (case keystore_seal L ks w of
        (Inl _, w1) \<Rightarrow> (False, w1)
      | (Inr blob, w1) \<Rightarrow> store_write_device drop_guard blob w1)"

text \<open>The bytes the next start reads: those in the file.\<close>

definition drop_writes :: "(bytes \<Rightarrow> 'z disk_world_scheme \<Rightarrow> 'z disk_world_scheme) \<Rightarrow> bool" where
  "drop_writes f \<longleftrightarrow> (\<forall>b w. dw_disk (f b w) = Some b)"

definition drop_loses :: "(bytes \<Rightarrow> 'z disk_world_scheme \<Rightarrow> 'z disk_world_scheme) \<Rightarrow> bool" where
  "drop_loses f \<longleftrightarrow> (\<forall>b w. dw_disk (f b w) = dw_disk w)"

section \<open>Facts\<close>

text \<open>A drop that writes is the one-step write of \<open>App\<close> with success.\<close>

lemma device_write_refines:
  assumes "shd (dw_writes w)"
  shows "store_write_device (\<lambda>b w. w\<lparr>dw_disk := Some b, dw_writes := stl (dw_writes w)\<rparr>) blob w = store_write blob w"
  using assms by (simp add: store_write_device_def store_write_def Let_def)

lemma persist_device_synced:
  assumes "disk_laws L" and "ks_key ks = derive_key L master" and "drop_writes f"
    and "persist_keystore_device f L ks w = (True, w')"
  shows "synced L master ks w'"
proof -
  from assms(4) obtain b w1 where s: "keystore_seal L ks w = (Inr b, w1)" and w': "w' = f b w1"
    by (auto simp: persist_keystore_device_def store_write_device_def split: prod.splits sum.splits)
  have o: "keystore_open L master b = Inr ks"
    using open_of_seal_keystore [of L ks master w b w1] assms(1,2) s by (simp add: disk_laws_def)
  then have "b \<noteq> []" by (auto simp: keystore_open_def unseal_blob_def Let_def)
  with o assms(2,3) show ?thesis by (simp add: w' synced_def load_keystore_def drop_writes_def Let_def)
qed

lemma persist_device_lost:
  "drop_loses f \<Longrightarrow> persist_keystore_device f L ks w = (ok, w') \<Longrightarrow> dw_disk w' = dw_disk w"
  by (auto simp: persist_keystore_device_def store_write_device_def drop_loses_def
      split: prod.splits sum.splits dest!: on_disk.keystore_sealing)

text \<open>What is reported depends on the sealing alone.\<close>

lemma persist_device_report:
  "fst (persist_keystore_device f L ks w) = fst (persist_keystore_device g L ks w)"
  by (simp add: persist_keystore_device_def store_write_device_def split: prod.splits sum.splits)

text \<open>
  C14: on the device a failed write is reported as success. Whether the drop of the guard reaches
  the flash or not, a store or generate commit gives the host the same answer and leaves the
  same keystore in memory. If the drop writes and the answer is \<open>Ok\<close>, a restart finds
  the new password; if it does not write, a restart finds the keystore as it was before, with
  the same answer \<open>Ok\<close>. So the branches that undo a change whose write failed are reached on
  the device only when sealing fails.
\<close>

theorem device_write_failure_is_silent:
  assumes laws: "disk_laws L" and s: "synced L master (en_store en) w"
    and f: "drop_writes f" and g: "drop_loses g"
    and cf: "commit_store_mutation (keystore_ops L) (persist_keystore_device f L) (upsert_mutation (keystore_ops L) ori user pw lab) en w = (r, en1, w1)"
    and cg: "commit_store_mutation (keystore_ops L) (persist_keystore_device g L) (upsert_mutation (keystore_ops L) ori user pw lab) en w = (r', en2, w2)"
  shows "r' = r \<and> en2 = en1 \<and> load_keystore L master (dw_disk w2) = Inr (en_store en) \<and>
     (r = Inr () \<longrightarrow> load_keystore L master (dw_disk w1) = Inr (en_store en1) \<and>
        vault_of (ks_records (en_store en2)) = (vault_of (ks_records (en_store en)))((ori, user) \<mapsto> (pw, False)))"
proof -
  obtain x ks v where u: "ks_upsert L ori user pw lab (en_store en) w = (x, ks, v)" using prod_cases3 by blast
  have x: "x = Inr ()" using u by (cases rule: ks_upsert_cases)
  note d = ks_upsert_disk [OF u]
  have key: "ks_key ks = derive_key L master" using d s by (simp add: synced_def)
  obtain ok wf where pf: "persist_keystore_device f L ks v = (ok, wf)" by force
  obtain ok' wg where pg: "persist_keystore_device g L ks v = (ok', wg)" by force
  have ok: "ok' = ok" using persist_device_report [of g L ks v f] pf pg by simp
  note commit = commit_store_mutation_def upsert_mutation_def keystore_ops_def Let_def
  have a: "r = (if ok then Inr () else Inl (Internal, ''persist failed''))" "w1 = wf"
    "en1 = en\<lparr>en_store := if ok then ks else ks_restore_snapshot (ks_snapshot (en_store en)) ks\<rparr>"
    using cf u x pf by (cases ok; simp add: commit)+
  have b: "r' = r" "w2 = wg" "en2 = en1"
    using cg u x pg a ok by (cases ok; simp add: commit)+
  have "load_keystore L master (dw_disk w2) = Inr (en_store en)"
    using persist_device_lost [OF g pg] d s b(2) by (simp add: synced_def)
  moreover have "load_keystore L master (dw_disk w1) = Inr ks" if ok
    using persist_device_synced [OF laws key f] pf that a(2) by (simp add: synced_def)
  ultimately show ?thesis using a b upsert_vault [OF u] by auto
qed

lemma device_write_failure_is_silent_witness:
  "\<exists>en1 w2. commit_store_mutation (keystore_ops (sample_app [raced_records ! 0]))
       (persist_keystore_device (\<lambda>b w. w) (sample_app [raced_records ! 0]))
       (upsert_mutation (keystore_ops (sample_app [raced_records ! 0])) ''https://example.com'' ''ann'' ''host'' None)
       (sample_engine (keystore_new (sample_app [raced_records ! 0]) [7])) (sample_disk (sconst True)) = (Inr (), en1, w2) \<and>
     load_keystore (sample_app [raced_records ! 0]) [7] (dw_disk w2) = Inr (keystore_new (sample_app [raced_records ! 0]) [7]) \<and>
     vault_of (ks_records (en_store en1)) (''https://example.com'', ''ann'') = Some (''host'', False)"
proof -
  let ?L = "sample_app [raced_records ! 0]" and ?w = "sample_disk (sconst True)"
  let ?en = "sample_engine (keystore_new ?L [7])"
  let ?mut = "upsert_mutation (keystore_ops ?L) ''https://example.com'' ''ann'' ''host'' None"
  define f where "f = (\<lambda>b w :: disk_world. w\<lparr>dw_disk := Some b\<rparr>)"
  define g where "g = (\<lambda>(b :: bytes) w :: disk_world. w)"
  have laws: "drop_writes f" "drop_loses g" by (simp_all add: f_def g_def drop_writes_def drop_loses_def)
  have s: "synced ?L [7] (en_store ?en) ?w"
    by (simp add: sample_engine_def synced_def keystore_new_def load_keystore_def sample_disk_def world.defs)
  obtain w1 where u: "ks_upsert ?L ''https://example.com'' ''ann'' ''host'' None (keystore_new ?L [7]) ?w =
      (Inr (), (keystore_new ?L [7])\<lparr>ks_records := [raced_records ! 0]\<rparr>, w1)" and w1: "dw_writes w1 = sconst True"
    by (simp add: ks_upsert_def keystore_new_def now_secs_def credential_record_new_def uuid_new_v4_def fill_bytes_def
        Let_def ks_add_def raced_records_def next_automatic_color_def sample_app_sel sample_json_sel sample_libs_def
        sample_disk_def sample_world_def world.defs numeral_eq_Suc)
  let ?ks = "(keystore_new ?L [7])\<lparr>ks_records := [raced_records ! 0]\<rparr>"
  have j: "json_of_records ?L [raced_records ! 0] = Inr [1]"
    by (simp add: sample_app_def sample_json_def json_libs.defs libs.defs)
  obtain w2 where "persist_keystore ?L ?ks w1 = (True, w2)"
    by (rule persist_succeeds [OF sample_app_disk_laws [of "[raced_records ! 0]"] sample_app_laws(2), of ?ks "[7]" "[1]" w1])
      (simp_all add: j w1 keystore_new_def)
  then obtain b w3 where "keystore_seal ?L ?ks w1 = (Inr b, w3)"
    by (auto simp: persist_keystore_def split: prod.splits sum.splits)
  then have c: "\<exists>en' w'. commit_store_mutation (keystore_ops ?L) (persist_keystore_device h ?L) ?mut ?en ?w = (Inr (), en', w')" for h
    using u by (simp add: commit_store_mutation_def upsert_mutation_def keystore_ops_def persist_keystore_device_def
        store_write_device_def sample_engine_def Let_def)
  obtain en1 v1 en2 v2 where
    cf: "commit_store_mutation (keystore_ops ?L) (persist_keystore_device f ?L) ?mut ?en ?w = (Inr (), en1, v1)"
    and cg: "commit_store_mutation (keystore_ops ?L) (persist_keystore_device g ?L) ?mut ?en ?w = (Inr (), en2, v2)"
    using c by blast
  from device_write_failure_is_silent [OF sample_app_disk_laws s laws cf cg] cg show ?thesis
    by (intro exI [of _ en2] exI [of _ v2]) (auto simp: g_def sample_engine_def)
qed

end
