(* ===== verification/Startup.thy ===== *)
theory Startup
  imports Transport Overlap
begin

text \<open>
  How the app comes up: \<open>src/master_key.rs\<close>, the start of \<open>app_main\<close> with its two early
  returns, the transport thread (\<open>run_transport\<close>, and \<open>serve\<close> of \<open>websocket.rs\<close> with its accept
  loop and client tasks), and the status line: the string of \<open>src/transport.rs\<close>, which the
  timer of \<open>app_main\<close> copies to the property \<open>server-status\<close> when it has changed. \<open>src/theme.rs\<close>
  follows the colour setting of the system.
\<close>

section \<open>Master key\<close>

datatype master_key_error = MasterKeyDenied

fun master_key_debug :: "master_key_error \<Rightarrow> string" where
  "master_key_debug MasterKeyDenied = ''Denied''"

text \<open>The argument is what the security server answers to \<open>app_seed\<close>.\<close>

definition fetch_master :: "'e + bytes \<Rightarrow> master_key_error + bytes" where
  "fetch_master app_seed = (case app_seed of Inl _ \<Rightarrow> Inl MasterKeyDenied | Inr raw \<Rightarrow> Inr raw)"

section \<open>Start of the app\<close>

fun keystore_error_text :: "keystore_error \<Rightarrow> string" where
  "keystore_error_text KSealFailed = ''seal failed''"
| "keystore_error_text KOpenFailed = ''open failed (wrong master or corrupt blob)''"
| "keystore_error_text NotFound = ''not found''"
| "keystore_error_text NotArchived = ''not archived (delete only allowed on archived)''"
| "keystore_error_text BackupPassphraseRequired = ''backup passphrase is required''"
| "keystore_error_text BackupUnsupported = ''backup format is not supported''"
| "keystore_error_text BackupMalformed = ''backup is malformed''"
| "keystore_error_text (Serde e) = ''serde: '' @ e"

text \<open>\<open>Stopped\<close>: no callback is registered and no transport runs; only the status is set.\<close>

datatype 'w boot = Stopped string 'w | Running "'w running"

definition boot_app :: "'l app_libs_scheme \<Rightarrow> 'e + bytes \<Rightarrow> 'z disk_world_scheme \<Rightarrow> 'z disk_world_scheme boot" where
  "boot_app L app_seed w =
     (case fetch_master app_seed of
        Inl e \<Rightarrow> Stopped (''locked: '' @ master_key_debug e) w
      | Inr master \<Rightarrow>
          (case app_start L master w of
             Inl e \<Rightarrow> Stopped (''keystore error: '' @ keystore_error_text e) w
           | Inr r \<Rightarrow> Running r))"

section \<open>The status line\<close>

record banner =
  bn_status :: string      \<comment> \<open>the transport's string\<close>
  bn_last :: string        \<comment> \<open>what the timer copied last\<close>
  bn_shown :: string       \<comment> \<open>the property of the user interface\<close>

datatype banner_event =
    StatusSet string       \<comment> \<open>\<open>set_status\<close>, by any thread\<close>
  | BannerTick             \<comment> \<open>the timer of 500 ms\<close>
  | ErrorShown string      \<comment> \<open>the task \<open>run_transport\<close> queues when \<open>serve\<close> failed\<close>

definition banner_new :: banner where
  "banner_new = \<lparr>bn_status = ''starting'', bn_last = [], bn_shown = []\<rparr>"

fun banner_step :: "banner_event \<Rightarrow> banner \<Rightarrow> banner" where
  "banner_step (StatusSet msg) b = b\<lparr>bn_status := msg\<rparr>"
| "banner_step BannerTick b =
     (if bn_status b \<noteq> bn_last b then b\<lparr>bn_last := bn_status b, bn_shown := bn_status b\<rparr> else b)"
| "banner_step (ErrorShown msg) b = b\<lparr>bn_shown := msg\<rparr>"

definition banner_run :: "banner_event list \<Rightarrow> banner \<Rightarrow> banner" where
  "banner_run es b = fold banner_step es b"

section \<open>The WebSocket server\<close>

text \<open>
  \<open>serve\<close>: the statuses it sets, and the error it returns, if it does. The results of
  \<open>bind\<close> and \<open>accept\<close> are what the operating system gives; after the last one it waits.
\<close>

fun ws_accept_loop :: "(string + string) list \<Rightarrow> string list \<times> string option" where
  "ws_accept_loop [] = ([], None)"
| "ws_accept_loop (Inl e # as) = ([], Some e)"
| "ws_accept_loop (Inr peer # as) =
     (case ws_accept_loop as of (ss, r) \<Rightarrow> ((''ws client '' @ peer) # ss, r))"

definition ws_serve :: "string \<Rightarrow> string + unit \<Rightarrow> (string + string) list \<Rightarrow> string list \<times> string option" where
  "ws_serve addr bound as =
     (case bound of
        Inl e \<Rightarrow> ([], Some e)
      | Inr _ \<Rightarrow> (case ws_accept_loop as of (ss, r) \<Rightarrow> ((''ws listening on '' @ addr) # ss, r)))"

text \<open>The task of one client; nothing is set when the handshake fails or the task panics.\<close>

definition ws_task ::
  "'l wire_libs_scheme \<Rightarrow> bool \<Rightarrow> (ws_message \<times> bool \<times> (approval_request \<Rightarrow> approval_decision)) list \<Rightarrow>
   ws_state \<times> 'z usb_world_scheme \<Rightarrow> (ws_state \<times> 'z usb_world_scheme) option"
where
  "ws_task L handshake_ok ms st =
     (if \<not> handshake_ok then Some st
      else case ws_client L ms st of
             None \<Rightarrow> None
           | Some (WsPanic, s, w) \<Rightarrow> Some (s, w)
           | Some (_, s, w) \<Rightarrow> Some (s, set_status ''ws idle'' w))"

definition WS_BIND :: string where "WS_BIND = ''127.0.0.1:9876''"

text \<open>\<open>run_transport\<close> of the simulator: the events it causes on the status line.\<close>

definition run_transport_ws :: "bool \<Rightarrow> string + unit \<Rightarrow> (string + string) list \<Rightarrow> banner_event list" where
  "run_transport_ws runtime_ok bound as =
     (if \<not> runtime_ok then []
      else case ws_serve WS_BIND bound as of (ss, r) \<Rightarrow>
        map StatusSet ss @ (case r of None \<Rightarrow> [] | Some e \<Rightarrow> [ErrorShown (''ws error: '' @ e)]))"

text \<open>
  That of the device up to its first request: \<open>serve_blocking\<close> fails only when its write
  buffer cannot be mapped, after the interface is registered.
\<close>

definition run_transport_usb :: "usb_answers \<Rightarrow> string option \<Rightarrow> banner_event list" where
  "run_transport_usb u map_error =
     (case usb_init u of (_, status, eps) \<Rightarrow>
        StatusSet status #
        (case (eps, map_error) of
           (Some _, Some e) \<Rightarrow> [ErrorShown (''usb error: webusb map write buf: '' @ e)]
         | _ \<Rightarrow> []))"

section \<open>The theme\<close>

text \<open>
  \<open>theme.rs\<close>: the scheme of the window follows the setting of the system. \<open>init\<close> applies the
  current setting and spawns a task that applies each update while the window lives; the
  updates come with whether \<open>upgrade\<close> still finds the window.
\<close>

datatype system_theme = SystemDark | SystemLight
datatype color_scheme = SchemeDark | SchemeLight

fun apply_system_theme :: "system_theme \<Rightarrow> color_scheme" where
  "apply_system_theme SystemDark = SchemeDark"
| "apply_system_theme SystemLight = SchemeLight"

fun theme_task :: "(bool \<times> system_theme) list \<Rightarrow> color_scheme \<Rightarrow> color_scheme" where
  "theme_task [] c = c"
| "theme_task ((alive, t) # us) c = (if alive then theme_task us (apply_system_theme t) else c)"

definition theme_init :: "system_theme \<Rightarrow> (bool \<times> system_theme) list \<Rightarrow> color_scheme" where
  "theme_init current updates = theme_task updates (apply_system_theme current)"

lemma theme_task_alive:
  "list_all fst us \<Longrightarrow> theme_task us (apply_system_theme t) = apply_system_theme (last (t # map snd us))"
  by (induction us arbitrary: t) auto

text \<open>While the window lives it has the scheme of the latest setting; a closed one ends the task.\<close>

lemma theme_follows_system:
  assumes "list_all fst us"
  shows "theme_init t us = apply_system_theme (last (t # map snd us))"
    and "theme_init t (us @ (False, u) # vs) = apply_system_theme (last (t # map snd us))"
proof -
  have "theme_task (us @ (False, u) # vs) c = theme_task us c" for c
    using assms by (induction us arbitrary: c) auto
  then show "theme_init t us = apply_system_theme (last (t # map snd us))"
    "theme_init t (us @ (False, u) # vs) = apply_system_theme (last (t # map snd us))"
    unfolding theme_init_def using theme_task_alive [OF assms, of t] by simp_all
qed

section \<open>Facts\<close>

lemma banner_run_simps [simp]:
  "banner_run [] b = b" "banner_run (e # es) b = banner_run es (banner_step e b)"
  "banner_run (es @ fs) b = banner_run fs (banner_run es b)"
  by (simp_all add: banner_run_def)

lemma tick_last [simp]: "bn_last (banner_step BannerTick b) = bn_status b"
  by simp

text \<open>As long as no error was shown, the property is what the timer copied last.\<close>

lemma banner_in_step:
  "\<forall>m. ErrorShown m \<notin> set es \<Longrightarrow> bn_shown b = bn_last b \<Longrightarrow> bn_shown (banner_run es b) = bn_last (banner_run es b)"
proof (induction es arbitrary: b)
  case (Cons e es)
  then show ?case by (cases e) auto
qed simp

lemma ticks_idle: "bn_status b = bn_last b \<Longrightarrow> banner_run (replicate n BannerTick) b = b"
  by (induction n) simp_all

section \<open>Properties\<close>

text \<open>
  C28: a start either gives a running app over the keystore on disk, or stops without touching it.
  It stops with the status \<open>locked\<close> when the security server gives no seed, and with the
  text of the keystore error when the blob does not open; the world, so also the disk, is
  then as before. Otherwise the app runs with exactly the keystore that the disk holds under the
  key derived from the seed, and an app that was running under this seed, cut off at any moment of any
  interleaving of callbacks, hosts and the locked sections of their commits, with any writes
  failing, starts again. It then runs with the keystore that was in memory when no commit
  was in flight and none had been rolled back over another change.
\<close>

theorem boot_stops_or_loads:
  assumes "disk_laws L"
  shows "(case boot_app L app_seed w of
       Stopped msg w' \<Rightarrow> w' = w \<and>
         ((\<exists>e. app_seed = Inl e) \<and> msg = ''locked: Denied'' \<or>
          (\<exists>master e. app_seed = Inr master \<and> load_keystore L master (dw_disk w) = Inl e \<and>
             msg = ''keystore error: '' @ keystore_error_text e))
     | Running r \<Rightarrow> \<exists>master. app_seed = Inr master \<and>
         load_keystore L master (dw_disk w) = Inr (ap_keystore (rn_app r)) \<and> dw_disk (rn_world r) = dw_disk w \<and>
         ss_state (rn_session r) = Idle \<and>
         (\<forall>tr T. trace_run (thread_step L) (threads_new r) tr T \<longrightarrow>
            (\<exists>r2. boot_app L app_seed (world_of (th_system T)) = Running r2 \<and>
               (\<not> in_flight T \<longrightarrow> \<not> overlapped_rollback tr \<longrightarrow> ap_keystore (rn_app r2) = store_of (th_system T)))))"
proof (cases "boot_app L app_seed w")
  case (Stopped msg w')
  then show ?thesis
    by (auto simp: boot_app_def fetch_master_def app_start_def split: sum.splits prod.splits)
next
  case (Running r)
  then obtain master where m: "app_seed = Inr master" and st: "app_start L master w = Inr r"
    by (auto simp: boot_app_def fetch_master_def split: sum.splits)
  note i = app_start_Inr [OF st]
  have "\<exists>r2. boot_app L app_seed (world_of (th_system T)) = Running r2 \<and>
      (\<not> in_flight T \<longrightarrow> \<not> overlapped_rollback tr \<longrightarrow> ap_keystore (rn_app r2) = store_of (th_system T))"
    if run: "trace_run (thread_step L) (threads_new r) tr T" for tr T
  proof -
    from restart_after_run [OF assms st run] obtain r2 where "app_start L master (world_of (th_system T)) = Inr r2"
      "\<not> in_flight T \<longrightarrow> \<not> overlapped_rollback tr \<longrightarrow> ap_keystore (rn_app r2) = store_of (th_system T)" by blast
    then show ?thesis by (simp add: boot_app_def fetch_master_def m)
  qed
  with Running m i show ?thesis by (auto simp: session_new_def)
qed

lemma boot_stops_or_loads_witness:
  "case boot_app (sample_app []) (Inl () :: unit + bytes) (sample_disk (sconst True)) of
     Stopped msg w' \<Rightarrow> msg = ''locked: Denied'' \<and> w' = sample_disk (sconst True)
   | Running r \<Rightarrow> False"
proof -
  have "boot_app (sample_app []) (Inl () :: unit + bytes) (sample_disk (sconst True)) =
      Stopped ''locked: Denied'' (sample_disk (sconst True))"
    by (simp add: boot_app_def fetch_master_def)
  with boot_stops_or_loads [OF sample_app_disk_laws [of "[]"],
      where app_seed = "Inl () :: unit + bytes" and w = "sample_disk (sconst True)"]
  show ?thesis by simp
qed

text \<open>
  The status line. After any history, a tick of the timer brings the property level with the
  transport's string, and while no error was shown directly the property is that string of
  the last tick, so it lags by at most one period. An error that \<open>run_transport\<close> shows
  directly stays over the next tick only if the transport's string has not changed since the
  last one. In particular, when the simulator cannot bind its port before the first tick, the
  message \<open>ws error\<close> is replaced by \<open>starting\<close> and never comes back.
\<close>

lemma status_line_follows_transport:
  "bn_last (banner_step BannerTick (banner_run es banner_new)) = bn_status (banner_run es banner_new) \<and>
   ((\<forall>m. ErrorShown m \<notin> set es) \<longrightarrow>
      bn_shown (banner_run es banner_new) = bn_last (banner_run es banner_new)) \<and>
   (\<forall>m. m \<noteq> bn_status (banner_run es banner_new) \<longrightarrow>
      (bn_shown (banner_run (es @ [ErrorShown m, BannerTick]) banner_new) = m \<longleftrightarrow>
       bn_status (banner_run es banner_new) = bn_last (banner_run es banner_new))) \<and>
   (\<forall>e n. bn_shown (banner_run (run_transport_ws True (Inl e) [] @ BannerTick # replicate n BannerTick) banner_new) = ''starting'')"
proof (intro conjI)
  show "\<forall>e n. bn_shown (banner_run (run_transport_ws True (Inl e) [] @ BannerTick # replicate n BannerTick) banner_new) = ''starting''"
    by (simp add: run_transport_ws_def ws_serve_def banner_new_def ticks_idle)
qed (auto simp: banner_new_def intro: banner_in_step)

lemma status_line_follows_transport_sample:
  "bn_shown (banner_run [StatusSet ''ws idle'', BannerTick] banner_new) = ''ws idle'' \<and>
   bn_shown (banner_run ([StatusSet ''ws idle'', BannerTick] @ [ErrorShown ''e'', BannerTick]) banner_new) = ''e''"
  using status_line_follows_transport [of "[StatusSet ''ws idle'', BannerTick]"]
  by (simp add: banner_new_def)

end
