(* ===== verification/Files.thy ===== *)
theory Files
  imports Flows
begin

text \<open>
  The file half of \<open>src/import_flow.rs\<close> and \<open>src/backup_flow.rs\<close>: the options of the file
  picker, the places it returns, reading and writing through the file system server, the
  flows as the device runs them, and the stubs of the simulator. Picker and file system are
  parameters; the laws on the file system say what \<open>std::io\<close> promises of reading and writing
  an open file, and leave open what opening for writing keeps of an existing one, as the
  code asks for no truncation.
\<close>

section \<open>The platform\<close>

datatype picker_location = LocInternal | LocAirlock | LocExternal

datatype fs_location = FsUser | FsAirlock | FsUsb

fun map_location :: "picker_location \<Rightarrow> fs_location" where
  "map_location LocInternal = FsUser"
| "map_location LocAirlock = FsAirlock"
| "map_location LocExternal = FsUsb"

text \<open>The settings put on \<open>SelectFileOptions::default()\<close>, in order.\<close>

datatype select_setting =
    AllowedExtensions "string list"
  | AllLocations
  | HiddenAllowed bool
  | DirsAllowed bool
  | DirSelectionMode bool
  | MultipleSelectionMode bool

type_synonym file_picker = "select_setting list \<Rightarrow> string + (string \<times> picker_location) list option"

record open_flags =
  of_read :: bool
  of_write :: bool
  of_create :: bool

text \<open>\<open>FileSystem::open_file\<close> and the operations of \<open>std::io\<close> on what it returns.\<close>

record 'f file_api =
  fa_open :: "string \<Rightarrow> fs_location \<Rightarrow> open_flags \<Rightarrow> 'f \<Rightarrow> (string + nat) \<times> 'f"
  fa_read_to_end :: "nat \<Rightarrow> 'f \<Rightarrow> (string + bytes) \<times> 'f"
  fa_write_all :: "nat \<Rightarrow> bytes \<Rightarrow> 'f \<Rightarrow> (string + unit) \<times> 'f"
  fa_flush :: "nat \<Rightarrow> 'f \<Rightarrow> (string + unit) \<times> 'f"

section \<open>Reading and writing\<close>

definition read_flags :: open_flags where
  "read_flags = \<lparr>of_read = True, of_write = False, of_create = False\<rparr>"

definition write_flags :: open_flags where
  "write_flags = \<lparr>of_read = False, of_write = True, of_create = True\<rparr>"

definition read_file :: "'f file_api \<Rightarrow> string \<Rightarrow> fs_location \<Rightarrow> 'f \<Rightarrow> (string + bytes) \<times> 'f" where
  "read_file api path loc f =
     (case fa_open api path loc read_flags f of
        (Inl e, f1) \<Rightarrow> (Inl (''open: '' @ e), f1)
      | (Inr h, f1) \<Rightarrow>
          (case fa_read_to_end api h f1 of
             (Inl e, f2) \<Rightarrow> (Inl (''read: '' @ e), f2)
           | (Inr buf, f2) \<Rightarrow> (Inr buf, f2)))"

definition write_file :: "'f file_api \<Rightarrow> string \<Rightarrow> fs_location \<Rightarrow> bytes \<Rightarrow> 'f \<Rightarrow> (string + unit) \<times> 'f" where
  "write_file api path loc bs f =
     (case fa_open api path loc write_flags f of
        (Inl e, f1) \<Rightarrow> (Inl (''open: '' @ e), f1)
      | (Inr h, f1) \<Rightarrow>
          (case fa_write_all api h bs f1 of
             (Inl e, f2) \<Rightarrow> (Inl (''write: '' @ e), f2)
           | (Inr _, f2) \<Rightarrow>
               (case fa_flush api h f2 of
                  (Inl e, f3) \<Rightarrow> (Inl (''flush: '' @ e), f3)
                | (Inr _, f3) \<Rightarrow> (Inr (), f3))))"

text \<open>\<open>import_flow.rs\<close> has its own copy of the reader.\<close>

definition read_file_bytes :: "'f file_api \<Rightarrow> string \<Rightarrow> fs_location \<Rightarrow> 'f \<Rightarrow> (string + bytes) \<times> 'f" where
  "read_file_bytes api path loc f =
     (case fa_open api path loc read_flags f of
        (Inl e, f1) \<Rightarrow> (Inl (''open: '' @ e), f1)
      | (Inr h, f1) \<Rightarrow>
          (case fa_read_to_end api h f1 of
             (Inl e, f2) \<Rightarrow> (Inl (''read: '' @ e), f2)
           | (Inr buf, f2) \<Rightarrow> (Inr buf, f2)))"

section \<open>Picking\<close>

definition import_file_options :: "select_setting list" where
  "import_file_options = [AllowedExtensions [''csv'', ''txt''], AllLocations, DirsAllowed True]"

definition backup_dir_options :: "select_setting list" where
  "backup_dir_options =
     [HiddenAllowed False, DirsAllowed True, DirSelectionMode True, MultipleSelectionMode False, AllLocations]"

definition backup_file_options :: "select_setting list" where
  "backup_file_options =
     [HiddenAllowed False, DirsAllowed True, DirSelectionMode False, MultipleSelectionMode False, AllLocations,
      AllowedExtensions [''vbpw'', ''json'']]"

definition first_selected :: "string + (string \<times> picker_location) list option \<Rightarrow> string + (string \<times> fs_location) option" where
  "first_selected r =
     (case r of
        Inl e \<Rightarrow> Inl e
      | Inr None \<Rightarrow> Inr None
      | Inr (Some []) \<Rightarrow> Inr None
      | Inr (Some ((path, location) # _)) \<Rightarrow> Inr (Some (path, map_location location)))"

definition select_backup_dir :: "file_picker \<Rightarrow> string + (string \<times> fs_location) option" where
  "select_backup_dir pick = first_selected (pick backup_dir_options)"

definition select_backup_file :: "file_picker \<Rightarrow> string + (string \<times> fs_location) option" where
  "select_backup_file pick = first_selected (pick backup_file_options)"

definition import_picked :: "file_picker \<Rightarrow> 'f file_api \<Rightarrow> 'f \<Rightarrow> picked \<times> 'f" where
  "import_picked pick api f =
     (case pick import_file_options of
        Inl _ \<Rightarrow> (PickerFailed, f)
      | Inr None \<Rightarrow> (PickerCancelled, f)
      | Inr (Some []) \<Rightarrow> (NothingPicked, f)
      | Inr (Some ((path, location) # _)) \<Rightarrow>
          (case read_file_bytes api path (map_location location) f of
             (Inl _, f1) \<Rightarrow> (picked.ReadFailed, f1)
           | (Inr bs, f1) \<Rightarrow> (FileBytes bs, f1)))"

definition restore_picked :: "file_picker \<Rightarrow> 'f file_api \<Rightarrow> 'f \<Rightarrow> picked \<times> 'f" where
  "restore_picked pick api f =
     (case select_backup_file pick of
        Inl _ \<Rightarrow> (PickerFailed, f)
      | Inr None \<Rightarrow> (PickerCancelled, f)
      | Inr (Some (path, loc)) \<Rightarrow>
          (case read_file api path loc f of
             (Inl _, f1) \<Rightarrow> (picked.ReadFailed, f1)
           | (Inr bs, f1) \<Rightarrow> (FileBytes bs, f1)))"

definition export_target :: "file_picker \<Rightarrow> 'f file_api \<Rightarrow> bytes \<Rightarrow> 'f \<Rightarrow> backup_target \<times> 'f" where
  "export_target pick api backup f =
     (case select_backup_dir pick of
        Inl _ \<Rightarrow> (TargetFailed, f)
      | Inr None \<Rightarrow> (TargetCancelled, f)
      | Inr (Some (dir, loc)) \<Rightarrow>
          (case write_file api (join_dir dir BACKUP_FILE_NAME) loc backup f of
             (Inl _, f1) \<Rightarrow> (Target dir False, f1)
           | (Inr _, f1) \<Rightarrow> (Target dir True, f1)))"

section \<open>The flows on the device\<close>

definition pick_and_parse_device ::
  "'l libs_scheme \<Rightarrow> file_picker \<Rightarrow> 'f file_api \<Rightarrow> app \<Rightarrow> 'f \<Rightarrow> app \<times> 'f"
where
  "pick_and_parse_device L pick api a f =
     (case import_picked pick api f of (file, f1) \<Rightarrow> (pick_and_parse L file a, f1))"

text \<open>The picker opens only once the passphrase is accepted and the backup is made.\<close>

definition export_device ::
  "'l json_libs_scheme \<Rightarrow> bytes \<Rightarrow> file_picker \<Rightarrow> 'f file_api \<Rightarrow> app \<Rightarrow> 'z disk_world_scheme \<Rightarrow> 'f \<Rightarrow>
   app \<times> 'z disk_world_scheme \<times> 'f"
where
  "export_device L passphrase pick api a w f =
     (case (if length passphrase < 12 then (TargetCancelled, f)
            else case export_backup L passphrase (ap_keystore a) w of
              (Inl _, _) \<Rightarrow> (TargetCancelled, f)
            | (Inr backup, _) \<Rightarrow> export_target pick api backup f) of
        (target, f1) \<Rightarrow>
          (case export_encrypted_backup L passphrase target a w of (a1, w1, _) \<Rightarrow> (a1, w1, f1)))"

definition pick_restore_device ::
  "'l json_libs_scheme \<Rightarrow> bytes \<Rightarrow> file_picker \<Rightarrow> 'f file_api \<Rightarrow> app \<Rightarrow> 'f \<Rightarrow> app \<times> 'f"
where
  "pick_restore_device L passphrase pick api a f =
     (if passphrase = [] then (backup_set_error ''Backup passphrase is required.'' a, f)
      else case restore_picked pick api f of (file, f1) \<Rightarrow> (pick_restore_backup L passphrase file a, f1))"

text \<open>The callbacks of \<open>app_main\<close> around them; a passphrase is the bytes of its text.\<close>

definition on_import_pick :: "'l libs_scheme \<Rightarrow> file_picker \<Rightarrow> 'f file_api \<Rightarrow> app \<Rightarrow> 'f \<Rightarrow> app \<times> 'f" where
  "on_import_pick L pick api a f = pick_and_parse_device L pick api a f"

definition on_import_cancel :: "app \<Rightarrow> app" where
  "on_import_cancel a = import_cancel a"

definition on_backup_export ::
  "'l json_libs_scheme \<Rightarrow> string \<Rightarrow> file_picker \<Rightarrow> 'f file_api \<Rightarrow> app \<Rightarrow> 'z disk_world_scheme \<Rightarrow> 'f \<Rightarrow>
   app \<times> 'z disk_world_scheme \<times> 'f"
where
  "on_backup_export L passphrase pick api a w f = export_device L (as_bytes passphrase) pick api a w f"

definition on_backup_restore_pick ::
  "'l json_libs_scheme \<Rightarrow> string \<Rightarrow> file_picker \<Rightarrow> 'f file_api \<Rightarrow> app \<Rightarrow> 'f \<Rightarrow> app \<times> 'f"
where
  "on_backup_restore_pick L passphrase pick api a f = pick_restore_device L (as_bytes passphrase) pick api a f"

definition on_backup_cancel :: "app \<Rightarrow> app" where
  "on_backup_cancel a = backup_cancel a"

section \<open>The stubs of the simulator\<close>

definition pick_and_parse_sim :: "app \<Rightarrow> app" where
  "pick_and_parse_sim = set_import_error ''File import is only available on hardware.''"

definition export_sim :: "app \<Rightarrow> app" where
  "export_sim = backup_set_error ''Backup export is only available on hardware.''"

definition pick_restore_sim :: "app \<Rightarrow> app" where
  "pick_restore_sim = backup_set_error ''Backup restore is only available on hardware.''"

section \<open>Facts\<close>

text \<open>
  What the code relies on. \<open>content\<close> is what the files hold, and \<open>keep\<close> is what an open for
  writing without truncation keeps of an existing file; writing then starts at its front.
\<close>

definition old_content :: "('f \<Rightarrow> string \<times> fs_location \<Rightarrow> bytes option) \<Rightarrow> 'f \<Rightarrow> string \<Rightarrow> fs_location \<Rightarrow> bytes" where
  "old_content content f path loc = (case content f (path, loc) of None \<Rightarrow> [] | Some old \<Rightarrow> old)"

definition file_laws :: "('f \<Rightarrow> string \<times> fs_location \<Rightarrow> bytes option) \<Rightarrow> (bytes \<Rightarrow> bytes) \<Rightarrow> 'f file_api \<Rightarrow> bool" where
  "file_laws content keep api \<longleftrightarrow>
     (\<forall>p l f h f1 bs f2. fa_open api p l read_flags f = (Inr h, f1) \<longrightarrow> fa_read_to_end api h f1 = (Inr bs, f2) \<longrightarrow>
        content f (p, l) = Some bs \<and> content f2 = content f) \<and>
     (\<forall>p l f h f1 bs u f2 v f3. fa_open api p l write_flags f = (Inr h, f1) \<longrightarrow>
        fa_write_all api h bs f1 = (Inr u, f2) \<longrightarrow> fa_flush api h f2 = (Inr v, f3) \<longrightarrow>
        content f3 = (content f)((p, l) \<mapsto> bs @ drop (length bs) (keep (old_content content f p l))))"

lemma read_file_content:
  assumes "file_laws content keep api" and "read_file api p l f = (Inr bs, f')"
  shows "content f (p, l) = Some bs \<and> content f' = content f"
proof -
  from assms(2) obtain h f1 where "fa_open api p l read_flags f = (Inr h, f1)" "fa_read_to_end api h f1 = (Inr bs, f')"
    by (auto simp: read_file_def split: prod.splits sum.splits)
  with assms(1) show ?thesis unfolding file_laws_def by blast
qed

lemma read_file_bytes_same: "read_file_bytes = read_file"
  by (intro ext) (simp add: read_file_bytes_def read_file_def)

lemma write_file_content:
  assumes "file_laws content keep api" and "write_file api p l bs f = (Inr u, f')"
  shows "content f' = (content f)((p, l) \<mapsto> bs @ drop (length bs) (keep (old_content content f p l)))"
proof -
  from assms(2) obtain h f1 f2 v where "fa_open api p l write_flags f = (Inr h, f1)"
    "fa_write_all api h bs f1 = (Inr (), f2)" "fa_flush api h f2 = (Inr v, f')"
    by (auto simp: write_file_def split: prod.splits sum.splits)
  with assms(1) show ?thesis unfolding file_laws_def by blast
qed

text \<open>An export that reports success wrote the file.\<close>

lemma export_device_wrote:
  assumes e: "export_device L pass pick api a w f = (a1, w1, f1)" and ok: "ui_backup_success (ap_ui a1) \<noteq> []"
    and dir: "pick backup_dir_options = Inr (Some ((dir, place) # others))"
  obtains backup where "export_encrypted_backup L pass (Target dir True) a w = (a1, w1, Some (join_dir dir BACKUP_FILE_NAME, backup))"
    "write_file api (join_dir dir BACKUP_FILE_NAME) (map_location place) backup f = (Inr (), f1)"
proof -
  have d: "select_backup_dir pick = Inr (Some (dir, map_location place))"
    by (simp add: select_backup_dir_def first_selected_def dir)
  obtain x v where x: "export_backup L pass (ap_keystore a) w = (x, v)" by force
  have l: "\<not> length pass < 12"
    using e ok by (auto simp: export_device_def export_encrypted_backup_def backup_set_error_def update_ui_def)
  then obtain backup where b: "x = Inr backup"
    using e ok x by (cases x) (auto simp: export_device_def export_encrypted_backup_def backup_set_error_def update_ui_def)
  obtain r g where r: "write_file api (join_dir dir BACKUP_FILE_NAME) (map_location place) backup f = (r, g)" by force
  have t: "export_target pick api backup f = (Target dir (r = Inr ()), g)"
    using r d by (cases r) (simp_all add: export_target_def)
  have "r = Inr ()"
    using e ok x b l t
    by (auto simp: export_device_def export_encrypted_backup_def backup_set_error_def update_ui_def Let_def split: if_splits)
  with e x b l t r show thesis
    by (intro that [of backup]) (auto simp: export_device_def export_encrypted_backup_def Let_def)
qed

text \<open>What these callbacks do to the app is a step of \<open>AppRun\<close>, with the input the platform gave.\<close>

lemma import_pick_step:
  "app_step L (ImportPick (fst (import_picked pick api f))) s =
     Some (s\<lparr>rn_app := fst (on_import_pick L pick api (rn_app s) f)\<rparr>)"
  by (simp add: on_app_def on_import_pick_def pick_and_parse_device_def split: prod.splits)

lemma restore_pick_step:
  "\<exists>file. app_step L (RestorePick (as_bytes pass) file) s =
     Some (s\<lparr>rn_app := fst (on_backup_restore_pick L pass pick api (rn_app s) f)\<rparr>)"
  by (intro exI [of _ "fst (restore_picked pick api f)"])
    (auto simp: on_app_def on_backup_restore_pick_def pick_restore_device_def pick_restore_backup_def split: prod.splits)

lemma backup_export_step:
  "\<exists>target. app_step L (BackupExport (as_bytes pass) target) s =
     (case on_backup_export L pass pick api (rn_app s) (rn_world s) f of
        (a, w, _) \<Rightarrow> Some (s\<lparr>rn_app := a, rn_world := w\<rparr>))"
proof -
  obtain target g where t: "(if length (as_bytes pass) < 12 then (TargetCancelled, f)
      else case export_backup L (as_bytes pass) (ap_keystore (rn_app s)) (rn_world s) of
        (Inl _, _) \<Rightarrow> (TargetCancelled, f)
      | (Inr backup, _) \<Rightarrow> export_target pick api backup f) = (target, g)" by force
  show ?thesis
    by (rule exI [of _ target]) (simp only: on_backup_export_def export_device_def t prod.case,
      simp add: on_both_def split: prod.splits)
qed

section \<open>Properties\<close>

text \<open>
  C17: the file of a backup. When an export reports success and the user later picks that file on a
  device and it can be read, what is read is the backup followed by whatever the open kept of
  an older, longer file of that name, as the code does not truncate. If nothing longer was
  kept and the size is within the limit, the restore under the same passphrase stashes exactly
  the records that were exported. If a tail stays and the JSON reader refuses it, the user is told to check
  the passphrase, although the export reported success and the passphrase is right.
\<close>

theorem exported_file_restores:
  assumes laws: "disk_laws L" "hex_ok L" "hmac_ok L" "file_laws content keep api"
    and dir: "pick backup_dir_options = Inr (Some ((dir, place) # others))"
    and export: "export_device L pass pick api a w f = (a1, w1, f1)" "ui_backup_success (ap_ui a1) \<noteq> []"
    and again: "pick' backup_file_options = Inr (Some ((join_dir dir BACKUP_FILE_NAME, place) # others'))"
    and read: "restore_picked pick' api f1 = (FileBytes bs, f2)"
  shows "\<exists>backup tail. fst (export_backup L pass (ap_keystore a) w) = Inr backup \<and> bs = backup @ tail \<and>
     tail = drop (length backup) (keep (old_content content f (join_dir dir BACKUP_FILE_NAME) (map_location place))) \<and>
     (tail = [] \<and> length bs \<le> MAX_BACKUP_BYTES \<and> ks_records (ap_keystore a) \<noteq> [] \<longrightarrow>
        ap_pending_restore (fst (pick_restore_device L pass pick' api b f1)) = Some (ks_records (ap_keystore a))) \<and>
     (length bs \<le> MAX_BACKUP_BYTES \<and> (\<exists>e. backup_of_json L bs = Inl e) \<longrightarrow>
        ui_backup_error (ap_ui (fst (pick_restore_device L pass pick' api b f1))) =
          ''Backup could not be opened. Check the passphrase.'')"
proof -
  let ?path = "join_dir dir BACKUP_FILE_NAME"
  from export dir obtain backup where e: "export_encrypted_backup L pass (Target dir True) a w = (a1, w1, Some (?path, backup))"
    and wr: "write_file api ?path (map_location place) backup f = (Inr (), f1)" by (rule export_device_wrote)
  have "select_backup_file pick' = Inr (Some (?path, map_location place))"
    by (simp add: select_backup_file_def first_selected_def again)
  then have rd: "read_file api ?path (map_location place) f1 = (Inr bs, f2)"
    using read by (auto simp: restore_picked_def split: prod.splits sum.splits)
  let ?tail = "drop (length backup) (keep (old_content content f ?path (map_location place)))"
  have bs: "bs = backup @ ?tail"
    using write_file_content [OF laws(4) wr] read_file_content [OF laws(4) rd] by simp
  note x = export_file(1,2) [OF e]
  have r: "fst (pick_restore_device L pass pick' api b f1) = pick_restore_backup L pass (FileBytes bs) b"
    using read x(1) by (simp add: pick_restore_device_def)
  have good: "ap_pending_restore (pick_restore_backup L pass (FileBytes bs) b) = Some (ks_records (ap_keystore a))"
    if t: "?tail = []" and n: "length bs \<le> MAX_BACKUP_BYTES" and ne: "ks_records (ap_keystore a) \<noteq> []"
  proof -
    have "bs = backup" using bs t by simp
    with n obtain ui where "pick_restore_backup L pass (FileBytes bs) b =
        b\<lparr>ap_pending_restore := Some (ks_records (ap_keystore a)), ap_ui := ui\<rparr>"
      using pick_exported [OF laws(1,2,3) e _ ne, of b] by metis
    then show ?thesis by simp
  qed
  have bad: "ui_backup_error (ap_ui (pick_restore_backup L pass (FileBytes bs) b)) = ''Backup could not be opened. Check the passphrase.''"
    if "length bs \<le> MAX_BACKUP_BYTES" "backup_of_json L bs = Inl m" for m
    using that x(1) by (simp add: pick_restore_backup_def records_from_backup_def backup_set_error_def update_ui_def)
  have "fst (export_backup L pass (ap_keystore a) w) = Inr backup" using x(2) by simp
  then show ?thesis
    unfolding r using bs good bad by (intro exI [of _ backup] exI [of _ ?tail] conjI) blast+
qed

text \<open>A file system with one open file at a time that truncates nothing.\<close>

definition sample_files :: "((string \<times> fs_location \<Rightarrow> bytes option) \<times> (string \<times> fs_location)) file_api" where
  "sample_files =
     \<lparr>fa_open = (\<lambda>p l fl (c, t).
        if c (p, l) = None \<and> \<not> of_create fl then (Inl ''NotFound'', (c, t)) else (Inr 0, (c, (p, l)))),
      fa_read_to_end = (\<lambda>h (c, t). (case c t of None \<Rightarrow> Inl ''gone'' | Some bs \<Rightarrow> Inr bs, (c, t))),
      fa_write_all = (\<lambda>h bs (c, t). (Inr (), (c(t \<mapsto> bs @ drop (length bs) (case c t of None \<Rightarrow> [] | Some old \<Rightarrow> old)), t))),
      fa_flush = (\<lambda>h s. (Inr (), s))\<rparr>"

lemma sample_files_laws: "file_laws fst (\<lambda>old. old) sample_files"
  unfolding file_laws_def sample_files_def old_content_def
  by (auto split: if_splits option.splits)

definition sample_pick :: "string \<Rightarrow> file_picker" where
  "sample_pick path = (\<lambda>_. Inr (Some [(path, LocExternal)]))"

lemma sample_export_device:
  assumes "ks_records (ap_keystore a) = rs"
  obtains a1 w1 blob where
    "export_device (sample_app rs) (replicate 12 1) (sample_pick ''d'') sample_files a w (c, t) =
       (a1, w1, (c((join_dir ''d'' BACKUP_FILE_NAME, FsUsb) \<mapsto>
          blob @ drop (length blob) (old_content fst (c, t) (join_dir ''d'' BACKUP_FILE_NAME) FsUsb)),
         (join_dir ''d'' BACKUP_FILE_NAME, FsUsb)))"
    "ui_backup_success (ap_ui a1) \<noteq> []" "length blob \<le> 1000"
proof -
  obtain a1 w1 path blob where e: "export_encrypted_backup (sample_app rs) (replicate 12 1) (Target ''d'' True) a w = (a1, w1, Some (path, blob))"
    "length blob \<le> 1000" by (rule sample_export [OF assms])
  note x = export_file(2,4) [OF e(1)]
  let ?p = "join_dir ''d'' BACKUP_FILE_NAME"
  have "export_target (sample_pick ''d'') sample_files blob (c, t) =
      (Target ''d'' True, (c((?p, FsUsb) \<mapsto> blob @ drop (length blob) (old_content fst (c, t) ?p FsUsb)), (?p, FsUsb)))"
    by (simp add: export_target_def select_backup_dir_def first_selected_def sample_pick_def write_file_def
        sample_files_def write_flags_def old_content_def)
  with x e show thesis by (intro that [of a1 w1 blob]) (simp_all add: export_device_def)
qed

lemma exported_file_restores_witness:
  "\<exists>a1 w1 f1. export_device (sample_app (ks_records sample_keystore)) (replicate 12 1) (sample_pick ''d'') sample_files
       (app_new sample_keystore) (sample_disk (sconst True)) (\<lambda>_. None, ([], FsUser)) = (a1, w1, f1) \<and>
     ap_pending_restore (fst (pick_restore_device (sample_app (ks_records sample_keystore)) (replicate 12 1)
       (sample_pick (join_dir ''d'' BACKUP_FILE_NAME)) sample_files (app_new sample_keystore) f1)) =
     Some (ks_records sample_keystore)"
proof -
  let ?rs = "ks_records sample_keystore" and ?p = "join_dir ''d'' BACKUP_FILE_NAME"
  let ?L = "sample_app ?rs" and ?c = "\<lambda>_ :: string \<times> fs_location. None :: bytes option"
  have a: "ks_records (ap_keystore (app_new sample_keystore)) = ?rs" "?rs \<noteq> []"
    by (simp_all add: app_new_def sample_keystore_def)
  obtain a1 w1 blob where e0: "export_device ?L (replicate 12 1) (sample_pick ''d'') sample_files
       (app_new sample_keystore) (sample_disk (sconst True)) (?c, ([], FsUser)) =
       (a1, w1, (?c((?p, FsUsb) \<mapsto> blob @ drop (length blob) (old_content fst (?c, ([] :: string, FsUser)) ?p FsUsb)), (?p, FsUsb)))"
    and ok: "ui_backup_success (ap_ui a1) \<noteq> []" and n: "length blob \<le> 1000"
    by (rule sample_export_device [OF a(1), where w = "sample_disk (sconst True)" and c = ?c and t = "([], FsUser)"])
  have o: "old_content fst (?c, ([] :: string, FsUser)) ?p FsUsb = []" by (simp add: old_content_def)
  let ?f1 = "(?c((?p, FsUsb) \<mapsto> blob), (?p, FsUsb))"
  have e: "export_device ?L (replicate 12 1) (sample_pick ''d'') sample_files
       (app_new sample_keystore) (sample_disk (sconst True)) (?c, ([], FsUser)) = (a1, w1, ?f1)"
    using e0 by (simp add: o)
  have r: "restore_picked (sample_pick ?p) sample_files ?f1 = (FileBytes blob, ?f1)"
    by (simp add: restore_picked_def select_backup_file_def first_selected_def sample_pick_def read_file_def
        sample_files_def read_flags_def)
  have d: "sample_pick ''d'' backup_dir_options = Inr (Some [(''d'', LocExternal)])"
    "sample_pick ?p backup_file_options = Inr (Some [(?p, LocExternal)])" by (simp_all add: sample_pick_def)
  have size: "length blob \<le> MAX_BACKUP_BYTES" using n by (simp add: MAX_BACKUP_BYTES_def)
  note laws = sample_app_disk_laws [of ?rs] sample_app_laws(3,5) [of ?rs] sample_files_laws
  from exported_file_restores [OF laws d(1) e ok d(2) r, of "app_new sample_keystore"] a size o
  have "ap_pending_restore (fst (pick_restore_device ?L (replicate 12 1) (sample_pick ?p) sample_files
      (app_new sample_keystore) ?f1)) = Some ?rs" by auto
  with e show ?thesis by blast
qed

end
