(* ===== verification/Redaction.thy ===== *)
theory Redaction
  imports CredentialStore Approval CsvImport
begin

text \<open>
  The hand-written \<open>Debug\<close> implementations of \<open>record.rs\<close>, \<open>store.rs\<close>, \<open>approval.rs\<close> and of
  the import crate. An implementation is the sequence of its calls on the formatter: the name
  of the struct and its fields with their values. Whatever the formatter prints is a function
  of these calls, so what they do not contain reaches no log, panic message or \<open>dbg!\<close>.
\<close>

section \<open>Calls on the formatter\<close>

datatype debug_value =
    DStr string
  | DUuid uuid
  | DInt int
  | DBool bool
  | DNone
  | DSome debug_value
  | DAction approval_action

record debug_struct =
  ds_name :: string
  ds_fields :: "(string \<times> debug_value) list"

definition debug_record :: "credential_record \<Rightarrow> debug_struct" where
  "debug_record r =
     \<lparr>ds_name = ''CredentialRecord'',
      ds_fields =
        [(''id'', DUuid (cr_id r)),
         (''origin'', DStr (cr_origin r)),
         (''username'', DStr ''<redacted>''),
         (''password'', DStr ''<redacted>''),
         (''label'', DStr (cr_label r)),
         (''color'', DInt (cr_color r)),
         (''archived'', DBool (cr_archived r)),
         (''notes'', case cr_notes r of None \<Rightarrow> DNone | Some _ \<Rightarrow> DSome (DStr ''<redacted>'')),
         (''created_at'', DInt (uint (cr_created_at r))),
         (''last_used_at'', DInt (uint (cr_last_used_at r)))]\<rparr>"

definition debug_match :: "credential_match \<Rightarrow> debug_struct" where
  "debug_match m =
     \<lparr>ds_name = ''CredentialMatch'',
      ds_fields = [(''username'', DStr ''<redacted>''), (''password'', DStr ''<redacted>'')]\<rparr>"

definition debug_summary :: "credential_summary \<Rightarrow> debug_struct" where
  "debug_summary c =
     \<lparr>ds_name = ''CredentialSummary'',
      ds_fields =
        [(''username'', DStr ''<redacted>''),
         (''label'', DStr (cs_label c)),
         (''last_used_at'', DInt (uint (cs_last_used_at c)))]\<rparr>"

definition debug_approval_request :: "approval_request \<Rightarrow> debug_struct" where
  "debug_approval_request q =
     \<lparr>ds_name = ''ApprovalRequest'',
      ds_fields =
        [(''action'', DAction (ar_action q)),
         (''origin'', DStr (ar_origin q)),
         (''username'', DStr ''<redacted>''),
         (''request_nonce'', DInt (uint (ar_request_nonce q)))]\<rparr>"

definition debug_imported :: "imported_record \<Rightarrow> debug_struct" where
  "debug_imported r =
     \<lparr>ds_name = ''ImportedRecord'',
      ds_fields =
        [(''origin'', DStr (ir_origin r)),
         (''username'', DStr ''<redacted>''),
         (''password'', DStr ''<redacted>''),
         (''label'', DStr (ir_label r)),
         (''notes'', DStr ''<redacted>'')]\<rparr>"

section \<open>What a debug print can tell\<close>

text \<open>
  A type whose debug print tells exactly its public part: two values print alike if and only if
  their public parts agree. Then so do lists of values, whatever the formatter does with the calls.
\<close>

locale redacting =
  fixes dbg :: "'a \<Rightarrow> debug_struct" and public :: "'a \<Rightarrow> 'p"
  assumes tells_public: "dbg x = dbg y \<longleftrightarrow> public x = public y"
begin

lemma list_tells_public: "map dbg xs = map dbg ys \<longleftrightarrow> map public xs = map public ys"
proof (induction xs arbitrary: ys)
  case (Cons x xs)
  then show ?case using tells_public by (cases ys) auto
qed simp

lemma print_hides: "map public xs = map public ys \<Longrightarrow> print (map dbg xs) = print (map dbg ys)"
  by (simp only: list_tells_public [symmetric])

end

definition record_public ::
  "credential_record \<Rightarrow> uuid \<times> string \<times> string \<times> int \<times> bool \<times> bool \<times> u64 \<times> u64"
where
  "record_public r =
     (cr_id r, cr_origin r, cr_label r, cr_color r, cr_archived r, cr_notes r = None, cr_created_at r, cr_last_used_at r)"

interpretation record_debug: redacting debug_record record_public
  by unfold_locales (auto simp: debug_record_def record_public_def word_uint_eq_iff split: option.splits)

interpretation match_debug: redacting debug_match "\<lambda>_. ()"
  by unfold_locales (simp add: debug_match_def)

interpretation summary_debug: redacting debug_summary "\<lambda>c. (cs_label c, cs_last_used_at c)"
  by unfold_locales (auto simp: debug_summary_def word_uint_eq_iff)

interpretation request_debug: redacting debug_approval_request "\<lambda>q. (ar_action q, ar_origin q, ar_request_nonce q)"
  by unfold_locales (auto simp: debug_approval_request_def word_uint_eq_iff)

interpretation imported_debug: redacting debug_imported "\<lambda>r. (ir_origin r, ir_label r)"
  by unfold_locales (auto simp: debug_imported_def)

text \<open>
  No print of a list of records depends on user names, passwords or the text of notes.
\<close>

lemma record_print_hides_secrets:
  "print (map (\<lambda>r. debug_record (r\<lparr>cr_username := u r, cr_password := p r, cr_notes := map_option (n r) (cr_notes r)\<rparr>)) rs) =
   print (map debug_record rs)"
proof -
  have "map debug_record (map (\<lambda>r. r\<lparr>cr_username := u r, cr_password := p r, cr_notes := map_option (n r) (cr_notes r)\<rparr>) rs) =
      map debug_record rs"
    unfolding record_debug.list_tells_public by (simp add: record_public_def)
  then show ?thesis by (simp only: map_map comp_def)
qed

text \<open>No print of imported rows depends on the user names, passwords and notes of the file.\<close>

lemma imported_print_hides_secrets:
  "print (map (\<lambda>r. debug_imported (r\<lparr>ir_username := u r, ir_password := p r, ir_notes := n r\<rparr>)) rs) =
   print (map debug_imported rs)"
proof -
  have "map debug_imported (map (\<lambda>r. r\<lparr>ir_username := u r, ir_password := p r, ir_notes := n r\<rparr>) rs) = map debug_imported rs"
    unfolding imported_debug.list_tells_public by simp
  then show ?thesis by (simp only: map_map comp_def)
qed

end
