(* ===== verification/Clients.thy ===== *)
theory Clients
  imports System Transport
begin

text \<open>
  The WebSocket server with all its clients: \<open>serve\<close> of \<open>src/transport/websocket.rs\<close> spawns one
  task per connection, and the tasks share the engine. A task reads a message, runs the
  handler, which may await the user, sends the response, and only then reads again; the tasks
  interleave with each other, with taps, time outs and callbacks. The relation refines
  \<open>System\<close>, which does not know clients.
\<close>

section \<open>Tasks\<close>

text \<open>\<open>Awaiting wt\<close>: inside \<open>engine.handle\<close>, at the await of the approval.\<close>

datatype ws_phase = Reading | Awaiting waiting | Gone

record ws_conn =
  wc_phase :: ws_phase
  wc_sent :: "bytes list"

definition ws_conn_new :: "bool \<Rightarrow> ws_conn" where
  "ws_conn_new handshake_ok = \<lparr>wc_phase = if handshake_ok then Reading else Gone, wc_sent = []\<rparr>"

text \<open>After \<open>handle\<close>: the \<open>unwrap\<close> of \<open>to_string\<close> may panic, a failed \<open>send\<close> ends the loop.\<close>

definition ws_reply :: "'l wire_libs_scheme \<Rightarrow> bool \<Rightarrow> response \<Rightarrow> ws_conn \<Rightarrow> ws_conn" where
  "ws_reply L send_ok r c =
     (case json_of_response L r of
        Inl _ \<Rightarrow> c\<lparr>wc_phase := Gone\<rparr>
      | Inr bs \<Rightarrow>
          if send_ok then c\<lparr>wc_phase := Reading, wc_sent := wc_sent c @ [bs]\<rparr> else c\<lparr>wc_phase := Gone\<rparr>)"

text \<open>A text that is no request: the result of the \<open>send\<close> is ignored.\<close>

definition ws_refuse :: "'l wire_libs_scheme \<Rightarrow> bool \<Rightarrow> ws_conn \<Rightarrow> ws_conn" where
  "ws_refuse L send_ok c =
     (case json_of_response L (invalid_request ''0'') of
        Inl _ \<Rightarrow> c\<lparr>wc_phase := Gone\<rparr>
      | Inr bs \<Rightarrow> if send_ok then c\<lparr>wc_sent := wc_sent c @ [bs]\<rparr> else c)"

text \<open>What \<open>handle\<close> returns when it does not await.\<close>

fun direct_answer :: "event \<Rightarrow> (request \<times> response) option" where
  "direct_answer (Answered rq r) = Some (rq, respond (rq_id rq) r)"
| "direct_answer (Cancelled rq) = Some (rq, respond (rq_id rq) (Inr Empty))"
| "direct_answer _ = None"

section \<open>The step relation\<close>

record 'w clients =
  cl_system :: "'w system"
  cl_conns :: "ws_conn list"

definition clients_new :: "'w running \<Rightarrow> 'w clients" where
  "clients_new r = \<lparr>cl_system = system_new r, cl_conns = []\<rparr>"

abbreviation conn :: "'w clients \<Rightarrow> nat \<Rightarrow> ws_conn" where
  "conn C i \<equiv> cl_conns C ! i"

definition put_conn :: "nat \<Rightarrow> ws_conn \<Rightarrow> 'w clients \<Rightarrow> 'w clients" where
  "put_conn i c C = C\<lparr>cl_conns := (cl_conns C)[i := c]\<rparr>"

datatype client_event =
    Joined bool                       \<comment> \<open>\<open>accept\<close>, and whether the handshake succeeds\<close>
  | Served nat bytes bool event       \<comment> \<open>a text, answered without an await; the result of \<open>send\<close>\<close>
  | Held nat bytes request waiting    \<comment> \<open>a text whose handler now awaits the user\<close>
  | Woken nat bool waiting approval_decision "engine_error + response_body"
  | Refused nat bytes bool            \<comment> \<open>a text that is no request\<close>
  | Ignored nat                       \<comment> \<open>a message of another kind\<close>
  | Parted nat                        \<comment> \<open>a close message, a read error or the end of the stream\<close>
  | Beside system_event               \<comment> \<open>a tap, a tick, a turn of the UI queue or a callback\<close>

fun beside :: "system_event \<Rightarrow> bool" where
  "beside (Host (Tapped d c)) = True"
| "beside (Host Ticked) = True"
| "beside (Host UiRan) = True"
| "beside (User p) = True"
| "beside _ = False"

inductive clients_step ::
  "'l wire_libs_scheme \<Rightarrow> 'z disk_world_scheme clients \<Rightarrow> client_event \<Rightarrow> 'z disk_world_scheme clients \<Rightarrow> bool"
for L where
  join: "clients_step L C (Joined ok) (C\<lparr>cl_conns := cl_conns C @ [ws_conn_new ok]\<rparr>)"
| serve: "i < length (cl_conns C) \<Longrightarrow> wc_phase (conn C i) = Reading \<Longrightarrow> request_of_json L t = Some rq \<Longrightarrow>
     system_step L (cl_system C) (Host ev) S \<Longrightarrow> direct_answer ev = Some (rq, r) \<Longrightarrow>
     clients_step L C (Served i t ok ev) (put_conn i (ws_reply L ok r (conn C i)) (C\<lparr>cl_system := S\<rparr>))"
| hold: "i < length (cl_conns C) \<Longrightarrow> wc_phase (conn C i) = Reading \<Longrightarrow> request_of_json L t = Some rq \<Longrightarrow>
     system_step L (cl_system C) (Host (Asked rq wt)) S \<Longrightarrow>
     clients_step L C (Held i t rq wt) (put_conn i ((conn C i)\<lparr>wc_phase := Awaiting wt\<rparr>) (C\<lparr>cl_system := S\<rparr>))"
| wake: "i < length (cl_conns C) \<Longrightarrow> wc_phase (conn C i) = Awaiting wt \<Longrightarrow>
     system_step L (cl_system C) (Host (Resumed wt d r)) S \<Longrightarrow>
     clients_step L C (Woken i ok wt d r)
       (put_conn i (ws_reply L ok (respond (wt_id wt) r) (conn C i)) (C\<lparr>cl_system := S\<rparr>))"
| refuse: "i < length (cl_conns C) \<Longrightarrow> wc_phase (conn C i) = Reading \<Longrightarrow> request_of_json L t = None \<Longrightarrow>
     clients_step L C (Refused i t ok) (put_conn i (ws_refuse L ok (conn C i)) C)"
| ignore: "i < length (cl_conns C) \<Longrightarrow> wc_phase (conn C i) = Reading \<Longrightarrow> clients_step L C (Ignored i) C"
| part: "i < length (cl_conns C) \<Longrightarrow> wc_phase (conn C i) = Reading \<Longrightarrow>
     clients_step L C (Parted i) (put_conn i ((conn C i)\<lparr>wc_phase := Gone\<rparr>) C)"
| beside: "system_step L (cl_system C) e S \<Longrightarrow> beside e \<Longrightarrow> clients_step L C (Beside e) (C\<lparr>cl_system := S\<rparr>)"

section \<open>What a trace says of one client\<close>

fun system_part :: "client_event \<Rightarrow> system_event list" where
  "system_part (Served i t ok ev) = [Host ev]"
| "system_part (Held i t rq wt) = [Host (Asked rq wt)]"
| "system_part (Woken i ok wt d r) = [Host (Resumed wt d r)]"
| "system_part (Beside e) = [e]"
| "system_part _ = []"

text \<open>The texts client \<open>i\<close> read, the responses made for it, and whether its sends succeeded.\<close>

fun text_of :: "nat \<Rightarrow> client_event \<Rightarrow> bytes list" where
  "text_of i (Served j t ok ev) = (if j = i then [t] else [])"
| "text_of i (Held j t rq wt) = (if j = i then [t] else [])"
| "text_of i (Refused j t ok) = (if j = i then [t] else [])"
| "text_of i _ = []"

fun answer_of :: "nat \<Rightarrow> client_event \<Rightarrow> response list" where
  "answer_of i (Served j t ok ev) = (if j = i then map snd ((case direct_answer ev of None \<Rightarrow> [] | Some x \<Rightarrow> [x])) else [])"
| "answer_of i (Woken j ok wt d r) = (if j = i then [respond (wt_id wt) r] else [])"
| "answer_of i (Refused j t ok) = (if j = i then [invalid_request ''0''] else [])"
| "answer_of i _ = []"

fun send_worked :: "nat \<Rightarrow> client_event \<Rightarrow> bool" where
  "send_worked i (Served j t ok ev) = (j = i \<longrightarrow> ok)"
| "send_worked i (Woken j ok wt d r) = (j = i \<longrightarrow> ok)"
| "send_worked i (Refused j t ok) = (j = i \<longrightarrow> ok)"
| "send_worked i _ = True"

definition texts_of :: "nat \<Rightarrow> client_event list \<Rightarrow> bytes list" where
  "texts_of i tr = concat (map (text_of i) tr)"

definition answers_of :: "nat \<Rightarrow> client_event list \<Rightarrow> response list" where
  "answers_of i tr = concat (map (answer_of i) tr)"

text \<open>The identifier a text is answered under; this transport does not look into a bad one.\<close>

definition text_id :: "'l wire_libs_scheme \<Rightarrow> bytes \<Rightarrow> string" where
  "text_id L t = (case request_of_json L t of None \<Rightarrow> ''0'' | Some rq \<Rightarrow> rq_id rq)"

fun awaited :: "ws_phase \<Rightarrow> waiting list" where
  "awaited (Awaiting wt) = [wt]"
| "awaited _ = []"

section \<open>It refines the system\<close>

lemma put_conn_sel [simp]:
  "cl_system (put_conn i c C) = cl_system C" "cl_conns (put_conn i c C) = (cl_conns C)[i := c]"
  by (simp_all add: put_conn_def)

lemma clients_step_system:
  assumes "clients_step L C e C'"
  shows "trace_run (system_step L) (cl_system C) (system_part e) (cl_system C')"
  using assms by cases (auto intro: trace_run_one trace_start)

interpretation on_system: step_refinement "clients_step L" "system_step L" cl_system system_part
  by unfold_locales (rule clients_step_system)

lemma Asked_waiting:
  assumes "system_step L S (Host (Asked rq wt)) S'"
  shows "wt_id wt = rq_id rq" and "sy_waiting S' = sy_waiting S @ [wt]"
  using assms by (auto elim!: system_step_HostE elim: server_step.cases simp: put_server_def server_of_def)

lemma Resumed_waiting:
  assumes "system_step L S (Host (Resumed wt d r)) S'"
  shows "wt \<in> set (sy_waiting S)" and "sy_waiting S' = remove1 wt (sy_waiting S)"
  using assms by (auto elim!: system_step_HostE server_step_ResumedE simp: put_server_def server_of_def)

lemma other_waiting:
  assumes "system_step L S e S'" and "beside e \<or> (\<exists>ev x. e = Host ev \<and> direct_answer ev = Some x)"
  shows "sy_waiting S' = sy_waiting S"
  using assms
proof cases
  case (host ev sv)
  show ?thesis using host(3) assms(2) unfolding host(1,2)
    by cases (auto simp: put_server_def server_of_def)
qed simp

section \<open>Every client is served on its own\<close>

text \<open>
  What a trace and a state have to do with each other, for one client: the identifiers of its
  responses are those of its texts, with one text outstanding while it awaits, a handler it
  awaits is that of a request of its own, and if its sends work it was sent the responses.
\<close>

definition held_for :: "nat \<Rightarrow> waiting \<Rightarrow> client_event list \<Rightarrow> bool" where
  "held_for i wt tr \<longleftrightarrow> (\<exists>t rq. Held i t rq wt \<in> set tr)"

lemma held_for_append [simp]: "held_for i wt (tr @ [e]) \<longleftrightarrow> held_for i wt tr \<or> (\<exists>t rq. e = Held i t rq wt)"
  by (auto simp: held_for_def)

definition client_ok :: "'l wire_libs_scheme \<Rightarrow> client_event list \<Rightarrow> nat \<Rightarrow> ws_conn \<Rightarrow> bool" where
  "client_ok L tr i c \<longleftrightarrow>
     map (text_id L) (texts_of i tr) = map response_id (answers_of i tr) @ map wt_id (awaited (wc_phase c)) \<and>
     (\<forall>wt \<in> set (awaited (wc_phase c)). held_for i wt tr) \<and>
     (list_all (send_worked i) tr \<longrightarrow> wc_sent c = map (response_text L) (answers_of i tr))"

lemma trace_lists [simp]:
  "texts_of i [] = []" "answers_of i [] = []"
  "texts_of i (tr @ [e]) = texts_of i tr @ text_of i e" "answers_of i (tr @ [e]) = answers_of i tr @ answer_of i e"
  by (simp_all add: texts_of_def answers_of_def)

lemma client_ok_other:
  "client_ok L tr i c \<Longrightarrow> text_of i e = [] \<Longrightarrow> answer_of i e = [] \<Longrightarrow> client_ok L (tr @ [e]) i c"
  by (auto simp: client_ok_def)

lemma wire_okD: "wire_ok L \<Longrightarrow> json_of_response L r = Inr (response_text L r)"
  by (simp add: wire_ok_def)

lemma client_ok_reply:
  assumes "wire_ok L" "client_ok L tr i c"
    and "map (text_id L) (text_of i e) = map response_id (answer_of i e) \<and> awaited (wc_phase c) = [] \<or>
      text_of i e = [] \<and> map response_id (answer_of i e) = map wt_id (awaited (wc_phase c))"
    and "answer_of i e = [r]" "send_worked i e = ok"
  shows "client_ok L (tr @ [e]) i (ws_reply L ok r c)"
  using assms(2-) by (auto simp: client_ok_def ws_reply_def wire_okD [OF assms(1)])

lemma client_ok_refuse:
  assumes "wire_ok L" "client_ok L tr i c" "request_of_json L t = None" "wc_phase c = Reading"
  shows "client_ok L (tr @ [Refused i t ok]) i (ws_refuse L ok c)"
  using assms(2-) by (auto simp: client_ok_def ws_refuse_def wire_okD [OF assms(1)] text_id_def invalid_request_def)

definition clients_inv :: "'l wire_libs_scheme \<Rightarrow> client_event list \<Rightarrow> 'w clients \<Rightarrow> bool" where
  "clients_inv L tr C \<longleftrightarrow>
     (\<forall>i < length (cl_conns C). client_ok L tr i (conn C i)) \<and>
     (\<forall>i \<ge> length (cl_conns C). texts_of i tr = [] \<and> answers_of i tr = [])"

lemma clients_inv_put:
  assumes "clients_inv L tr C" and "cl_conns C' = (cl_conns C)[i := c]" and "i < length (cl_conns C)"
    and "client_ok L (tr @ [e]) i c" and "\<And>j. j \<noteq> i \<Longrightarrow> text_of j e = [] \<and> answer_of j e = []"
  shows "clients_inv L (tr @ [e]) C'"
  using assms by (auto simp: clients_inv_def nth_list_update intro: client_ok_other)

lemma clients_inv_same:
  assumes "clients_inv L tr C" and "cl_conns C' = cl_conns C" and "\<And>j. text_of j e = [] \<and> answer_of j e = []"
  shows "clients_inv L (tr @ [e]) C'"
  using assms by (auto simp: clients_inv_def intro: client_ok_other)

lemma direct_answer_id: "direct_answer ev = Some (rq, r) \<Longrightarrow> response_id r = rq_id rq"
  by (cases ev) auto

lemma clients_step_inv:
  assumes "clients_step L C e C'" and "wire_ok L" and inv: "clients_inv L tr C"
  shows "clients_inv L (tr @ [e]) C'"
proof -
  have ok: "client_ok L tr i (conn C i)" if "i < length (cl_conns C)" for i
    using inv that by (simp add: clients_inv_def)
  show ?thesis
    using assms(1)
  proof cases
    case (join h)
    then show ?thesis using inv
      by (auto simp: clients_inv_def nth_append client_ok_def ws_conn_new_def less_Suc_eq list_all_iff)
  next
    case (serve i t rq ev S r h)
    have c: "client_ok L (tr @ [e]) i (ws_reply L h r (conn C i))"
      by (rule client_ok_reply [OF assms(2) ok [OF serve(3)]])
        (use serve in \<open>simp_all add: text_id_def direct_answer_id\<close>)
    show ?thesis by (rule clients_inv_put [OF inv _ serve(3) c]) (use serve in simp_all)
  next
    case (hold i t rq wt S)
    have c: "client_ok L (tr @ [e]) i ((conn C i)\<lparr>wc_phase := Awaiting wt\<rparr>)"
      using ok [OF hold(3)] hold Asked_waiting(1) [OF hold(6)] by (auto simp: client_ok_def text_id_def)
    show ?thesis by (rule clients_inv_put [OF inv _ hold(3) c]) (use hold in simp_all)
  next
    case (wake i wt d r S h)
    have c: "client_ok L (tr @ [e]) i (ws_reply L h (respond (wt_id wt) r) (conn C i))"
      by (rule client_ok_reply [OF assms(2) ok [OF wake(3)]]) (use wake in simp_all)
    show ?thesis by (rule clients_inv_put [OF inv _ wake(3) c]) (use wake in simp_all)
  next
    case (refuse i t h)
    have c: "client_ok L (tr @ [e]) i (ws_refuse L h (conn C i))"
      unfolding refuse(1) by (rule client_ok_refuse [OF assms(2) ok [OF refuse(3)] refuse(5,4)])
    show ?thesis by (rule clients_inv_put [OF inv _ refuse(3) c]) (use refuse in simp_all)
  next
    case (ignore i)
    then show ?thesis by (intro clients_inv_same [OF inv]) simp_all
  next
    case (part i)
    have c: "client_ok L (tr @ [e]) i ((conn C i)\<lparr>wc_phase := Gone\<rparr>)"
      using ok [OF part(3)] part by (simp add: client_ok_def)
    show ?thesis by (rule clients_inv_put [OF inv _ part(3) c]) (use part in simp_all)
  next
    case (beside ev S)
    then show ?thesis by (intro clients_inv_same [OF inv]) simp_all
  qed
qed

lemma clients_run_inv:
  assumes "trace_run (clients_step L) (clients_new r) tr C" and "wire_ok L"
  shows "clients_inv L tr C"
  using assms(1)
proof (induction "clients_new r" tr C rule: trace_run.induct)
  case trace_start
  then show ?case by (simp add: clients_inv_def clients_new_def)
qed (blast intro: clients_step_inv assms(2))

section \<open>No handler is orphaned\<close>

definition awaiting :: "'w clients \<Rightarrow> waiting list" where
  "awaiting C = concat (map (\<lambda>c. awaited (wc_phase c)) (cl_conns C))"

lemma mset_concat_update:
  "i < length xs \<Longrightarrow> mset (concat (map f (xs[i := y]))) + mset (f (xs ! i)) = mset (concat (map f xs)) + mset (f y)"
proof (induction xs arbitrary: i)
  case (Cons x xs)
  show ?case
  proof (cases i)
    case (Suc j)
    with Cons.IH [of j] Cons.prems show ?thesis by (simp add: ac_simps)
  qed (simp add: ac_simps)
qed simp

lemma awaited_reply: "awaited (wc_phase (ws_reply L ok r c)) = []"
  by (simp add: ws_reply_def split: sum.split)

lemma awaited_refuse: "wc_phase c = Reading \<Longrightarrow> awaited (wc_phase (ws_refuse L ok c)) = []"
  by (simp add: ws_refuse_def split: sum.split)

lemma clients_step_awaiting:
  assumes "clients_step L C e C'" and w: "mset (sy_waiting (cl_system C)) = mset (awaiting C)"
  shows "mset (sy_waiting (cl_system C')) = mset (awaiting C')"
proof -
  note u = mset_concat_update [of _ "cl_conns C" "\<lambda>c. awaited (wc_phase c)"]
  show ?thesis
    using assms(1)
  proof cases
    case (join h)
    then show ?thesis using w by (simp add: awaiting_def ws_conn_new_def)
  next
    case (serve i t rq ev S r h)
    then show ?thesis using w u [of i "ws_reply L h r (conn C i)"] other_waiting [OF serve(6)]
      by (simp add: awaiting_def awaited_reply)
  next
    case (hold i t rq wt S)
    then show ?thesis using w u [of i "(conn C i)\<lparr>wc_phase := Awaiting wt\<rparr>"] Asked_waiting(2) [OF hold(6)]
      by (simp add: awaiting_def)
  next
    case (wake i wt d r S h)
    have "mset (awaiting C) = add_mset wt (mset (awaiting C'))"
      using wake u [of i "ws_reply L h (respond (wt_id wt) r) (conn C i)"] by (simp add: awaiting_def awaited_reply)
    then show ?thesis using w wake(2) Resumed_waiting(2) [OF wake(5)] by simp
  next
    case (refuse i t h)
    then show ?thesis using w u [of i "ws_refuse L h (conn C i)"] by (simp add: awaiting_def awaited_refuse)
  next
    case (part i)
    then show ?thesis using w u [of i "(conn C i)\<lparr>wc_phase := Gone\<rparr>"] by (simp add: awaiting_def)
  next
    case (beside ev S)
    then show ?thesis using w other_waiting [OF beside(3)] by (simp add: awaiting_def)
  qed (use w in simp)
qed

interpretation no_orphans: step_invariant "clients_step L" "\<lambda>C. mset (sy_waiting (cl_system C)) = mset (awaiting C)"
  by unfold_locales (rule clients_step_awaiting)

section \<open>Properties\<close>

text \<open>
  C5: every client is served on its own. Let any number of WebSocket clients connect, send, await
  and leave while the user taps, requests time out and callbacks run. The whole is a run of
  the app of \<open>System\<close>; the handlers that wait in it are exactly those the tasks await. Each client
  reads its next text only when the last one is answered, so the responses made for it carry the
  identifiers of its own texts in order, one text being outstanding while its task awaits; if its
  sends succeed these responses are what it was sent. And when a task wakes with a success, the
  request behind it is one that this very client had sent, and the user had tapped \<open>Approve\<close>
  while the slot held the channel of that request.
\<close>

theorem clients_get_their_own_answers:
  assumes wire: "wire_ok L" and run: "trace_run (clients_step L) (clients_new r) tr C"
  shows "trace_run (system_step L) (system_new r) (concat (map system_part tr)) (cl_system C) \<and>
     mset (sy_waiting (cl_system C)) = mset (awaiting C) \<and>
     (\<forall>i < length (cl_conns C).
        map (text_id L) (texts_of i tr) =
          map response_id (answers_of i tr) @ map wt_id (awaited (wc_phase (conn C i))) \<and>
        (list_all (send_worked i) tr \<longrightarrow> wc_sent (conn C i) = map (response_text L) (answers_of i tr))) \<and>
     (\<forall>tr1 tr2 i ok wt d body. tr = tr1 @ Woken i ok wt d (Inr body) # tr2 \<longrightarrow>
        held_for i wt tr1 \<and> d = Approve \<and> kont_card (wt_request wt) (wt_kont wt) \<and>
        (\<exists>c. wt_ticket wt = Waiting c \<and> approved_by_tap (map host_view (concat (map system_part tr1))) c))"
proof (intro conjI allI impI)
  have start: "cl_system (clients_new r) = system_new r" "awaiting (clients_new r) = []" "sy_waiting (system_new r) = []"
    by (simp_all add: clients_new_def awaiting_def system_new_def)
  show "trace_run (system_step L) (system_new r) (concat (map system_part tr)) (cl_system C)"
    using on_system.run_refines [OF run] start by simp
  show "mset (sy_waiting (cl_system C)) = mset (awaiting C)"
    using no_orphans.run_invariant [OF run] start by simp
  fix i
  assume "i < length (cl_conns C)"
  then have c: "client_ok L tr i (conn C i)" using clients_run_inv [OF run wire] by (simp add: clients_inv_def)
  then show "map (text_id L) (texts_of i tr) =
      map response_id (answers_of i tr) @ map wt_id (awaited (wc_phase (conn C i)))" by (simp add: client_ok_def)
  assume "list_all (send_worked i) tr"
  with c show "wc_sent (conn C i) = map (response_text L) (answers_of i tr)" by (simp add: client_ok_def)
next
  fix tr1 tr2 i ok wt d body
  assume "tr = tr1 @ Woken i ok wt d (Inr body) # tr2"
  with run obtain C1 C2 where r1: "trace_run (clients_step L) (clients_new r) tr1 C1"
    and st: "clients_step L C1 (Woken i ok wt d (Inr body)) C2" by (auto elim: trace_run_split)
  from st obtain S where i: "i < length (cl_conns C1)" "wc_phase (conn C1 i) = Awaiting wt"
    and s: "system_step L (cl_system C1) (Host (Resumed wt d (Inr body))) S" by cases
  have "client_ok L tr1 i (conn C1 i)" using clients_run_inv [OF r1 wire] i by (simp add: clients_inv_def)
  with i show "held_for i wt tr1" by (simp add: client_ok_def)
  have sv: "server_step L (keystore_ops L) (on_write L) (server_of (cl_system C1)) (Resumed wt d (Inr body)) (server_of S)"
    using system_step_server [OF s] by simp
  show d: "d = Approve" by (rule success_was_approved [OF sv])
  have "trace_run (system_step L) (system_new r) (concat (map system_part tr1)) (cl_system C1)"
    using on_system.run_refines [OF r1] by (simp add: clients_new_def)
  note tap = approved_resume_from_tap [OF system_run_inv [OF this] sv [unfolded d]]
  show "kont_card (wt_request wt) (wt_kont wt)" by (rule tap(2))
  show "\<exists>c. wt_ticket wt = Waiting c \<and> approved_by_tap (map host_view (concat (map system_part tr1))) c"
    using tap(1) by blast
qed

lemma sample_ping:
  "system_step sample_wire S (Host (Answered \<lparr>rq_id = i, rq_method = Ping\<rparr> (Inr (Pong True))))
     (put_server (server_of S) S)"
proof -
  have "server_step sample_wire (keystore_ops sample_wire) (on_write sample_wire) (server_of S)
      (Answered \<lparr>rq_id = i, rq_method = Ping\<rparr> (Inr (Pong True)))
      ((server_of S)\<lparr>sv_engine := sv_engine (server_of S), sv_world := sv_world (server_of S)\<rparr>)"
    by (rule server_step.answer [where now = 0]) simp
  then show ?thesis by (intro system_step.host) simp_all
qed

lemma clients_get_their_own_answers_witness:
  "\<exists>(C :: disk_world clients) r ev. trace_run (clients_step sample_wire) (clients_new r)
       [Joined True, Joined True, Served 1 [65, 66] True ev, Refused 1 [33] True] C \<and>
     wc_sent (conn C 0) = [] \<and>
     wc_sent (conn C 1) = [response_text sample_wire (RespOk ''AB'' (Pong True)), response_text sample_wire (invalid_request ''0'')]"
proof -
  let ?L = sample_wire
  define r :: "disk_world running" where
    "r = \<lparr>rn_app = app_new (keystore_new ?L [7]), rn_session = session_new, rn_world = sample_disk (sconst True)\<rparr>"
  let ?ev = "Answered \<lparr>rq_id = ''AB'', rq_method = Ping\<rparr> (Inr (Pong True))"
  let ?tr = "[Joined True, Joined True, Served 1 [65, 66] True ?ev, Refused 1 [33] True]"
  define C1 where "C1 = (clients_new r)\<lparr>cl_conns := cl_conns (clients_new r) @ [ws_conn_new True]\<rparr>"
  define C2 where "C2 = C1\<lparr>cl_conns := cl_conns C1 @ [ws_conn_new True]\<rparr>"
  have c2: "cl_conns C2 = [ws_conn_new True, ws_conn_new True]" by (simp add: C2_def C1_def clients_new_def)
  define C3 where "C3 = put_conn 1 (ws_reply ?L True (RespOk ''AB'' (Pong True)) (conn C2 1))
      (C2\<lparr>cl_system := put_server (server_of (cl_system C2)) (cl_system C2)\<rparr>)"
  have c3: "cl_conns C3 = [ws_conn_new True, ws_reply ?L True (RespOk ''AB'' (Pong True)) (ws_conn_new True)]"
    by (simp add: C3_def c2)
  have q: "request_of_json ?L [65, 66] = Some \<lparr>rq_id = ''AB'', rq_method = Ping\<rparr>" "request_of_json ?L [33] = None"
    by (simp_all add: sample_wire_sel of_bytes_def) code_simp
  have t1: "trace_run (clients_step ?L) (clients_new r) [Joined True] C1"
    by (rule trace_run_one) (unfold C1_def, rule clients_step.join)
  have t2: "trace_run (clients_step ?L) C1 [Joined True] C2"
    by (rule trace_run_one) (unfold C2_def, rule clients_step.join)
  have t3: "trace_run (clients_step ?L) C2 [Served 1 [65, 66] True ?ev] C3"
    by (rule trace_run_one) (unfold C3_def, rule clients_step.serve [OF _ _ q(1) sample_ping], simp_all add: c2 ws_conn_new_def)
  have t4: "trace_run (clients_step ?L) C3 [Refused 1 [33] True] (put_conn 1 (ws_refuse ?L True (conn C3 1)) C3)"
    by (rule trace_run_one) (rule clients_step.refuse, simp_all add: c3 q ws_reply_def ws_conn_new_def sample_wire_sel)
  have run: "trace_run (clients_step ?L) (clients_new r) ?tr (put_conn 1 (ws_refuse ?L True (conn C3 1)) C3)"
    using trace_run_append [OF t4 trace_run_append [OF t3 trace_run_append [OF t2 t1]]] by simp
  have n: "length (cl_conns (put_conn 1 (ws_refuse ?L True (conn C3 1)) C3)) = 2" by (simp add: c3)
  note all = conjunct1 [OF conjunct2 [OF conjunct2 [OF clients_get_their_own_answers [OF sample_wire_ok run]]], rule_format, unfolded n]
  have "wc_sent (conn (put_conn 1 (ws_refuse ?L True (conn C3 1)) C3) 0) = []"
    "wc_sent (conn (put_conn 1 (ws_refuse ?L True (conn C3 1)) C3) 1) =
       [response_text ?L (RespOk ''AB'' (Pong True)), response_text ?L (invalid_request ''0'')]"
    using conjunct2 [OF all [of 0]] conjunct2 [OF all [of 1]] by (simp_all add: answers_of_def del: put_conn_sel)
  with run show ?thesis by (intro exI conjI)
qed

end
