(* ===== verification/Cards.thy ===== *)
theory Cards
  imports AppRun KeystoreProps
begin

text \<open>
  The buttons of one card in \<open>app_main\<close> (edit form, archive, restore, delete, colour) against a
  specification on the list of records: each of them replaces or removes the record with the
  identifier of the card, and nothing else; and what hosts see of the archive cycle.
\<close>

section \<open>Specification\<close>

text \<open>
  The identifier a button acts on and what it makes of the record; \<open>None\<close> removes it. A button
  whose identifier does not parse, or a form that is refused, acts on nothing.
\<close>

fun card_button :: "'l app_libs_scheme \<Rightarrow> app_op \<Rightarrow> (uuid \<times> (credential_record \<Rightarrow> credential_record option)) option" where
  "card_button L (EditSave uuid lab c user pw) =
     (case validate_edit_fields lab user pw of
        Inl _ \<Rightarrow> None
      | Inr _ \<Rightarrow> map_option (\<lambda>i. (i, \<lambda>r. Some (r\<lparr>cr_label := lab, cr_color := c, cr_username := user,
          cr_password := if pw = [] then cr_password r else pw\<rparr>))) (uuid_parse_str L uuid))"
| "card_button L (ArchiveTap uuid) = map_option (\<lambda>i. (i, \<lambda>r. Some (r\<lparr>cr_archived := True\<rparr>))) (uuid_parse_str L uuid)"
| "card_button L (RestoreTap uuid) = map_option (\<lambda>i. (i, \<lambda>r. Some (r\<lparr>cr_archived := False\<rparr>))) (uuid_parse_str L uuid)"
| "card_button L (ChangeColor uuid c) = map_option (\<lambda>i. (i, \<lambda>r. Some (r\<lparr>cr_color := c\<rparr>))) (uuid_parse_str L uuid)"
| "card_button L (DeleteTap uuid) =
     map_option (\<lambda>i. (i, \<lambda>r. if cr_archived r then None else Some r)) (uuid_parse_str L uuid)"
| "card_button L _ = None"

fun is_card_button :: "app_op \<Rightarrow> bool" where
  "is_card_button (EditSave uuid lab c user pw) = True"
| "is_card_button (ArchiveTap uuid) = True"
| "is_card_button (RestoreTap uuid) = True"
| "is_card_button (ChangeColor uuid c) = True"
| "is_card_button (DeleteTap uuid) = True"
| "is_card_button _ = False"

definition edited ::
  "(uuid \<times> (credential_record \<Rightarrow> credential_record option)) option \<Rightarrow> credential_record list \<Rightarrow> credential_record list"
where
  "edited b rs =
     (case b of
        None \<Rightarrow> rs
      | Some (i, f) \<Rightarrow> List.map_filter (\<lambda>r. if cr_id r = i then f r else Some r) rs)"

section \<open>The keystore operations meet it\<close>

lemma map_filter_split:
  assumes "\<forall>x \<in> set pre. cr_id x \<noteq> i" "\<forall>x \<in> set post. cr_id x \<noteq> i" "cr_id r = i"
  shows "edited (Some (i, f)) (pre @ r # post) = pre @ (case f r of None \<Rightarrow> [] | Some r' \<Rightarrow> [r']) @ post"
proof -
  have same: "List.map_filter (\<lambda>x. if cr_id x = i then f x else Some x) xs = xs"
    if "\<forall>x \<in> set xs. cr_id x \<noteq> i" for xs
    using that by (induction xs) (simp_all add: List.map_filter_simps)
  have "List.map_filter g (xs @ ys) = List.map_filter g xs @ List.map_filter g ys"
    for g :: "credential_record \<Rightarrow> credential_record option" and xs ys
    by (simp add: List.map_filter_def)
  with same assms show ?thesis by (simp add: edited_def List.map_filter_simps split: option.split)
qed

lemma edited_absent:
  assumes "ks_get i ks = None"
  shows "edited (Some (i, f)) (ks_records ks) = ks_records ks"
proof -
  have "\<forall>x \<in> set xs. cr_id x \<noteq> i \<Longrightarrow> List.map_filter (\<lambda>x. if cr_id x = i then f x else Some x) xs = xs" for xs
    by (induction xs) (simp_all add: List.map_filter_simps)
  then show ?thesis using assms by (auto simp: edited_def ks_get_def find_None)
qed

lemma distinct_split:
  assumes "distinct_ids ks" "ks_get i ks = Some r"
  obtains pre post where "ks_records ks = pre @ r # post" "cr_id r = i"
    "\<forall>x \<in> set pre. cr_id x \<noteq> i" "\<forall>x \<in> set post. cr_id x \<noteq> i"
    "\<And>g. update_first (\<lambda>x. cr_id x = i) g (ks_records ks) = pre @ g r # post"
proof -
  obtain pre post where s: "ks_records ks = pre @ r # post" "cr_id r = i" "\<forall>x \<in> set pre. cr_id x \<noteq> i"
    "\<And>g. update_first (\<lambda>x. cr_id x = i) g (ks_records ks) = pre @ g r # post"
    by (rule update_first_split [OF assms]) blast
  have "\<forall>x \<in> set post. cr_id x \<noteq> i" using assms(1) s(1,2) by (auto simp: distinct_ids_def image_iff)
  with s that show thesis by blast
qed

lemma with_record_edited:
  assumes "distinct_ids ks" and "with_record i g ks = (res, ks')" and "\<And>r. ks_get i ks = Some r \<Longrightarrow> f r = Some (g r)"
  shows "ks' = ks\<lparr>ks_records := edited (Some (i, f)) (ks_records ks)\<rparr>"
proof (cases "ks_get i ks")
  case None
  then show ?thesis using assms(2) by (simp add: with_record_def edited_absent)
next
  case (Some r)
  obtain pre post where s: "ks_records ks = pre @ r # post" "cr_id r = i"
    "\<forall>x \<in> set pre. cr_id x \<noteq> i" "\<forall>x \<in> set post. cr_id x \<noteq> i"
    "update_first (\<lambda>x. cr_id x = i) g (ks_records ks) = pre @ g r # post"
    by (rule distinct_split [OF assms(1) Some]) blast
  have "f r = Some (g r)" by (rule assms(3) [OF Some])
  with map_filter_split [OF s(3,4,2), of f] have "edited (Some (i, f)) (ks_records ks) = pre @ g r # post"
    by (simp add: s(1))
  then show ?thesis using assms(2) Some s(5) by (simp add: with_record_def)
qed

lemma delete_edited:
  assumes "distinct_ids ks" and "ks_delete_forever i ks = (res, ks')"
  shows "ks' = ks\<lparr>ks_records := edited (Some (i, \<lambda>r. if cr_archived r then None else Some r)) (ks_records ks)\<rparr>"
proof (cases "ks_get i ks")
  case None
  then have "position (\<lambda>r. cr_id r = i) (ks_records ks) = None" by (auto simp: position_None ks_get_def find_None)
  then show ?thesis using assms(2) None by (simp add: edited_absent ks_delete_forever_def)
next
  case (Some r)
  obtain pre post where s: "ks_records ks = pre @ r # post" "cr_id r = i"
    "\<forall>x \<in> set pre. cr_id x \<noteq> i" "\<forall>x \<in> set post. cr_id x \<noteq> i"
    by (rule distinct_split [OF assms(1) Some]) blast
  note e = map_filter_split [OF s(3,4,2)]
  have p: "position (\<lambda>r. cr_id r = i) (ks_records ks) = Some (length pre)"
    using s(2,3) unfolding s(1) by (induction pre) simp_all
  have same: "ks\<lparr>ks_records := pre @ r # post\<rparr> = ks" by (simp flip: s(1))
  show ?thesis
  proof (cases "cr_archived r")
    case True
    then show ?thesis using assms(2) p e by (auto simp: ks_delete_forever_def s(1))
  next
    case False
    then have "ks' = ks" using assms(2) p by (simp add: ks_delete_forever_def s(1))
    with False same show ?thesis by (simp add: s(1) e)
  qed
qed

section \<open>The callbacks\<close>

text \<open>Every button ends in the pattern: write the edited list, or put the old one back.\<close>

definition saves :: "'l json_libs_scheme \<Rightarrow> credential_record list \<Rightarrow> keystore \<Rightarrow> 'z disk_world_scheme \<Rightarrow> bool" where
  "saves L rs ks w = fst (persist_keystore L (ks\<lparr>ks_records := rs\<rparr>) w)"

lemma saved_keystore:
  assumes "ks' = ks\<lparr>ks_records := rs\<rparr>" "ap_keystore a = ks"
    and "persist_or_restore L (ks_snapshot ks) ks' a w = (ok, a1, w1)"
  shows "ap_keystore a1 = (if saves L rs ks w then ks\<lparr>ks_records := rs\<rparr> else ks)" and "ok = saves L rs ks w"
  using assms by (auto simp: persist_or_restore_def saves_def ks_snapshot_def ks_restore_snapshot_def split: prod.splits bool.splits)

lemma commit_result_keystore:
  assumes "commit_result L (res, ks\<lparr>ks_records := rs\<rparr>) a w = (a', w')" "ap_keystore a = ks"
    and "res \<noteq> Inr () \<Longrightarrow> rs = ks_records ks"
  shows "ap_keystore a' = (if saves L rs ks w then ks\<lparr>ks_records := rs\<rparr> else ks)"
proof (cases res)
  case (Inl e)
  then show ?thesis using assms by (auto simp: commit_result_def)
next
  case (Inr u)
  obtain ok a1 w1 where p: "persist_or_restore L (ks_snapshot ks) (ks\<lparr>ks_records := rs\<rparr>) a w = (ok, a1, w1)"
    using prod_cases3 by blast
  have "ap_keystore a' = ap_keystore a1"
    using assms(1,2) p Inr by (auto simp: commit_result_def split: bool.splits dest: app_refresh_disk)
  then show ?thesis using saved_keystore(1) [OF refl assms(2) p] by simp
qed

lemma set_archived_keystore:
  assumes "distinct_ids (ap_keystore a)" "on_set_archived L b uuid a w = (a', w')" "uuid_parse_str L uuid = Some i"
  shows "ap_keystore a' =
     (let rs = edited (Some (i, \<lambda>r. Some (r\<lparr>cr_archived := b\<rparr>))) (ks_records (ap_keystore a))
      in if saves L rs (ap_keystore a) w then (ap_keystore a)\<lparr>ks_records := rs\<rparr> else ap_keystore a)"
proof -
  let ?ks = "ap_keystore a" and ?rs = "edited (Some (i, \<lambda>r. Some (r\<lparr>cr_archived := b\<rparr>))) (ks_records (ap_keystore a))"
  have e: "snd (ks_set_archived i b ?ks) = ?ks\<lparr>ks_records := ?rs\<rparr>"
    using with_record_edited [OF assms(1), of i "\<lambda>r. r\<lparr>cr_archived := b\<rparr>"]
    by (simp add: ks_set_archived_def prod_eq_iff)
  obtain ok a1 w1 where p: "persist_or_restore L (ks_snapshot ?ks) (snd (ks_set_archived i b ?ks)) a w = (ok, a1, w1)"
    using prod_cases3 by blast
  have "ap_keystore a' = ap_keystore a1"
    using assms(2,3) p by (auto simp: on_set_archived_def split: bool.splits dest: app_refresh_disk)
  then show ?thesis using saved_keystore(1) [OF e refl p] by (simp add: Let_def)
qed

lemma edit_keystore:
  assumes "distinct_ids (ap_keystore a)" "on_edit_save L uuid lab c user pw a w = (a', w')" "uuid_parse_str L uuid = Some i"
    and valid: "validate_edit_fields lab user pw = Inr u"
  shows "ap_keystore a' =
     (let rs = edited (card_button L (EditSave uuid lab c user pw)) (ks_records (ap_keystore a))
      in if saves L rs (ap_keystore a) w then (ap_keystore a)\<lparr>ks_records := rs\<rparr> else ap_keystore a)"
proof -
  let ?ks = "ap_keystore a"
  define pw' where "pw' = (if pw = [] then (case ks_get i ?ks of None \<Rightarrow> [] | Some r \<Rightarrow> cr_password r) else pw)"
  define rs where "rs = edited (card_button L (EditSave uuid lab c user pw)) (ks_records ?ks)"
  obtain res ks1 where k: "ks_edit i lab c user pw' ?ks = (res, ks1)" by force
  have e: "ks1 = ?ks\<lparr>ks_records := rs\<rparr>"
    unfolding rs_def card_button.simps valid assms(3) sum.case option.map
    by (rule with_record_edited [OF assms(1) k [unfolded ks_edit_def]]) (simp add: pw'_def)
  show ?thesis
  proof (cases res)
    case (Inl err)
    with k have "ks1 = ?ks" by (auto simp: ks_edit_def dest: with_record_error)
    moreover have "ap_keystore a' = ks1"
      using assms(2-4) k Inl by (simp add: on_edit_save_def Let_def pw'_def) auto
    ultimately show ?thesis using e unfolding rs_def [symmetric] by (simp add: Let_def)
  next
    case (Inr x)
    obtain ok a1 w1 where p: "persist_or_restore L (ks_snapshot ?ks) ks1 a w = (ok, a1, w1)"
      using prod_cases3 by blast
    have "ap_keystore a' = ap_keystore a1"
      using assms(2-4) k Inr p
      by (auto simp: on_edit_save_def Let_def pw'_def split: bool.splits prod.splits dest!: app_refresh_disk)
    then show ?thesis using saved_keystore(1) [OF e refl p] unfolding rs_def [symmetric] by (simp add: Let_def)
  qed
qed

lemma card_button_keystore:
  assumes "distinct_ids (ap_keystore (rn_app s))" "is_card_button p" "app_step L p s = Some s'"
  shows "ap_keystore (rn_app s') =
     (let ks = ap_keystore (rn_app s); rs = edited (card_button L p) (ks_records ks)
      in if saves L rs ks (rn_world s) then ks\<lparr>ks_records := rs\<rparr> else ks)"
proof (cases "card_button L p")
  case None
  then have "ap_keystore (rn_app s') = ap_keystore (rn_app s)"
    using assms(2,3)
    by (cases p) (auto simp: on_both_def on_edit_save_def on_archive_def on_restore_def on_set_archived_def
        on_delete_forever_def on_change_color_def split: sum.splits option.splits)
  then show ?thesis by (simp add: None edited_def Let_def)
next
  case (Some b)
  let ?ks = "ap_keystore (rn_app s)"
  show ?thesis
  proof (cases p)
    case (EditSave uuid lab c user pw)
    with Some obtain i u where v: "uuid_parse_str L uuid = Some i" "validate_edit_fields lab user pw = Inr u"
      by (auto split: sum.splits)
    obtain a' w' where o: "on_edit_save L uuid lab c user pw (rn_app s) (rn_world s) = (a', w')" by force
    then have "rn_app s' = a'" using assms(3) by (auto simp: EditSave on_both_def)
    with edit_keystore [OF assms(1) o v] show ?thesis by (simp add: EditSave Let_def)
  next
    case (ArchiveTap uuid)
    with Some obtain i where i: "uuid_parse_str L uuid = Some i" by auto
    obtain a' w' where o: "on_set_archived L True uuid (rn_app s) (rn_world s) = (a', w')" by force
    then have "rn_app s' = a'" using assms(3) by (auto simp: ArchiveTap on_both_def on_archive_def)
    with set_archived_keystore [OF assms(1) o i] show ?thesis by (simp add: ArchiveTap i Let_def)
  next
    case (RestoreTap uuid)
    with Some obtain i where i: "uuid_parse_str L uuid = Some i" by auto
    obtain a' w' where o: "on_set_archived L False uuid (rn_app s) (rn_world s) = (a', w')" by force
    then have "rn_app s' = a'" using assms(3) by (auto simp: RestoreTap on_both_def on_restore_def)
    with set_archived_keystore [OF assms(1) o i] show ?thesis by (simp add: RestoreTap i Let_def)
  next
    case (ChangeColor uuid c)
    with Some obtain i where i: "uuid_parse_str L uuid = Some i" by auto
    obtain res ks1 where k: "ks_set_color i c ?ks = (res, ks1)" by force
    have e: "ks1 = ?ks\<lparr>ks_records := edited (card_button L p) (ks_records ?ks)\<rparr>"
      unfolding ChangeColor card_button.simps i option.map
      by (rule with_record_edited [OF assms(1) k [unfolded ks_set_color_def]]) simp
    have "edited (card_button L p) (ks_records ?ks) = ks_records ?ks" if "res \<noteq> Inr ()"
      using that k i by (cases res) (auto simp: ChangeColor ks_set_color_def edited_absent dest!: with_record_error)
    note same = this
    obtain a' w' where o: "on_change_color L uuid c (rn_app s) (rn_world s) = (a', w')" by force
    then have a': "rn_app s' = a'" using assms(3) by (auto simp: ChangeColor on_both_def)
    from o i k have "commit_result L (res, ?ks\<lparr>ks_records := edited (card_button L p) (ks_records ?ks)\<rparr>) (rn_app s) (rn_world s) = (a', w')"
      by (simp add: on_change_color_def flip: e)
    from commit_result_keystore [OF this refl same] show ?thesis by (simp add: a' Let_def)
  next
    case (DeleteTap uuid)
    with Some obtain i where i: "uuid_parse_str L uuid = Some i" by auto
    obtain res ks1 where k: "ks_delete_forever i ?ks = (res, ks1)" by force
    have e: "ks1 = ?ks\<lparr>ks_records := edited (card_button L p) (ks_records ?ks)\<rparr>"
      unfolding DeleteTap card_button.simps i option.map by (rule delete_edited [OF assms(1) k])
    have "edited (card_button L p) (ks_records ?ks) = ks_records ?ks" if "res \<noteq> Inr ()"
    proof -
      have "ks1 = ?ks" using that k delete_forever_only_archived [where i = i and ks = ?ks] by (cases res) simp_all
      with e show ?thesis by (metis keystore.select_convs(1) keystore.surjective keystore.update_convs(1))
    qed
    note same = this
    obtain a' w' where o: "on_delete_forever L uuid (rn_app s) (rn_world s) = (a', w')" by force
    then have a': "rn_app s' = a'" using assms(3) by (auto simp: DeleteTap on_both_def)
    from o i k have "commit_result L (res, ?ks\<lparr>ks_records := edited (card_button L p) (ks_records ?ks)\<rparr>) (rn_app s) (rn_world s) = (a', w')"
      by (simp add: on_delete_forever_def flip: e)
    from commit_result_keystore [OF this refl same] show ?thesis by (simp add: a' Let_def)
  qed (use assms(2) in simp_all)
qed

section \<open>Properties\<close>

text \<open>
  C20: a button of a card changes its own record and nothing else, in memory and on disk. Let memory
  and disk agree and the identifiers be distinct, and let the user save the edit form, archive,
  restore, delete for ever or recolour. The keystore is then the old one with the record of
  that card replaced (or, if it was archived, removed by delete), when the edited list can be
  written; otherwise it is the old one. A restart finds what is in memory, every record of another
  card is still there, and the write succeeds whenever the disk takes it and the list has a JSON text.
\<close>

theorem card_button_changes_one_record:
  assumes laws: "disk_laws L" and s: "running_synced L master s" and ids: "distinct_ids (ap_keystore (rn_app s))"
    and op: "is_card_button p" "app_step L p s = Some s'"
  defines "ks \<equiv> ap_keystore (rn_app s)"
  defines "rs \<equiv> edited (card_button L p) (ks_records ks)"
  shows "ap_keystore (rn_app s') = (if saves L rs ks (rn_world s) then ks\<lparr>ks_records := rs\<rparr> else ks) \<and>
     (\<exists>r. app_start L master (rn_world s') = Inr r \<and> ap_keystore (rn_app r) = ap_keystore (rn_app s')) \<and>
     (\<forall>r \<in> set (ks_records ks). (\<nexists>f. card_button L p = Some (cr_id r, f)) \<longrightarrow> r \<in> set (ks_records (ap_keystore (rn_app s')))) \<and>
     (\<forall>raw. aead_total L \<and> json_of_records L rs = Inr raw \<and> length raw < 2 ^ 32 \<and> shd (dw_writes (rn_world s)) \<longrightarrow>
        saves L rs ks (rn_world s))"
proof (intro conjI ballI allI impI)
  show eq: "ap_keystore (rn_app s') = (if saves L rs ks (rn_world s) then ks\<lparr>ks_records := rs\<rparr> else ks)"
    using card_button_keystore [OF ids op] by (simp add: ks_def rs_def Let_def)
  obtain r where "app_start L master (rn_world s') = Inr r" "ap_keystore (rn_app r) = ap_keystore (rn_app s')"
    by (rule synced_restart [OF app_step_synced [OF laws op(2) s]])
  then show "\<exists>r. app_start L master (rn_world s') = Inr r \<and> ap_keystore (rn_app r) = ap_keystore (rn_app s')" by blast
  show "r \<in> set (ks_records (ap_keystore (rn_app s')))"
    if "r \<in> set (ks_records ks)" "\<nexists>f. card_button L p = Some (cr_id r, f)" for r
  proof -
    have "r \<in> set rs" using that
      by (auto simp: rs_def edited_def List.map_filter_def image_iff split: option.split)
    with that(1) show ?thesis by (simp add: eq)
  qed
  have k: "ks_key (ks\<lparr>ks_records := rs\<rparr>) = derive_key L master" using s by (simp add: running_synced_def synced_def ks_def)
  fix raw
  assume "aead_total L \<and> json_of_records L rs = Inr raw \<and> length raw < 2 ^ 32 \<and> shd (dw_writes (rn_world s))"
  then have h: "aead_total L" "json_of_records L (ks_records (ks\<lparr>ks_records := rs\<rparr>)) = Inr raw" "length raw < 2 ^ 32"
    "shd (dw_writes (rn_world s))" by (simp, simp, blast, blast)
  obtain w' where "persist_keystore L (ks\<lparr>ks_records := rs\<rparr>) (rn_world s) = (True, w')"
    by (rule persist_succeeds [OF laws h(1) k h(2-4)])
  then show "saves L rs ks (rn_world s)" by (simp add: saves_def)
qed

definition sample_archived :: "credential_record list" where
  "sample_archived = [\<lparr>cr_id = 1, cr_origin = ''https://example.com'', cr_username = ''ann'', cr_password = ''pw'', cr_label = [],
     cr_color = 5, cr_archived = True, cr_notes = None, cr_created_at = 0, cr_last_used_at = 0\<rparr>]"

lemma card_button_changes_one_record_witness:
  "\<exists>(s :: disk_world running) s' r. app_step (sample_app sample_archived) (DeleteTap ''1'') s = Some s' \<and>
     ks_records (ap_keystore (rn_app s)) = sample_archived \<and> ks_records (ap_keystore (rn_app s')) = [] \<and>
     app_start (sample_app sample_archived) [7] (rn_world s') = Inr r \<and> ks_records (ap_keystore (rn_app r)) = []"
proof -
  let ?L = "sample_app sample_archived"
  let ?ks = "(keystore_new ?L [7])\<lparr>ks_records := sample_archived\<rparr>"
  have j: "json_of_records ?L sample_archived = Inr [1]" "json_of_records ?L [] = Inr [0]"
    by (simp_all add: sample_app_def sample_json_def json_libs.defs libs.defs sample_archived_def)
  have k: "ks_key ?ks = derive_key ?L [7]" "shd (dw_writes (sample_disk (sconst True)))" "length ([1] :: bytes) < 2 ^ 32"
    by (simp_all add: keystore_new_def sample_disk_def world.defs)
  have j': "json_of_records ?L (ks_records ?ks) = Inr [1]" using j by simp
  obtain w where w: "persist_keystore ?L ?ks (sample_disk (sconst True)) = (True, w)" "synced ?L [7] ?ks w"
    "dw_writes w = stl (dw_writes (sample_disk (sconst True)))"
    by (rule persist_succeeds [OF sample_app_disk_laws sample_app_laws(2) k(1) j' k(3,2)])
  have ok: "shd (dw_writes w)" using w(3) by (simp add: sample_disk_def world.defs)
  define s where "s = \<lparr>rn_app = app_new ?ks, rn_session = session_new, rn_world = w\<rparr>"
  have sel: "ap_keystore (rn_app s) = ?ks" "rn_world s = w" by (simp_all add: s_def app_new_def)
  have sy: "running_synced ?L [7] s" using w(2) by (simp add: running_synced_def sel)
  have ids: "distinct_ids (ap_keystore (rn_app s))" by (simp add: sel distinct_ids_def sample_archived_def)
  obtain s' where st: "app_step ?L (DeleteTap ''1'') s = Some s'"
    by (cases "on_delete_forever ?L ''1'' (rn_app s) (rn_world s)") (simp add: on_both_def)
  have "uuid_parse_str ?L ''1'' = Some 1" by (simp add: sample_app_def json_libs.defs)
  then have e: "edited (card_button ?L (DeleteTap ''1'')) (ks_records ?ks) = []"
    by (simp add: edited_def sample_archived_def List.map_filter_simps)
  note c = card_button_changes_one_record [OF sample_app_disk_laws sy ids _ st, unfolded sel e]
  have b: "is_card_button (DeleteTap ''1'')" by simp
  have "saves ?L [] ?ks w"
    by (rule mp [OF spec [OF conjunct2 [OF conjunct2 [OF conjunct2 [OF c [OF b]]]], of "[0]"]])
      (simp add: j(2) sample_app_laws(2) ok)
  then have s': "ap_keystore (rn_app s') = ?ks\<lparr>ks_records := []\<rparr>" using c [OF b] by simp
  obtain r where r: "app_start ?L [7] (rn_world s') = Inr r" "ap_keystore (rn_app r) = ap_keystore (rn_app s')"
    using c [OF b] by blast
  have recs: "ks_records (ap_keystore (rn_app s)) = sample_archived" "ks_records (ap_keystore (rn_app s')) = []"
    "ks_records (ap_keystore (rn_app r)) = []" by (simp_all add: sel s' r(2))
  show ?thesis by (intro exI conjI) (rule st, rule recs, rule recs, rule r, rule recs)
qed

end
