(* ===== verification/Calls.thy ===== *)
theory Calls
  imports Transport Wire "HOL-Library.Countable"
begin

text \<open>
  A call from end to end: the values of \<open>Wire\<close> as texts on the two transports of \<open>Transport\<close>.
\<close>

section \<open>The text of JSON values\<close>

text \<open>
  What the transports rely on of \<open>serde_json\<close>, for its writer \<open>text\<close>: reading a request from a text is
  reading it from the value written, a response is written as the text of its value, and the
  member of an object whose names are distinct is found in the value read from its text.
\<close>

definition text_ok :: "'l wire_libs_scheme \<Rightarrow> 'd serde_scheme \<Rightarrow> (json \<Rightarrow> bytes) \<Rightarrow> bool" where
  "text_ok L D text \<longleftrightarrow>
     (\<forall>j. request_of_json L (text j) = read_request D j) \<and>
     (\<forall>r. json_of_response L r = Inr (text (response_value r))) \<and>
     (\<forall>kvs k. distinct (map fst kvs) \<longrightarrow>
        Option.bind (json_value L (text (JObject kvs))) (\<lambda>v. Option.bind (json_get k v) json_as_str) =
        Option.bind (map_of kvs k) json_as_str)"

lemma text_okD:
  assumes "text_ok L D text"
  shows "request_of_json L (text j) = read_request D j" and "json_of_response L r = Inr (text (response_value r))"
    and "distinct (map fst kvs) \<Longrightarrow>
        Option.bind (json_value L (text (JObject kvs))) (\<lambda>v. Option.bind (json_get k v) json_as_str) =
        Option.bind (map_of kvs k) json_as_str"
  using assms by (auto simp: text_ok_def)

text \<open>What a host sends for a request, and the same with one more parameter.\<close>

definition request_text :: "(json \<Rightarrow> bytes) \<Rightarrow> request \<Rightarrow> bytes" where
  "request_text text rq = text (JObject (request_value rq))"

definition extended_text :: "(json \<Rightarrow> bytes) \<Rightarrow> request \<Rightarrow> (string \<times> json) list \<Rightarrow> bytes" where
  "extended_text text rq ps =
     text (JObject [(''id'', JString (rq_id rq)), (''method'', JString (method_name (rq_method rq))), (''params'', JObject ps)])"

lemma read_request_text:
  assumes "text_ok L D text" "serde_ok D"
  shows "request_of_json L (request_text text rq) = Some rq"
  unfolding request_text_def text_okD(1) [OF assms(1)]
  by (rule read_request_members [OF assms(2)]) (rule request_members)+

lemma read_extended_text:
  assumes "text_ok L D text" "serde_ok D" "method_params (rq_method rq) = Some ps"
    "k \<notin> set (param_keys (method_name (rq_method rq)))"
  shows "request_of_json L (extended_text text rq (ps @ [(k, v)])) = None"
  unfolding extended_text_def text_okD(1) [OF assms(1)] by (rule unknown_param_unreadable [OF assms(2-4)])

lemma salvage_extended:
  "text_ok L D text \<Longrightarrow> salvage_id L (extended_text text rq ps) = rq_id rq"
  by (simp add: salvage_id_def extended_text_def text_okD(3))

section \<open>Properties\<close>

text \<open>
  C11: a call reaches the engine as the host made it, on both transports. The text of a request is
  handled by the engine as that request, at the time the clock shows, and the WebSocket client is
  sent the text of the value of the response. A request with a parameter the device does not know
  is refused without touching the engine, but not under the same identifier: WebUSB answers
  under that of the request, the WebSocket server under 0.
\<close>

theorem calls_reach_the_engine:
  fixes w :: "'z usb_world_scheme"
  assumes laws: "text_ok L D text" "serde_ok D"
  shows "webusb_dispatch L decide (request_text text rq) en w =
       (case now_ms w of (now, w1) \<Rightarrow> handle L (keystore_ops L) (on_write L) decide rq now en w1) \<and>
     ws_turn L decide True (WsText (request_text text rq)) (s, w) =
       map_option (\<lambda>(resp, en, w2). (WsContinue, s\<lparr>wsk_engine := en, wsk_sent := wsk_sent s @ [text (response_value resp)]\<rparr>, w2))
         (case now_ms w of (now, w1) \<Rightarrow> handle L (keystore_ops L) (on_write L) decide rq now (wsk_engine s) w1) \<and>
     (\<forall>ps k v. method_params (rq_method rq) = Some ps \<and> k \<notin> set (param_keys (method_name (rq_method rq))) \<longrightarrow>
        webusb_dispatch L decide (extended_text text rq (ps @ [(k, v)])) en w = Some (invalid_request (rq_id rq), en, w) \<and>
        ws_turn L decide True (WsText (extended_text text rq (ps @ [(k, v)]))) (s, w) =
          Some (WsContinue, s\<lparr>wsk_sent := wsk_sent s @ [text (response_value (invalid_request ''0''))]\<rparr>, w))"
proof -
  have r: "request_of_json L (request_text text rq) = Some rq" by (rule read_request_text [OF laws])
  note j = text_okD(2) [OF laws(1)]
  have "webusb_dispatch L decide (extended_text text rq (ps @ [(k, v)])) en w = Some (invalid_request (rq_id rq), en, w) \<and>
      ws_turn L decide True (WsText (extended_text text rq (ps @ [(k, v)]))) (s, w) =
        Some (WsContinue, s\<lparr>wsk_sent := wsk_sent s @ [text (response_value (invalid_request ''0''))]\<rparr>, w)"
    if "method_params (rq_method rq) = Some ps" "k \<notin> set (param_keys (method_name (rq_method rq)))" for ps k v
    using read_extended_text [OF laws that] salvage_extended [OF laws(1)]
    by (simp add: webusb_dispatch_def ws_turn_def Let_def j del: response_value.simps param_keys.simps)
  moreover have "webusb_dispatch L decide (request_text text rq) en w =
       (case now_ms w of (now, w1) \<Rightarrow> handle L (keystore_ops L) (on_write L) decide rq now en w1)"
    by (simp add: webusb_dispatch_def r)
  moreover have "ws_turn L decide True (WsText (request_text text rq)) (s, w) =
       map_option (\<lambda>(resp, en, w2). (WsContinue, s\<lparr>wsk_engine := en, wsk_sent := wsk_sent s @ [text (response_value resp)]\<rparr>, w2))
         (case now_ms w of (now, w1) \<Rightarrow> handle L (keystore_ops L) (on_write L) decide rq now (wsk_engine s) w1)"
    by (simp add: ws_turn_def r j Let_def del: response_value.simps split: prod.split option.split)
  ultimately show ?thesis by blast
qed

text \<open>A writer that satisfies the law: a text whose length is the number of the value.\<close>

instance json :: countable
  by countable_datatype

definition counted_text :: "json \<Rightarrow> bytes" where
  "counted_text j = replicate (to_nat j) 65"

definition counted_wire :: wire_libs where
  "counted_wire = app_libs.extend (sample_app [])
     \<lparr>request_of_json = (\<lambda>p. read_request sample_serde (from_nat (length p))),
      json_value = (\<lambda>p. Some (from_nat (length p))),
      json_of_response = (\<lambda>r. Inr (counted_text (response_value r)))\<rparr>"

lemma counted_text_ok: "text_ok counted_wire sample_serde counted_text"
  by (simp add: text_ok_def counted_wire_def app_libs.defs counted_text_def json_get_distinct
      del: read_request.simps response_value.simps json_get.simps)

lemma calls_reach_the_engine_witness:
  "\<exists>p. method_params (ListCredentials ''https://a.b'') = Some p \<and>
     webusb_dispatch counted_wire (\<lambda>_. Reject)
       (extended_text counted_text \<lparr>rq_id = ''7'', rq_method = ListCredentials ''https://a.b''\<rparr> (p @ [(''all'', JBool True)]))
       (sample_engine sample_keystore) (sample_usb (sconst (TxOk 64))) =
     Some (invalid_request ''7'', sample_engine sample_keystore, sample_usb (sconst (TxOk 64)))"
  using calls_reach_the_engine [OF counted_text_ok sample_serde_ok, of "\<lambda>_. Reject"
      "\<lparr>rq_id = ''7'', rq_method = ListCredentials ''https://a.b''\<rparr>" "sample_engine sample_keystore"
      "sample_usb (sconst (TxOk 64))"]
  by simp

end
