(* ===== verification/Spec2Isabelle.thy ===== *)
theory Spec2Isabelle
  imports Server EngineProps KeystoreProps ProtocolProps CsvImport AppRun Transport SimDisk CommitSteps Flows
    Screen System Overlap Device Startup Files Redaction
    Wire Clients Cards Calls
begin

text \<open>
  Passwords, a password manager that runs on a hardware device (KeyOS) and releases
  credentials to a browser extension over USB after an approval on the device's screen.

  The program. A line-framed JSON request arrives on a transport
  (\<open>src/transport/webusb.rs\<close>, framing in \<open>logic/vaults-bridge-protocol\<close>) and is routed by the
  engine (\<open>logic/vaults-bridge-core/src/engine.rs\<close>) to the session (key agreement, nonces, idle
  time: \<open>session.rs\<close>), to the credential store (\<open>logic/vaults-bridge-keystore\<close>) and to the
  approver (the \<open>SlintApprover\<close> of \<open>src/main.rs\<close>), which waits for a tap. The app around it
  (\<open>src/main.rs\<close>, \<open>state.rs\<close>, \<open>persist.rs\<close>, \<open>import_flow.rs\<close>, \<open>backup_flow.rs\<close>) keeps the
  keystore on disk, shows the list, and imports CSV exports
  (\<open>logic/vaults-bridge-import\<close>) and encrypted backups.

  The theories, in the order of their imports.

  \<^item> \<open>Prelude\<close>: bytes, text, words, \<open>Vec\<close> helpers and the world (random tape and clock).
  \<^item> \<open>Frame\<close>: \<open>frame.rs\<close> and the byte loop of \<open>webusb.rs\<close>; locale \<open>line_framing\<close>, interpreted
    for both splitters.
  \<^item> \<open>Externals\<close>: the third-party crates as a record of functions, with their documented
    laws as named predicates and one sample instance that satisfies all of them.
  \<^item> \<open>Message\<close>, \<open>Origin\<close>, \<open>Session\<close>, \<open>Password\<close>: the message types, \<open>origin.rs\<close>,
    \<open>session.rs\<close>, and the generator of \<open>engine.rs\<close>. \<open>Wire\<close>: the JSON values that the \<open>serde\<close>
    attributes of the message types define, written and read, with their round trips.
    \<open>Sampling\<close>: locale \<open>rejection_sampler\<close>, which counts the random tapes that lead to a value, and
    its interpretations for the loops of the generator.
  \<^item> \<open>CredentialStore\<close>: \<open>record.rs\<close> and the trait of \<open>store.rs\<close> as a record of functions; its
    contract is the locale \<open>credential_store\<close>.
  \<^item> \<open>Keystore\<close>, \<open>Backup\<close>: the keystore crate; \<open>Keystore\<close> interprets \<open>credential_store\<close>.
  \<^item> \<open>Approval\<close>: \<open>approval.rs\<close> and the approver of \<open>main.rs\<close>; locale \<open>approver\<close>, interpreted for
    the two stub approvers and for the Slint one.
  \<^item> \<open>Engine\<close>: \<open>engine.rs\<close>. A handler is cut at its \<open>await\<close>: \<open>dispatch\<close> runs up to it and yields
    a card to show and a continuation, \<open>resume\<close> runs the rest with the decision. Its lemmas
    are proved once in the locale \<open>engine_store\<close>, which extends \<open>credential_store\<close>.
  \<^item> \<open>Samples\<close>, \<open>Bridge\<close>: concrete values, and the engine on the keystore.
  \<^item> \<open>EngineProps\<close>: what one request does; \<open>Server\<close>: the running app as an inductive step
    relation in which requests, taps, time outs, queued UI tasks and resumed handlers
    interleave in every order, with its invariant and the trace properties.
  \<^item> \<open>KeystoreProps\<close>, \<open>ProtocolProps\<close>, \<open>CsvImport\<close>, \<open>View\<close>: the properties of the keystore,
    of framing, origins, session and generator, of the CSV reader, and of the list.
  \<^item> \<open>App\<close>, \<open>AppRun\<close>: every callback of \<open>app_main\<close> that changes state, the start, and the
    callbacks as steps over a disk whose writes may fail. The locale
    \<open>callback_invariant\<close> has what every callback keeps for any predicate that the persist
    pattern keeps; it is interpreted for the key and used for "memory is what is on disk".
    \<open>WorldFrame\<close> has the locale \<open>world_steps\<close>: what the operations may do to the world (draw,
    read the clock, write), proved once for any preorder on worlds and interpreted for the
    random tape, the disk, the pending writes and the USB state.
  \<^item> \<open>Transport\<close>: \<open>webusb.rs\<close> (registration, setup responder, reader thread, dispatcher and
    writer) and the client loop of \<open>websocket.rs\<close>, around the engine on the keystore.
  \<^item> \<open>SimDisk\<close>: the simulator's half of \<open>persist.rs\<close>, step by step with failures and power cuts;
    it refines the one-step write of \<open>App\<close>.
  \<^item> \<open>Vault\<close>: the keystore as a refinement of a map from origin and user name to password and
    archived flag.
  \<^item> \<open>CommitSteps\<close>: \<open>commit_store_mutation\<close> at the grain of its locks, with user callbacks between
    its three locked sections; what stays true and what an interleaved edit can lose.
  \<^item> \<open>Flows\<close>: backup and restore, CSV import and the form for a new password from end to end,
    stated on the abstract vault and the disk. \<open>Files\<close>: the pickers, reading and writing of files
    behind those flows, over a platform that is a parameter, and the stubs of the simulator.
  \<^item> \<open>Screen\<close>: the card on the screen against the approval slot, over any sequence of operations
    of the approver.
  \<^item> \<open>Runs\<close>: runs of a labelled step relation, with the locales \<open>step_invariant\<close>,
    \<open>step_simulation\<close> and \<open>step_refinement\<close>, interpreted on the relations of
    \<open>Server\<close>, \<open>System\<close> and \<open>Clients\<close>.
  \<^item> \<open>System\<close>: the whole app, that is \<open>Server\<close> and the callbacks of \<open>AppRun\<close> over one keystore and
    one disk. It refines \<open>Server\<close>, with callbacks as its edits, so what \<open>Server\<close> proves of traces holds
    of it; here a commit is one step. \<open>Threads\<close> cuts the commits into the locked sections of
    \<open>CommitSteps\<close>, any number of them in flight, and says what changes on disk as long as no hook
    fails; undisturbed, a cut commit is the one step. \<open>Overlap\<close> lets hooks fail too: a rollback
    that overlaps another change is the only way in which memory and disk part, and what it
    undoes the only change on disk without the user.
  \<^item> \<open>Device\<close>: the write of the device, whose guard cannot report a failure, next to the reporting
    write of \<open>App\<close>.
  \<^item> \<open>Startup\<close>: the master key, the start with its early returns, the transport thread with the
    WebSocket server, the status line, and the theme.
  \<^item> \<open>Calls\<close>: the values of \<open>Wire\<close> as texts on both transports, up to the engine and back.
  \<^item> \<open>Cards\<close>: the buttons of one card against a specification on the list of records.
  \<^item> \<open>Clients\<close>: all clients of the WebSocket server, each a task that reads, awaits and answers,
    interleaved over \<open>System\<close>. Every step is a run of \<open>System\<close> of at most one step (locale
    \<open>step_refinement\<close> of \<open>Runs\<close>), so the trace properties hold of it.
  \<^item> \<open>Redaction\<close>: the hand-written \<open>Debug\<close> implementations as calls on the formatter; locale
    \<open>redacting\<close> (a print tells exactly the public part), interpreted for the five types.

  Reading the model. A \<open>String\<close> is a HOL string whose characters are the bytes of its UTF-8
  form, so \<open>length\<close> is \<open>len()\<close>. \<open>u8\<close> to \<open>u64\<close> are words of that width. A \<open>Result\<close> is a sum with
  the error on the left. Mutated state is passed and returned. Secrets that the code wipes
  (\<open>zeroize\<close>) are values that the model drops: that memory is wiped is not modelled.

  Loops and fuel. No fuel is used. The three loops that may draw random bytes for ever
  (\<open>pick_byte\<close>, \<open>random_index\<close>, \<open>fresh_id\<close>) are \<open>partial_function (option)\<close> over the random tape,
  with \<open>None\<close> for "never returns"; the hypotheses \<open>fair\<close> and \<open>uuids_fresh\<close> on the tape give
  that they return, and the properties about returning state it as such. All other loops
  are structural or have a measure.

  Abstractions. \<open>Server\<close> takes \<open>SlintApprover::request\<close> up to its await as one step, and the
  locked sections of \<open>commit_store_mutation\<close> as one step (\<open>CommitSteps\<close> splits them); its rule
  for edits of the user allows any change of the store, which \<open>System\<close> narrows to what the
  callbacks do. \<open>AppRun\<close> takes each callback as one step: a callback holds the lock of the
  keystore from its change to its write, and takes it again only to refresh the list.
  \<open>System\<close> takes the end of each handler as one step; what is said of memory and disk along
  all runs is said on the cut commits, by \<open>Threads\<close> and \<open>Overlap\<close>.
  A disk write either replaces the blob or leaves it: on the device this is the promise of
  \<open>FileBacked\<close>, for the simulator it is proved in \<open>SimDisk\<close>. The writes of \<open>App\<close> report a failure;
  those of the device do not, and \<open>Device\<close> shows the difference. \<open>Transport\<close> runs each request to its
  end with the decision the user will give, as the dispatcher thread does.

  Not modelled. The text of JSON values (parameters with the law that reading inverts
  writing; \<open>Wire\<close> has the values of the messages, but for two details of \<open>serde\<close> that are
  parameters of it); the cryptographic, URL and UUID crates, the file picker, the file system
  server and the security service (parameters); the build script and the window loop, which
  only call the platform; the lines of the log; the Slint files, the browser
  extension and the demo sites, which are other languages.
\<close>

end
